(* ===== verification/Prelude.thy ===== *)
theory Prelude
  imports Complex_Main "HOL-Library.Word" "HOL-Library.Monad_Syntax"
begin

unbundle bit_operations_syntax

text \<open>
  Shared vocabulary of the development: the C integer types as words of their
  width, C's \<open>assert\<close> as a partial identity in the option monad (a failed
  assertion is \<^const>\<open>None\<close>), and the lemmas on words, options and lists that
  several components use.
\<close>

section \<open>C types\<close>

type_synonym u8 = "8 word"
type_synonym u32 = "32 word"
type_synonym u64 = "64 word"
type_synonym i64 = "64 word"

definition SIZE_MAX :: nat where
  "SIZE_MAX = 2 ^ 64 - 1"

text \<open>A result of C's \<open>int\<close> arithmetic; an overflow is undefined behaviour, \<^const>\<open>None\<close>.\<close>

definition INT_MAX :: int where
  "INT_MAX = 2147483647"

definition INT_MIN :: int where
  "INT_MIN = - 2147483648"

definition c_int :: "int \<Rightarrow> int option" where
  "c_int v = (if INT_MIN \<le> v \<and> v \<le> INT_MAX then Some v else None)"

lemma c_int_SomeD [dest!]: "c_int v = Some w \<Longrightarrow> w = v \<and> INT_MIN \<le> v \<and> v \<le> INT_MAX"
  by (simp add: c_int_def split: if_splits)

lemma c_int_None: "c_int v = None \<longleftrightarrow> v < INT_MIN \<or> INT_MAX < v"
  by (auto simp: c_int_def)

lemma c_int_nonneg: "0 \<le> v \<Longrightarrow> v \<le> INT_MAX \<Longrightarrow> c_int v = Some v"
  by (simp add: c_int_def INT_MIN_def)

section \<open>Assertions\<close>

text \<open>\<open>c_assert b s\<close> is the statement \<open>assert(b)\<close> executed in state \<open>s\<close>.\<close>

definition c_assert :: "bool \<Rightarrow> 's \<Rightarrow> 's option" where
  "c_assert b s = (if b then Some s else None)"

named_theorems assert_simps

lemma c_assert_True [simp, assert_simps]: "b \<Longrightarrow> c_assert b s = Some s"
  by (simp add: c_assert_def)

lemma c_assert_False [simp]: "\<not> b \<Longrightarrow> c_assert b s = None"
  by (simp add: c_assert_def)

lemma c_assert_SomeD [dest!]: "c_assert b s = Some t \<Longrightarrow> b \<and> t = s"
  by (simp add: c_assert_def split: if_splits)

lemma bind_c_assert: "(c_assert b s \<bind> f) = (if b then f s else None)"
  by (simp add: c_assert_def)

section \<open>Words\<close>

lemma word_less_plus_1:
  fixes t :: "'a::len word"
  assumes "t \<noteq> - 1"
  shows "t < t + 1"
proof -
  have "unat (t + 1) = Suc (unat t)"
    using assms by (metis add.commute unatSuc add_eq_0_iff2)
  then show ?thesis
    by (simp add: word_less_nat_alt)
qed

lemma unat_drop_bit_1_less:
  fixes x :: "'a::len word"
  assumes "x \<noteq> 0"
  shows "unat (drop_bit 1 x) < unat x"
proof -
  have "0 < unat x" using assms by (simp add: unat_gt_0)
  moreover have "unat (drop_bit 1 x) = drop_bit 1 (unat x)"
    by (rule unat_drop_bit_eq)
  ultimately show ?thesis by (simp add: drop_bit_eq_div)
qed

lemma sint_add_eq:
  fixes a b :: i64
  assumes "- (2 ^ 63) \<le> sint a + sint b" and "sint a + sint b < 2 ^ 63"
  shows "sint (a + b) = sint a + sint b"
  using assms by (simp add: sint_word_ariths signed_take_bit_int_eq_self)

lemma unat_of_nat_u32: "i < 2 ^ 32 \<Longrightarrow> unat (of_nat i :: u32) = i"
  by (simp add: unat_of_nat take_bit_nat_eq_self)

lemma unat_of_nat_u32_inv: "unat (w :: u32) = i \<Longrightarrow> w = of_nat i"
  by auto

lemma of_nat_less_u32: "i < 2 ^ 32 \<Longrightarrow> j < 2 ^ 32 \<Longrightarrow> (of_nat i :: u32) < of_nat j \<longleftrightarrow> i < j"
  by (simp add: word_less_nat_alt unat_of_nat_u32)

lemma of_nat_le_u32: "i < 2 ^ 32 \<Longrightarrow> j < 2 ^ 32 \<Longrightarrow> (of_nat i :: u32) \<le> of_nat j \<longleftrightarrow> i \<le> j"
  by (simp add: word_le_nat_alt unat_of_nat_u32)


section \<open>Total correctness of option-valued code\<close>

text \<open>\<open>succeeds P m\<close>: the computation \<open>m\<close> fails no assertion and its result satisfies \<open>P\<close>.\<close>

definition succeeds :: "('a \<Rightarrow> bool) \<Rightarrow> 'a option \<Rightarrow> bool" where
  "succeeds P m = (case m of None \<Rightarrow> False | Some x \<Rightarrow> P x)"

named_theorems wp_simps

lemma succeeds_None [simp, wp_simps]: "succeeds P None = False"
  by (simp add: succeeds_def)

lemma succeeds_Some [simp, wp_simps]: "succeeds P (Some x) = P x"
  by (simp add: succeeds_def)

lemma succeeds_bind [simp, wp_simps]: "succeeds P (m \<bind> f) = succeeds (\<lambda>x. succeeds P (f x)) m"
  by (cases m) simp_all

lemma succeeds_assert [simp, wp_simps]: "succeeds P (c_assert b s) = (b \<and> P s)"
  by (simp add: c_assert_def)

lemma succeeds_if [wp_simps]:
  "succeeds P (if b then m else n) = ((b \<longrightarrow> succeeds P m) \<and> (\<not> b \<longrightarrow> succeeds P n))"
  by simp

lemma succeeds_map_option [simp, wp_simps]: "succeeds P (map_option f m) = succeeds (\<lambda>x. P (f x)) m"
  by (cases m) simp_all

lemma succeeds_mono: "succeeds P m \<Longrightarrow> (\<And>x. P x \<Longrightarrow> Q x) \<Longrightarrow> succeeds Q m"
  by (cases m) simp_all

lemma succeedsD: "succeeds P m \<Longrightarrow> m = Some x \<Longrightarrow> P x"
  by simp

lemma succeedsE: "succeeds P m \<Longrightarrow> (\<And>x. m = Some x \<Longrightarrow> P x \<Longrightarrow> thesis) \<Longrightarrow> thesis"
  by (cases m) simp_all

lemma succeeds_conj: "succeeds P m \<Longrightarrow> succeeds Q m \<Longrightarrow> succeeds (\<lambda>x. P x \<and> Q x) m"
  by (cases m) simp_all

end
