(* ===== verification/Bit_Ops.thy ===== *)
theory Bit_Ops
  imports Prelude
begin

text \<open>
  The bit library, \<^verbatim>\<open>src/src/lib/bit/bit.h\<close> and \<^verbatim>\<open>bit.c\<close>: single-bit operations on
  a memory chunk (a list of bytes), the portable implementations of count-trailing-zeros,
  count-leading-zeros and population count, rotations, the bit index, and the
  bit iterator that the vector clock walks its component map with.
  The portable (\<^verbatim>\<open>_NAIVE\<close>) branches are the ones modelled; the built-ins are documented to
  compute the same values.  Memory is little-endian with 64-bit iterator words, as on x86_64.
\<close>

unbundle bit_operations_syntax

section \<open>Operations\<close>

definition CHAR_BIT :: nat where
  "CHAR_BIT = 8"

subsection \<open>Bits of a memory chunk\<close>

definition bitmap_size :: "nat \<Rightarrow> nat" where
  "bitmap_size bit_count = (bit_count + (CHAR_BIT * 8 - 1)) div (CHAR_BIT * 8) * 8"

definition bit_test :: "u8 list \<Rightarrow> nat \<Rightarrow> bool" where
  "bit_test data pos =
     (let chunk = pos div CHAR_BIT; offset = pos mod CHAR_BIT
      in drop_bit offset (data ! chunk) AND 1 = 1)"

definition bit_set :: "u8 list \<Rightarrow> nat \<Rightarrow> bool \<times> u8 list" where
  "bit_set data pos =
     (let chunk = pos div CHAR_BIT; offset = pos mod CHAR_BIT;
          prev = (drop_bit offset (data ! chunk) AND 1 = 1)
      in (prev, data[chunk := data ! chunk OR push_bit offset 1]))"

definition bit_clear :: "u8 list \<Rightarrow> nat \<Rightarrow> bool \<times> u8 list" where
  "bit_clear data pos =
     (let chunk = pos div CHAR_BIT; offset = pos mod CHAR_BIT;
          prev = (drop_bit offset (data ! chunk) AND 1 = 1)
      in (prev, data[chunk := data ! chunk AND NOT (push_bit offset 1)]))"

subsection \<open>Unaligned loads and stores\<close>

primrec load_le :: "u8 list \<Rightarrow> 'a::len word" where
  "load_le [] = 0"
| "load_le (b # bs) = ucast b OR push_bit 8 (load_le bs)"

definition load_u32 :: "u8 list \<Rightarrow> u32" where
  "load_u32 p = load_le (take 4 p)"

definition load_u64 :: "u8 list \<Rightarrow> u64" where
  "load_u64 p = load_le (take 8 p)"

definition store_u32 :: "u32 \<Rightarrow> u8 list" where
  "store_u32 v = map (\<lambda>i. ucast (drop_bit (8 * i) v)) [0..<4]"

definition store_u64 :: "u64 \<Rightarrow> u8 list" where
  "store_u64 v = map (\<lambda>i. ucast (drop_bit (8 * i) v)) [0..<8]"

subsection \<open>Counting\<close>

text \<open>The loop of \<^verbatim>\<open>CTZ_NAIVE\<close>: shift right until the lowest bit is set.\<close>

function ctz_loop :: "'a::len word \<Rightarrow> nat \<Rightarrow> nat" where
  "ctz_loop x r = (if x = 0 \<or> x AND 1 \<noteq> 0 then r else ctz_loop (drop_bit 1 x) (r + 1))"
  by pat_completeness auto
termination
  by (relation "measure (\<lambda>(x, r). unat x)") (auto intro: unat_drop_bit_1_less simp del: drop_bit_Suc One_nat_def)

definition bit_ctz_u32 :: "u32 \<Rightarrow> nat" where
  "bit_ctz_u32 x = (if x = 0 then 32 else ctz_loop x 0)"

definition bit_ctz_u64 :: "u64 \<Rightarrow> nat" where
  "bit_ctz_u64 x = (if x = 0 then 64 else ctz_loop x 0)"

text \<open>The loop of \<^verbatim>\<open>CLZ_NAIVE\<close>: shift right until nothing is left.\<close>

function clz_loop :: "'a::len word \<Rightarrow> nat \<Rightarrow> nat" where
  "clz_loop x r = (if x = 0 then r else clz_loop (drop_bit 1 x) (r - 1))"
  by pat_completeness auto
termination
  by (relation "measure (\<lambda>(x, r). unat x)") (auto intro: unat_drop_bit_1_less simp del: drop_bit_Suc One_nat_def)

definition bit_clz_u32 :: "u32 \<Rightarrow> nat" where
  "bit_clz_u32 x = (if x = 0 then 32 else clz_loop x 32)"

definition bit_clz_u64 :: "u64 \<Rightarrow> nat" where
  "bit_clz_u64 x = (if x = 0 then 64 else clz_loop x 64)"

lemma unat_and_minus_one_less:
  fixes x :: "'a::len word"
  assumes "x \<noteq> 0"
  shows "unat (x AND (x - 1)) < unat x"
proof -
  have "x AND (x - 1) \<le> x - 1"
    by (rule word_and_le1)
  moreover have "unat (x - 1) < unat x"
    using assms by (simp add: unat_minus_one unat_gt_0)
  ultimately show ?thesis
    by (simp add: word_le_nat_alt)
qed

text \<open>The loop of \<^verbatim>\<open>POPCOUNT_NAIVE\<close>: drop the lowest set bit until nothing is left.\<close>

function popcount_loop :: "'a::len word \<Rightarrow> nat \<Rightarrow> nat" where
  "popcount_loop x r = (if x = 0 then r else popcount_loop (x AND (x - 1)) (r + 1))"
  by pat_completeness auto
termination
  by (relation "measure (\<lambda>(x, r). unat x)") (auto simp: unat_and_minus_one_less)

definition bit_count_u32 :: "u32 \<Rightarrow> nat" where
  "bit_count_u32 x = popcount_loop x 0"

definition bit_count_u64 :: "u64 \<Rightarrow> nat" where
  "bit_count_u64 x = popcount_loop x 0"

declare ctz_loop.simps [simp del] clz_loop.simps [simp del] popcount_loop.simps [simp del]

subsection \<open>Rotations\<close>

definition bit_rotl_u32 :: "u32 \<Rightarrow> nat \<Rightarrow> u32" where
  "bit_rotl_u32 x r = (push_bit r x OR drop_bit (32 - r) x)"

definition bit_rotr_u32 :: "u32 \<Rightarrow> nat \<Rightarrow> u32" where
  "bit_rotr_u32 x r = (drop_bit r x OR push_bit (32 - r) x)"

definition bit_rotl_u64 :: "u64 \<Rightarrow> nat \<Rightarrow> u64" where
  "bit_rotl_u64 x r = (push_bit r x OR drop_bit (64 - r) x)"

definition bit_rotr_u64 :: "u64 \<Rightarrow> nat \<Rightarrow> u64" where
  "bit_rotr_u64 x r = (drop_bit r x OR push_bit (64 - r) x)"

subsection \<open>The bit index\<close>

text \<open>
  The loop of \<^verbatim>\<open>bit_index_u32\<close> and \<^verbatim>\<open>bit_index_u64\<close> in its popcount form: \<open>count\<close>
  iterations remain, and the entries written are returned in order.  \<open>offset + prev_pos\<close> is computed in \<open>int\<close>.
\<close>

primrec bit_index_loop :: "nat \<Rightarrow> 'a::len word \<Rightarrow> nat \<Rightarrow> int \<Rightarrow> int list option" where
  "bit_index_loop 0 x prev_pos offset = Some []"
| "bit_index_loop (Suc count) x prev_pos offset =
     (let a = ctz_loop x 0; prev = prev_pos + (a + 1)
      in do {
        entry \<leftarrow> c_int (offset + int prev);
        rest \<leftarrow> bit_index_loop count (drop_bit 1 (drop_bit a x)) prev offset;
        Some (entry # rest)
      })"

definition bit_index_u32 :: "u32 \<Rightarrow> int \<Rightarrow> int list option" where
  "bit_index_u32 x offset = map_option (\<lambda>es. es @ [0]) (bit_index_loop (bit_count_u32 x) x 0 offset)"

definition bit_index_u64 :: "u64 \<Rightarrow> int \<Rightarrow> int list option" where
  "bit_index_u64 x offset = map_option (\<lambda>es. es @ [0]) (bit_index_loop (bit_count_u64 x) x 0 offset)"

subsection \<open>The bit iterator\<close>

text \<open>
  \<open>it_start\<close> is the memory chunk the iterator was initialised with; the pointers \<open>next\<close>
  and \<open>end\<close> are offsets into it.
\<close>

record bit_iterator =
  it_word :: u64
  it_word_xor :: u64
  it_word_base :: nat
  it_start :: "u8 list"
  it_next :: nat
  it_end :: nat

definition bit_iterator_init :: "u8 list \<Rightarrow> nat \<Rightarrow> bool \<Rightarrow> bit_iterator" where
  "bit_iterator_init data sz is_set =
     (if sz = 0 then
        \<lparr>it_word = 0, it_word_xor = 0, it_word_base = 0,
         it_start = data, it_next = 0, it_end = 0\<rparr>
      else
        let word_xor = (if is_set then 0 else - 1);
            e = sz mod 8;
            (word, nxt) =
              (if e = 0 then (load_u64 data, 8)
               else (load_u64 (take e data @ drop e (store_u64 word_xor)), e))
        in \<lparr>it_word = word XOR word_xor, it_word_xor = word_xor, it_word_base = 0,
            it_start = data, it_next = nxt, it_end = sz\<rparr>)"

text \<open>The loop that loads the next non-zero word; it stops with word 0 when the chunk is exhausted.\<close>

function bit_iterator_refill :: "bit_iterator \<Rightarrow> bit_iterator" where
  "bit_iterator_refill it =
     (if it_word it \<noteq> 0 \<or> it_next it \<ge> it_end it then it
      else bit_iterator_refill
             (it\<lparr>it_word := load_u64 (drop (it_next it) (it_start it)) XOR it_word_xor it,
                 it_word_base := it_next it * CHAR_BIT,
                 it_next := it_next it + 8\<rparr>))"
  by pat_completeness auto
termination
  by (relation "measure (\<lambda>it. it_end it - it_next it)") auto

declare bit_iterator_refill.simps [simp del]

definition bit_iterator_next :: "bit_iterator \<Rightarrow> nat \<times> bit_iterator" where
  "bit_iterator_next it =
     (let it' = bit_iterator_refill it
      in if it_word it' = 0 then (SIZE_MAX, it')
         else (it_word_base it' + bit_ctz_u64 (it_word it'),
               it'\<lparr>it_word := it_word it' AND (it_word it' - 1)\<rparr>))"

lemma bit_iterator_refill_progress:
  "it_end (bit_iterator_refill it) = it_end it \<and>
   (bit_iterator_refill it = it \<or>
    it_end it - it_next (bit_iterator_refill it) < it_end it - it_next it)"
proof (induction it rule: bit_iterator_refill.induct)
  case (1 it)
  show ?case
  proof (cases "it_word it \<noteq> 0 \<or> it_next it \<ge> it_end it")
    case True
    then show ?thesis by (simp add: bit_iterator_refill.simps[of it])
  next
    case False
    then show ?thesis using "1.IH"[OF False] by (auto simp: bit_iterator_refill.simps[of it])
  qed
qed

text \<open>
  A caller's loop over the iterator, \<^verbatim>\<open>while ((pos = bit_iterator_next(&it)) != SIZE_MAX)\<close>,
  visits the positions of \<open>bit_iterator_drain it\<close> in order.
\<close>

function bit_iterator_drain :: "bit_iterator \<Rightarrow> nat list" where
  "bit_iterator_drain it =
     (let (pos, it') = bit_iterator_next it
      in if pos = SIZE_MAX then [] else pos # bit_iterator_drain it')"
  by pat_completeness auto
termination
proof (relation "measures [\<lambda>it. it_end it - it_next it, \<lambda>it. unat (it_word it)]", simp)
  fix it x pos it'
  assume "x = bit_iterator_next it" "(pos, it') = x" "pos \<noteq> SIZE_MAX"
  then have a: "(pos, it') = bit_iterator_next it" "pos \<noteq> SIZE_MAX" by simp_all
  let ?r = "bit_iterator_refill it"
  have it': "it_word ?r \<noteq> 0" "it' = ?r\<lparr>it_word := it_word ?r AND (it_word ?r - 1)\<rparr>"
    using a by (auto simp: bit_iterator_next_def Let_def split: if_splits)
  show "(it', it) \<in> measures [\<lambda>it. it_end it - it_next it, \<lambda>it. unat (it_word it)]"
    using bit_iterator_refill_progress[of it] it' unat_and_minus_one_less[of "it_word ?r"] by auto
qed

declare bit_iterator_drain.simps [simp del]

section \<open>Lemmas\<close>

subsection \<open>The set bits of a word\<close>

lemma filter_upt_first:
  assumes "k < n" and "P k" and "\<And>j. j < k \<Longrightarrow> \<not> P j"
  shows "filter P [0..<n] = k # filter (\<lambda>i. P i \<and> i \<noteq> k) [0..<n]"
proof -
  have split: "[0..<n] = [0..<k] @ k # [Suc k..<n]"
    using assms(1) upt_add_eq_append[of 0 k "n - k"] by (simp add: upt_conv_Cons)
  have none: "filter Q [0..<k] = []" if "\<And>j. Q j \<Longrightarrow> P j" for Q
    using assms(3) that by (fastforce simp: filter_empty_conv)
  have rest: "filter (\<lambda>i. P i \<and> i \<noteq> k) [Suc k..<n] = filter P [Suc k..<n]"
    by (rule filter_cong) auto
  show ?thesis
    unfolding split using assms(2) none[of P] none[of "\<lambda>i. P i \<and> i \<noteq> k"] rest by simp
qed

definition word_bits :: "'a::len word \<Rightarrow> nat list" where
  "word_bits w = filter (bit w) [0..<LENGTH('a)]"

lemma bit_nat_and_minus_one:
  fixes n :: nat
  assumes "0 < n"
  shows "bit (n AND (n - 1)) k \<longleftrightarrow> bit n k \<and> (\<exists>j<k. bit n j)"
  using assms
proof (induction n arbitrary: k rule: nat_bit_induct)
  case zero
  then show ?case by simp
next
  case (even m)
  have eq: "2 * m - 1 = Suc (2 * (m - 1))" using even.hyps by simp
  show ?case
  proof (cases k)
    case 0
    then show ?thesis by (simp add: bit_0 even_and_iff)
  next
    case (Suc i)
    have "(\<exists>j<Suc i. bit (2 * m) j) \<longleftrightarrow> (\<exists>j<i. bit m j)"
      by (simp add: Ex_less_Suc2 bit_0 bit_Suc)
    moreover have "bit (2 * m - 1) (Suc i) = bit (m - 1) i" and "bit (2 * m) (Suc i) = bit m i"
      unfolding eq by (simp_all add: bit_Suc)
    ultimately show ?thesis
      using even.IH[of i] even.hyps Suc by (simp only: bit_and_iff)
  qed
next
  case (odd m)
  have b: "bit (Suc (2 * m)) 0" "\<not> bit (2 * m) 0"
      "\<And>i. bit (Suc (2 * m)) (Suc i) = bit m i" "\<And>i. bit (2 * m) (Suc i) = bit m i"
    by (simp_all add: bit_0 bit_Suc)
  have "Suc (2 * m) - 1 = 2 * m" by simp
  then show ?case
    using b by (cases k) (auto simp only: bit_and_iff)
qed

lemma ctz_loop_first:
  "x \<noteq> 0 \<Longrightarrow> \<exists>k. ctz_loop x r = r + k \<and> bit x k \<and> (\<forall>j<k. \<not> bit x j)"
proof (induction x r rule: ctz_loop.induct)
  case (1 x r)
  show ?case
  proof (cases "x AND 1 = 0")
    case False
    then have "bit x 0" by (simp add: and_one_eq bit_0 odd_iff_mod_2_eq_one)
    with False show ?thesis by (simp add: ctz_loop.simps[of x r])
  next
    case True
    then have nb: "\<not> bit x 0" by (simp add: and_one_eq bit_0 even_iff_mod_2_eq_zero)
    have nz: "drop_bit 1 x \<noteq> 0"
    proof
      assume z: "drop_bit 1 x = 0"
      have "\<not> bit x n" for n
      proof (cases n)
        case (Suc i)
        have "bit (drop_bit 1 x) i = bit x (Suc i)" by (simp only: bit_drop_bit_eq comp_apply plus_1_eq_Suc)
        then show ?thesis using z Suc by simp
      qed (simp add: nb)
      then have "x = 0" by (intro bit_eqI) simp
      then show False using \<open>x \<noteq> 0\<close> by simp
    qed
    obtain k where k: "ctz_loop (drop_bit 1 x) (r + 1) = r + 1 + k" "bit (drop_bit 1 x) k"
        "\<forall>j<k. \<not> bit (drop_bit 1 x) j"
      using 1 True nz by auto
    have "ctz_loop x r = r + Suc k"
      using True \<open>x \<noteq> 0\<close> k(1) by (simp add: ctz_loop.simps[of x r])
    moreover have "bit x (Suc k)" using k(2) by (simp add: bit_simps)
    moreover have "\<forall>j<Suc k. \<not> bit x j"
    proof (intro allI impI)
      fix j assume "j < Suc k"
      then show "\<not> bit x j"
        using nb k(3) by (cases j) (auto simp: bit_simps)
    qed
    ultimately show ?thesis by blast
  qed
qed

lemma bit_word_and_minus_one:
  fixes x :: "'a::len word"
  assumes "x \<noteq> 0"
  shows "bit (x AND (x - 1)) k \<longleftrightarrow> bit x k \<and> (\<exists>j<k. bit x j)"
proof -
  have "unat (x AND (x - 1)) = (unat x AND (unat x - 1))"
    using assms by (simp add: unsigned_and_eq unat_minus_one)
  then have "bit (unat (x AND (x - 1))) k \<longleftrightarrow> bit (unat x) k \<and> (\<exists>j<k. bit (unat x) j)"
    using bit_nat_and_minus_one[of "unat x" k] assms by (simp add: unat_gt_0)
  then show ?thesis
    by (auto simp: bit_unsigned_iff dest: bit_imp_le_length)
qed

lemma word_bits_0 [simp]: "word_bits 0 = []"
  by (simp add: word_bits_def filter_empty_conv)

lemma set_word_bits: "set (word_bits (w :: 'a::len word)) = {i. bit w i}"
  by (auto simp: word_bits_def dest: bit_imp_le_length)

lemma sorted_word_bits: "sorted_wrt (<) (word_bits w)"
  unfolding word_bits_def by (rule sorted_wrt_filter) (simp add: sorted_wrt_upt)

lemma word_bits_step:
  assumes "x \<noteq> 0"
  shows "word_bits x = ctz_loop x 0 # word_bits (x AND (x - 1))"
proof -
  obtain k where k: "ctz_loop x 0 = k" "bit x k" "\<forall>j<k. \<not> bit x j"
    using ctz_loop_first[OF assms, of 0] by auto
  have "bit (x AND (x - 1)) i \<longleftrightarrow> bit x i \<and> i \<noteq> k" for i
    using bit_word_and_minus_one[OF assms, of i] k by (metis nat_neq_iff)
  then show ?thesis
    using filter_upt_first[of k "LENGTH('a)" "bit x"] k
    by (simp add: word_bits_def bit_imp_le_length cong: filter_cong)
qed

lemma popcount_loop_0 [simp]: "popcount_loop 0 r = r"
  by (simp add: popcount_loop.simps)

lemma clz_loop_0 [simp]: "clz_loop 0 r = r"
  by (simp add: clz_loop.simps)

lemma popcount_loop_bits: "popcount_loop x r = r + length (word_bits x)"
proof (induction x r rule: popcount_loop.induct)
  case (1 x r)
  show ?case
    using 1 by (cases "x = 0") (simp_all add: popcount_loop.simps[of x r] word_bits_step[of x])
qed

lemma clz_loop_bound:
  "unat x < 2 ^ n \<Longrightarrow> n \<le> r \<Longrightarrow> \<exists>k. clz_loop x r = r - k \<and> k \<le> n \<and> unat x < 2 ^ k \<and> (x \<noteq> 0 \<longrightarrow> 0 < k \<and> 2 ^ (k - 1) \<le> unat x)"
proof (induction x r arbitrary: n rule: clz_loop.induct)
  case (1 x r)
  show ?case
  proof (cases "x = 0")
    case True
    then show ?thesis by (intro exI[of _ 0]) (simp add: clz_loop.simps[of x r])
  next
    case False
    obtain m where n: "n = Suc m"
      using 1(2) False by (cases n) (auto simp: unat_eq_zero)
    have half: "unat (drop_bit 1 x) = unat x div 2"
      using unat_drop_bit_eq[of 1 x] by (simp add: drop_bit_eq_div)
    have p: "unat x div 2 < 2 ^ m" "m \<le> r - 1"
      using 1(2,3) n by (simp_all add: less_mult_imp_div_less mult.commute)
    obtain k where k: "clz_loop (drop_bit 1 x) (r - 1) = r - 1 - k" "k \<le> m" "unat x div 2 < 2 ^ k"
        "drop_bit 1 x \<noteq> 0 \<longrightarrow> 0 < k \<and> 2 ^ (k - 1) \<le> unat x div 2"
      using 1(1)[OF False, of m, unfolded half] p by (auto simp: half)
    have lo: "2 ^ k \<le> unat x"
    proof (cases "drop_bit 1 x = 0")
      case True
      then have "unat x div 2 = 0" using half by simp
      then have "clz_loop (drop_bit 1 x) (r - 1) = r - 1" using True by (simp add: clz_loop.simps[of 0])
      then have "k = 0" using k(1,2) n 1(3) by simp
      then show ?thesis using False by (simp add: unat_gt_0 Suc_le_eq)
    next
      case nz: False
      then have "0 < k" "2 ^ (k - 1) \<le> unat x div 2" using k(4) by auto
      then show ?thesis by (cases k) auto
    qed
    have "unat x < 2 ^ Suc k" using k(3) by simp
    then show ?thesis
      using False k(1,2) n lo by (intro exI[of _ "Suc k"]) (simp add: clz_loop.simps[of x r])
  qed
qed

subsection \<open>Memory as bits\<close>

lemma bit_load_le:
  "bit (load_le bs :: 'a::len word) n \<longleftrightarrow>
     n < LENGTH('a) \<and> n div 8 < length bs \<and> bit (bs ! (n div 8)) (n mod 8)"
proof (induction bs arbitrary: n)
  case Nil
  then show ?case by simp
next
  case (Cons b bs)
  show ?case
  proof (cases "n < 8")
    case True
    then show ?thesis by (auto simp: bit_or_iff bit_push_bit_iff bit_unsigned_iff)
  next
    case False
    then have n8: "n div 8 = Suc ((n - 8) div 8)" "n mod 8 = (n - 8) mod 8"
      by (simp_all add: le_div_geq le_mod_geq)
    have "\<not> bit b n" using False by (auto dest: bit_imp_le_length)
    then show ?thesis
      using False n8 Cons.IH[of "n - 8"]
      by (auto simp: bit_or_iff bit_push_bit_iff bit_unsigned_iff)
  qed
qed

lemma bit_test_iff:
  "pos div 8 < length data \<Longrightarrow> bit_test data pos \<longleftrightarrow> bit (data ! (pos div 8)) (pos mod 8)"
  by (simp add: bit_test_def CHAR_BIT_def Let_def and_one_eq bit_iff_odd_drop_bit mod_2_eq_odd)

definition iter_pred :: "bit_iterator \<Rightarrow> nat \<Rightarrow> bool" where
  "iter_pred it i \<longleftrightarrow> (bit (it_start it ! (i div 8)) (i mod 8) \<noteq> bit (it_word_xor it) 0)"

definition iter_wf :: "bit_iterator \<Rightarrow> bool" where
  "iter_wf it \<longleftrightarrow> it_end it = length (it_start it) \<and> it_next it \<le> it_end it \<and>
     8 dvd (it_end it - it_next it) \<and> it_word_xor it \<in> {0, - 1} \<and> 8 * it_end it < SIZE_MAX"

definition iter_rest :: "bit_iterator \<Rightarrow> nat list" where
  "iter_rest it = map ((+) (it_word_base it)) (word_bits (it_word it)) @
     filter (iter_pred it) [8 * it_next it..<8 * it_end it]"

lemma upt_shift: "[a..<a + b] = map ((+) a) [0..<b]"
  by (induction b) simp_all

lemma load_u64_xor_bits:
  fixes data :: "u8 list"
  assumes "n + 8 \<le> length data" and "x \<in> {0, - 1}"
  shows "map ((+) (8 * n)) (word_bits (load_u64 (drop n data) XOR x)) =
    filter (\<lambda>i. bit (data ! (i div 8)) (i mod 8) \<noteq> bit x 0) [8 * n..<8 * n + 64]"
proof -
  have b: "bit (load_u64 (drop n data) XOR x) i \<longleftrightarrow>
      (bit (data ! ((8 * n + i) div 8)) ((8 * n + i) mod 8) \<noteq> bit x 0)" if "i < 64" for i
  proof -
    have "i div 8 < 8" using that by simp
    moreover have "(8 * n + i) div 8 = n + i div 8" by simp
    ultimately show ?thesis
      using assms that
      by (auto simp: load_u64_def bit_xor_iff bit_load_le take_drop bit_0 nth_drop)
  qed
  have "[8 * n..<8 * n + 64] = map ((+) (8 * n)) [0..<64]"
    by (rule upt_shift)
  then show ?thesis
    using b by (auto simp: word_bits_def filter_map intro!: filter_cong)
qed

lemma iter_wf_step:
  assumes "iter_wf it" and "it_next it < it_end it"
  defines "it' \<equiv> it\<lparr>it_word := load_u64 (drop (it_next it) (it_start it)) XOR it_word_xor it,
                 it_word_base := it_next it * CHAR_BIT,
                 it_next := it_next it + 8\<rparr>"
  shows "iter_wf it'"
    and "iter_rest it' = filter (iter_pred it) [8 * it_next it..<8 * it_end it]"
proof -
  have le: "it_next it + 8 \<le> it_end it"
    using assms(1,2) by (auto simp: iter_wf_def dest!: dvd_imp_le)
  have dvd: "8 dvd (it_end it - (it_next it + 8))"
    using assms(1) dvd_diff_nat[of 8 "it_end it - it_next it" 8] by (auto simp: iter_wf_def)
  show "iter_wf it'"
    using assms(1) le dvd by (simp add: it'_def iter_wf_def)
  have "iter_pred it' = iter_pred it"
    by (simp add: it'_def iter_pred_def fun_eq_iff)
  moreover have "map ((+) (8 * it_next it))
      (word_bits (load_u64 (drop (it_next it) (it_start it)) XOR it_word_xor it)) =
    filter (iter_pred it) [8 * it_next it..<8 * it_next it + 64]"
    using load_u64_xor_bits[of "it_next it" "it_start it" "it_word_xor it"] assms(1) le
    by (simp add: iter_pred_def iter_wf_def cong: filter_cong)
  moreover have "[8 * it_next it..<8 * it_end it] =
      [8 * it_next it..<8 * it_next it + 64] @ [8 * it_next it + 64..<8 * it_end it]"
    using le upt_add_eq_append[of "8 * it_next it" "8 * it_next it + 64" "8 * it_end it - (8 * it_next it + 64)"]
    by simp
  ultimately show "iter_rest it' = filter (iter_pred it) [8 * it_next it..<8 * it_end it]"
    by (simp add: it'_def iter_rest_def CHAR_BIT_def mult.commute)
qed

lemma bit_iterator_refill_rest:
  "iter_wf it \<Longrightarrow> iter_wf (bit_iterator_refill it) \<and>
     iter_rest (bit_iterator_refill it) = iter_rest it \<and>
     (it_word (bit_iterator_refill it) = 0 \<longrightarrow> iter_rest it = [])"
proof (induction it rule: bit_iterator_refill.induct)
  case (1 it)
  show ?case
  proof (cases "it_word it \<noteq> 0 \<or> it_next it \<ge> it_end it")
    case True
    then show ?thesis
      using "1.prems" by (auto simp: bit_iterator_refill.simps[of it] iter_rest_def)
  next
    case False
    then have "iter_rest it = filter (iter_pred it) [8 * it_next it..<8 * it_end it]"
      by (simp add: iter_rest_def)
    then show ?thesis
      using "1.IH"[OF False iter_wf_step(1)] "1.prems" False iter_wf_step(2)[of it]
      by (simp add: bit_iterator_refill.simps[of it])
  qed
qed

lemma bit_iterator_next_rest:
  assumes "iter_wf it"
  shows "iter_wf (snd (bit_iterator_next it))"
    and "iter_rest it = [] \<Longrightarrow> fst (bit_iterator_next it) = SIZE_MAX"
    and "iter_rest it = p # ps \<Longrightarrow> fst (bit_iterator_next it) = p \<and> iter_rest (snd (bit_iterator_next it)) = ps"
proof -
  let ?r = "bit_iterator_refill it"
  have r: "iter_wf ?r" "iter_rest ?r = iter_rest it" "it_word ?r = 0 \<Longrightarrow> iter_rest it = []"
    using bit_iterator_refill_rest[OF assms] by auto
  have upd: "iter_pred (?r\<lparr>it_word := w\<rparr>) = iter_pred ?r" for w
    by (simp add: iter_pred_def fun_eq_iff)
  show "iter_wf (snd (bit_iterator_next it))"
    using r(1) by (auto simp: bit_iterator_next_def Let_def iter_wf_def)
  have step: "it_word ?r \<noteq> 0 \<Longrightarrow> iter_rest ?r =
      (it_word_base ?r + bit_ctz_u64 (it_word ?r)) # iter_rest (?r\<lparr>it_word := it_word ?r AND (it_word ?r - 1)\<rparr>)"
    by (simp add: iter_rest_def word_bits_step[of "it_word ?r"] bit_ctz_u64_def upd)
  show "iter_rest it = [] \<Longrightarrow> fst (bit_iterator_next it) = SIZE_MAX"
    using step r(2) by (auto simp: bit_iterator_next_def Let_def)
  show "iter_rest it = p # ps \<Longrightarrow>
      fst (bit_iterator_next it) = p \<and> iter_rest (snd (bit_iterator_next it)) = ps"
    using step r(2,3) by (auto simp: bit_iterator_next_def Let_def)
qed

lemma iter_rest_bound:
  assumes "iter_wf it" and "it_word_base it + 64 \<le> SIZE_MAX"
  shows "SIZE_MAX \<notin> set (iter_rest it)"
  using assms by (auto simp: iter_rest_def iter_wf_def set_word_bits dest!: bit_imp_le_length)

lemma bit_iterator_drain_rest:
  "iter_wf it \<Longrightarrow> SIZE_MAX \<notin> set (iter_rest it) \<Longrightarrow> bit_iterator_drain it = iter_rest it"
proof (induction "iter_rest it" arbitrary: it)
  case Nil
  then show ?case
    using bit_iterator_next_rest(2)[of it] by (simp add: bit_iterator_drain.simps[of it] split_beta Let_def)
next
  case (Cons p ps)
  then show ?case
    using bit_iterator_next_rest(1,3)[of it]
    by (auto simp: bit_iterator_drain.simps[of it] split_beta Let_def) (metis list.set_intros)+
qed

lemma bit_iterator_init_wf:
  assumes "length data = sz" and "8 * sz < SIZE_MAX"
  shows "iter_wf (bit_iterator_init data sz is_set)"
proof -
  have "8 dvd sz - sz mod 8" by (rule dvd_minus_mod)
  then show ?thesis
    using assms by (auto simp: bit_iterator_init_def iter_wf_def Let_def dvd_diff_nat mod_eq_0_iff_dvd dest: dvd_imp_le)
qed

lemma bit_iterator_init_rest:
  assumes "length data = sz"
  shows "iter_rest (bit_iterator_init data sz is_set) =
    filter (\<lambda>i. bit_test data i = is_set) [0..<8 * sz]"
proof (cases "sz = 0")
  case True
  then show ?thesis by (simp add: bit_iterator_init_def iter_rest_def)
next
  case False
  let ?it = "bit_iterator_init data sz is_set"
  let ?x = "if is_set then 0 else - 1 :: u64"
  let ?P = "\<lambda>i. bit_test data i = is_set"
  define e where "e = sz mod 8"
  define n where "n = (if e = 0 then 8 else e)"
  have n: "n \<le> sz" "it_next ?it = n" "it_end ?it = sz" "it_word_base ?it = 0" "n \<le> 8"
    using False by (auto simp: n_def e_def bit_iterator_init_def Let_def mod_eq_0_iff_dvd dest: dvd_imp_le less_imp_le)
  have P: "iter_pred ?it i = ?P i" if "i < 8 * sz" for i
    using that False assms by (auto simp: iter_pred_def bit_test_iff bit_iterator_init_def Let_def less_mult_imp_div_less mult.commute bit_0)
  define D where "D = (if e = 0 then data else take e data @ drop e (store_u64 ?x))"
  have word: "it_word ?it = load_u64 D XOR ?x"
    using False by (simp add: bit_iterator_init_def Let_def D_def e_def)
  have D: "8 \<le> length D" "\<And>j. j < n \<Longrightarrow> D ! j = data ! j" "\<And>j. n \<le> j \<Longrightarrow> j < 8 \<Longrightarrow> D ! j = ucast (drop_bit (8 * j) ?x)"
    using n(1) assms by (auto simp: D_def n_def nth_append store_u64_def)
  have x: "bit ?x i = (\<not> is_set)" if "i < 64" for i
    using that by simp
  have w: "bit (it_word ?it) i \<longleftrightarrow> i < 8 * n \<and> ?P i" if "i < 64" for i
  proof -
    have i8: "i div 8 < 8" using that by simp
    have bw: "bit (it_word ?it) i \<longleftrightarrow> (bit (D ! (i div 8)) (i mod 8) \<noteq> (\<not> is_set))"
      using that i8 D(1) x[OF that] by (simp add: word bit_xor_iff load_u64_def bit_load_le)
    show ?thesis
    proof (cases "i div 8 < n")
      case True
      then have "i < 8 * n" "i div 8 < length data"
        using n(1) assms by (auto simp: div_less_iff_less_mult mult.commute)
      then show ?thesis using bw D(2)[OF True] by (auto simp: bit_test_iff)
    next
      case f: False
      then have "\<not> i < 8 * n" by (auto simp: div_less_iff_less_mult mult.commute)
      moreover have "bit (ucast (drop_bit (8 * (i div 8)) ?x) :: u8) (i mod 8) = bit ?x i"
        by (simp only: bit_ucast_iff bit_drop_bit_eq comp_apply mult_div_mod_eq) simp
      ultimately show ?thesis
        using bw D(3)[of "i div 8"] f i8 x[OF that] by simp
    qed
  qed
  have "word_bits (it_word ?it) = filter ?P [0..<8 * n]"
  proof -
    have "word_bits (it_word ?it) = filter (\<lambda>i. i < 8 * n \<and> ?P i) [0..<64]"
      using w by (auto simp: word_bits_def intro!: filter_cong)
    also have "[0..<64] = [0..<8 * n] @ [8 * n..<64]"
      using n(5) upt_add_eq_append[of 0 "8 * n" "64 - 8 * n"] by simp
    finally show ?thesis
      by (auto simp: filter_empty_conv intro!: filter_cong)
  qed
  moreover have "[0..<8 * sz] = [0..<8 * n] @ [8 * n..<8 * sz]"
    using n(1) upt_add_eq_append[of 0 "8 * n" "8 * sz - 8 * n"] by simp
  ultimately show ?thesis
    using P n by (auto simp: iter_rest_def map_idI intro!: filter_cong)
qed

lemma bit_iterator_drain_init:
  assumes "length data = sz" and "8 * sz < SIZE_MAX"
  shows "bit_iterator_drain (bit_iterator_init data sz is_set) =
    filter (\<lambda>i. bit_test data i = is_set) [0..<8 * sz]"
proof -
  have "it_word_base (bit_iterator_init data sz is_set) = 0"
    by (auto simp: bit_iterator_init_def Let_def)
  then have "SIZE_MAX \<notin> set (iter_rest (bit_iterator_init data sz is_set))"
    using iter_rest_bound[OF bit_iterator_init_wf[OF assms]] by (simp add: SIZE_MAX_def)
  then show ?thesis
    using bit_iterator_drain_rest[OF bit_iterator_init_wf[OF assms]] bit_iterator_init_rest[OF assms(1)] by metis
qed

lemma length_store_u32 [simp]: "length (store_u32 v) = 4"
  by (simp add: store_u32_def)

lemma length_store_u64 [simp]: "length (store_u64 v) = 8"
  by (simp add: store_u64_def)

lemma bit_store_u32: "i < 32 \<Longrightarrow> bit_test (store_u32 v) i = bit v i"
  by (simp add: bit_test_iff store_u32_def less_mult_imp_div_less bit_ucast_iff bit_drop_bit_eq)

lemma load_store_u32: "load_u32 (store_u32 v) = v"
  by (rule bit_word_eqI) (auto simp: load_u32_def bit_load_le bit_test_iff[symmetric] bit_store_u32)

lemma load_store_u64: "load_u64 (store_u64 v) = v"
  by (rule bit_word_eqI) (auto simp: load_u64_def bit_load_le store_u64_def bit_ucast_iff bit_drop_bit_eq)

lemma bit_iterator_drain_u32: "bit_iterator_drain (bit_iterator_init (store_u32 m) 4 True) = word_bits m"
  using bit_iterator_drain_init[of "store_u32 m" 4 True]
  by (auto simp: SIZE_MAX_def word_bits_def bit_store_u32 intro!: filter_cong)

lemma bit_set_spec:
  assumes "pos < 8 * length data"
  shows "fst (bit_set data pos) = bit_test data pos"
    and "length (snd (bit_set data pos)) = length data"
    and "q < 8 * length data \<Longrightarrow> bit_test (snd (bit_set data pos)) q = (q = pos \<or> bit_test data q)"
proof -
  have lt: "pos div 8 < length data" using assms by (simp add: less_mult_imp_div_less mult.commute)
  have ne: "q \<noteq> pos" if "q div 8 \<noteq> pos div 8 \<or> q mod 8 \<noteq> pos mod 8" using that by auto
  have eq: "q = pos" if "q div 8 = pos div 8" "q mod 8 = pos mod 8"
    using that by (metis div_mult_mod_eq)
  show "fst (bit_set data pos) = bit_test data pos" "length (snd (bit_set data pos)) = length data"
    by (simp_all add: bit_set_def bit_test_def Let_def)
  assume "q < 8 * length data"
  then have "q div 8 < length data" by (simp add: less_mult_imp_div_less mult.commute)
  then show "bit_test (snd (bit_set data pos)) q = (q = pos \<or> bit_test data q)"
    using lt eq by (auto simp: bit_test_iff bit_set_def Let_def CHAR_BIT_def nth_list_update bit_or_iff bit_exp_iff)
qed

lemma bit_clear_spec:
  assumes "pos < 8 * length data"
  shows "fst (bit_clear data pos) = bit_test data pos"
    and "length (snd (bit_clear data pos)) = length data"
    and "q < 8 * length data \<Longrightarrow> bit_test (snd (bit_clear data pos)) q = (q \<noteq> pos \<and> bit_test data q)"
proof -
  have lt: "pos div 8 < length data" using assms by (simp add: less_mult_imp_div_less mult.commute)
  have eq: "q = pos" if "q div 8 = pos div 8" "q mod 8 = pos mod 8"
    using that by (metis div_mult_mod_eq)
  show "fst (bit_clear data pos) = bit_test data pos" "length (snd (bit_clear data pos)) = length data"
    by (simp_all add: bit_clear_def bit_test_def Let_def)
  assume "q < 8 * length data"
  then have "q div 8 < length data" by (simp add: less_mult_imp_div_less mult.commute)
  then show "bit_test (snd (bit_clear data pos)) q = (q \<noteq> pos \<and> bit_test data q)"
    using lt eq by (auto simp: bit_test_iff bit_clear_def Let_def CHAR_BIT_def nth_list_update bit_and_iff bit_not_iff bit_exp_iff)
qed

lemma bit_set_store_u32:
  assumes "pos < 32"
  shows "bit_set (store_u32 v) pos = (bit v pos, store_u32 (v OR push_bit pos 1))"
proof -
  have "snd (bit_set (store_u32 v) pos) = store_u32 (v OR push_bit pos 1)"
  proof (rule nth_equalityI)
    fix i assume i: "i < length (snd (bit_set (store_u32 v) pos))"
    show "snd (bit_set (store_u32 v) pos) ! i = store_u32 (v OR push_bit pos 1) ! i"
    proof (rule bit_word_eqI)
      fix n assume n: "n < LENGTH(8)"
      have "8 * i + n < 32" "(8 * i + n) div 8 = i" "(8 * i + n) mod 8 = n"
        using i n assms by (simp_all add: bit_set_spec)
      then show "bit (snd (bit_set (store_u32 v) pos) ! i) n = bit (store_u32 (v OR push_bit pos 1) ! i) n"
        using bit_set_spec(3)[of pos "store_u32 v" "8 * i + n"] assms i
          bit_test_iff[of "8 * i + n" "snd (bit_set (store_u32 v) pos)"]
          bit_test_iff[of "8 * i + n" "store_u32 (v OR push_bit pos 1)"]
        by (auto simp: bit_store_u32 bit_or_iff bit_exp_iff bit_set_spec)
    qed
  qed (use assms in \<open>simp add: bit_set_spec\<close>)
  then show ?thesis
    using assms by (simp add: prod_eq_iff bit_set_spec bit_store_u32)
qed

lemma word_bits_eqI:
  "sorted_wrt (<) ps \<Longrightarrow> set ps = {i. bit w i} \<Longrightarrow> word_bits w = ps"
  using strict_sorted_equal[OF _ sorted_word_bits, of ps w] by (simp add: set_word_bits)

lemma bit_index_loop_bits:
  "c = length (word_bits x) \<Longrightarrow> INT_MIN \<le> off \<Longrightarrow> \<forall>k\<in>set (word_bits x). off + int (prev + k + 1) \<le> INT_MAX \<Longrightarrow>
     bit_index_loop c x prev off = Some (map (\<lambda>k. off + int (prev + k + 1)) (word_bits x))"
proof (induction c arbitrary: x prev)
  case 0
  then show ?case by simp
next
  case (Suc c)
  have nz: "x \<noteq> 0" using Suc.prems by auto
  define a where "a = ctz_loop x 0"
  define rest where "rest = word_bits (x AND (x - 1))"
  have wb: "word_bits x = a # rest" using word_bits_step[OF nz] by (simp add: a_def rest_def)
  then have gt: "\<forall>k\<in>set rest. a < k" "sorted_wrt (<) rest" using sorted_word_bits[of x] by auto
  have ba: "\<And>i. bit x i \<longleftrightarrow> i = a \<or> i \<in> set rest"
    using wb set_word_bits[of x] by auto
  have "word_bits (drop_bit 1 (drop_bit a x)) = map (\<lambda>k. k - (a + 1)) rest"
  proof (rule word_bits_eqI)
    show "sorted_wrt (<) (map (\<lambda>k. k - (a + 1)) rest)"
      using gt by (auto simp: sorted_wrt_map intro!: sorted_wrt_mono_rel[of rest "(<)"] diff_less_mono)
    show "set (map (\<lambda>k. k - (a + 1)) rest) = {i. bit (drop_bit 1 (drop_bit a x)) i}"
      using gt(1) ba by (force simp: bit_drop_bit_eq image_iff)
  qed
  moreover have shift: "off + int (prev + (a + 1) + (k - (a + 1)) + 1) = off + int (prev + k + 1)" if "k \<in> set rest" for k
    using gt(1) that by fastforce
  moreover have "map (\<lambda>k. off + int (prev + (a + 1) + k + 1)) (map (\<lambda>k. k - (a + 1)) rest) =
      map (\<lambda>k. off + int (prev + k + 1)) rest"
    unfolding map_map comp_def by (rule map_cong[OF refl shift])
  moreover have "\<forall>k\<in>set rest. off + int (prev + (a + 1) + (k - (a + 1)) + 1) \<le> INT_MAX"
    using shift Suc.prems(3) wb by (metis list.set_intros(2))
  ultimately have "bit_index_loop c (drop_bit 1 (drop_bit a x)) (prev + (a + 1)) off =
      Some (map (\<lambda>k. off + int (prev + k + 1)) rest)"
    using Suc.IH[of "drop_bit 1 (drop_bit a x)" "prev + (a + 1)"] Suc.prems(1,2) wb by simp
  then show ?case
    using Suc.prems wb by (simp add: Let_def a_def[symmetric] c_int_def)
qed

lemma bit_rotr_rotl_u32:
  assumes "0 < r" and "r < 32"
  shows "bit_rotr_u32 (bit_rotl_u32 x r) r = x"
proof (rule bit_word_eqI)
  fix n assume "n < LENGTH(32)"
  then show "bit (bit_rotr_u32 (bit_rotl_u32 x r) r) n = bit x n"
    using assms by (cases "r + n < 32")
      (auto simp: bit_rotr_u32_def bit_rotl_u32_def bit_or_iff bit_push_bit_iff bit_drop_bit_eq dest: bit_imp_le_length)
qed

lemma bit_rotr_rotl_u64:
  assumes "0 < r" and "r < 64"
  shows "bit_rotr_u64 (bit_rotl_u64 x r) r = x"
proof (rule bit_word_eqI)
  fix n assume "n < LENGTH(64)"
  then show "bit (bit_rotr_u64 (bit_rotl_u64 x r) r) n = bit x n"
    using assms by (cases "r + n < 64")
      (auto simp: bit_rotr_u64_def bit_rotl_u64_def bit_or_iff bit_push_bit_iff bit_drop_bit_eq dest: bit_imp_le_length)
qed

section \<open>Properties\<close>

text \<open>
  C31. The bit iterator.  On a chunk of any number of bytes, stepping the iterator until it is exhausted
  yields exactly the positions whose bit has the wanted value, in ascending order and each once; the
  word-at-a-time scan with its unaligned tail misses none.
\<close>

theorem bit_iterator_visits:
  assumes "length data = sz" and "8 * sz < SIZE_MAX"
  shows "set (bit_iterator_drain (bit_iterator_init data sz is_set)) = {i. i < 8 * sz \<and> bit_test data i = is_set} \<and>
    sorted_wrt (<) (bit_iterator_drain (bit_iterator_init data sz is_set))"
  unfolding bit_iterator_drain_init[OF assms] by (auto simp: sorted_wrt_filter)

theorem bit_iterator_visits_witness:
  "set (bit_iterator_drain (bit_iterator_init [5, 0, 1] 3 True)) = {0, 2, 16}"
proof -
  have "filter (\<lambda>i. bit_test [5, 0, 1] i = True) [0..<24] = [0, 2, 16]" by code_simp
  moreover have "{i. i < 24 \<and> bit_test [5, 0, 1] i = True} = set (filter (\<lambda>i. bit_test [5, 0, 1] i = True) [0..<24])"
    by auto
  ultimately have "{i. i < 24 \<and> bit_test [5, 0, 1] i = True} = {0, 2, 16}" by simp
  then show ?thesis
    using bit_iterator_visits[of "[5, 0, 1]" 3 True] by (simp add: SIZE_MAX_def)
qed

text \<open>
  Away from the ends of \<open>int\<close>, the bit index of a word lists its set bits in ascending order, each as the
  offset plus the position counted from one, and is terminated by a zero.
\<close>

lemma bit_index_u64_eq:
  assumes "INT_MIN \<le> offset" and "offset + 64 \<le> INT_MAX"
  shows "bit_index_u64 x offset = Some (map (\<lambda>k. offset + int k + 1) (filter (bit x) [0..<64]) @ [0])"
  using assms
  by (simp add: bit_index_u64_def bit_count_u64_def popcount_loop_bits bit_index_loop_bits word_bits_def)

end
