(* ===== verification/Vclock.thy ===== *)
theory Vclock
  imports Bit_Ops
begin

text \<open>
  The cluster vector clock, \<^verbatim>\<open>src/src/lib/vclock/vclock.h\<close> and \<^verbatim>\<open>vclock.c\<close>: one signed
  64-bit log sequence number per replica id below 32, a bit map of the ids in use and a cached
  sum of the components.  A component whose map bit is clear reads as 0 whatever the array holds.
  Operations with an \<^verbatim>\<open>assert\<close> on their arguments return \<^const>\<open>None\<close> where it fails;
  \<open>vclock_get\<close> is read for ids below \<^verbatim>\<open>VCLOCK_MAX\<close> only.
\<close>

unbundle bit_operations_syntax

section \<open>Definitions\<close>

definition VCLOCK_MAX :: nat where
  "VCLOCK_MAX = 32"

record vclock =
  vc_map :: u32
  vc_signature :: i64
  vc_lsn :: "i64 list"

record vclock_c =
  c_id :: nat
  c_lsn :: i64

record vclock_iterator =
  vit_it :: bit_iterator
  vit_vclock :: vclock

definition vclock_iterator_init :: "vclock \<Rightarrow> vclock_iterator" where
  "vclock_iterator_init v =
     \<lparr>vit_it = bit_iterator_init (store_u32 (vc_map v)) 4 True, vit_vclock = v\<rparr>"

definition vclock_iterator_next :: "vclock_iterator \<Rightarrow> vclock_c \<times> vclock_iterator" where
  "vclock_iterator_next it =
     (let (pos, bi) = bit_iterator_next (vit_it it);
          cid = (if pos = SIZE_MAX then VCLOCK_MAX else pos)
      in (\<lparr>c_id = cid, c_lsn = (if cid < VCLOCK_MAX then vc_lsn (vit_vclock it) ! cid else 0)\<rparr>,
          it\<lparr>vit_it := bi\<rparr>))"

text \<open>The components that \<^verbatim>\<open>vclock_foreach\<close> visits, in order.\<close>

definition vclock_foreach :: "vclock \<Rightarrow> vclock_c list" where
  "vclock_foreach v =
     map (\<lambda>pos. \<lparr>c_id = pos, c_lsn = vc_lsn v ! pos\<rparr>)
       (bit_iterator_drain (vit_it (vclock_iterator_init v)))"

definition vclock_create :: "vclock \<Rightarrow> vclock" where
  "vclock_create v = v\<lparr>vc_signature := 0, vc_map := 0, vc_lsn := (vc_lsn v)[0 := 0]\<rparr>"

definition vclock_clear :: "vclock \<Rightarrow> vclock" where
  "vclock_clear v = v\<lparr>vc_signature := - 1, vc_map := 0, vc_lsn := (vc_lsn v)[0 := 0]\<rparr>"

definition vclock_is_set :: "vclock \<Rightarrow> bool" where
  "vclock_is_set v \<longleftrightarrow> 0 \<le> sint (vc_signature v)"

text \<open>The branch-free read: all ones or all zeros from the map bit, masked onto the array entry.\<close>

definition vclock_get :: "vclock \<Rightarrow> nat \<Rightarrow> i64" where
  "vclock_get v replica_id =
     (let mask = 0 - ucast (drop_bit replica_id (vc_map v) AND 1)
      in mask AND vc_lsn v ! replica_id)"

definition vclock_inc :: "vclock \<Rightarrow> nat \<Rightarrow> (i64 \<times> vclock) option" where
  "vclock_inc v replica_id =
     (if \<not> replica_id < VCLOCK_MAX then None
      else
        let v1 = (if drop_bit replica_id (vc_map v) AND 1 = 0
                  then v\<lparr>vc_lsn := (vc_lsn v)[replica_id := 0],
                         vc_map := vc_map v OR push_bit replica_id 1\<rparr>
                  else v);
            v2 = v1\<lparr>vc_signature := vc_signature v1 + 1\<rparr>;
            l = vc_lsn v2 ! replica_id + 1
        in Some (l, v2\<lparr>vc_lsn := (vc_lsn v2)[replica_id := l]\<rparr>))"

definition vclock_reset :: "vclock \<Rightarrow> nat \<Rightarrow> i64 \<Rightarrow> vclock option" where
  "vclock_reset v replica_id lsn =
     (if \<not> (0 \<le> sint lsn \<and> replica_id < VCLOCK_MAX) then None
      else
        let v1 = v\<lparr>vc_signature := vc_signature v - vclock_get v replica_id\<rparr>
        in if lsn = 0 then Some (v1\<lparr>vc_map := vc_map v1 AND NOT (push_bit replica_id 1)\<rparr>)
           else Some (v1\<lparr>vc_lsn := (vc_lsn v1)[replica_id := lsn],
                         vc_map := vc_map v1 OR push_bit replica_id 1,
                         vc_signature := vc_signature v1 + lsn\<rparr>))"

definition vclock_copy :: "vclock \<Rightarrow> vclock \<Rightarrow> vclock" where
  "vclock_copy dst src =
     (let max_pos = VCLOCK_MAX - bit_clz_u32 (vc_map src OR 1)
      in dst\<lparr>vc_map := vc_map src, vc_signature := vc_signature src,
             vc_lsn := take max_pos (vc_lsn src) @ drop max_pos (vc_lsn dst)\<rparr>)"

definition vclock_size :: "vclock \<Rightarrow> nat" where
  "vclock_size v = bit_count_u32 (vc_map v)"

definition vclock_size_ignore0 :: "vclock \<Rightarrow> nat" where
  "vclock_size_ignore0 v = bit_count_u32 (vc_map v AND NOT 1)"

definition vclock_calc_sum :: "vclock \<Rightarrow> i64" where
  "vclock_calc_sum v = fold (\<lambda>c sum. sum + c_lsn c) (vclock_foreach v) 0"

definition vclock_sum :: "vclock \<Rightarrow> i64" where
  "vclock_sum v = vc_signature v"

definition vclock_follow :: "vclock \<Rightarrow> nat \<Rightarrow> i64 \<Rightarrow> (i64 \<times> vclock) option" where
  "vclock_follow v replica_id lsn =
     (if \<not> (0 \<le> sint lsn \<and> replica_id < VCLOCK_MAX) then None
      else
        let prev_lsn = vclock_get v replica_id
        in if \<not> sint lsn > sint prev_lsn then None
           else Some (prev_lsn,
                  v\<lparr>vc_map := vc_map v OR push_bit replica_id 1,
                    vc_lsn := (vc_lsn v)[replica_id := lsn],
                    vc_signature := vc_signature v + (lsn - prev_lsn)\<rparr>))"

fun vclock_merge_loop :: "vclock \<Rightarrow> vclock_c list \<Rightarrow> vclock option" where
  "vclock_merge_loop dst [] = Some dst"
| "vclock_merge_loop dst (item # items) =
     (case vclock_follow dst (c_id item) (vclock_get dst (c_id item) + c_lsn item) of
        None \<Rightarrow> None
      | Some (_, dst') \<Rightarrow> vclock_merge_loop dst' items)"

text \<open>The result is the pair of the destination and the reset difference.\<close>

definition vclock_merge :: "vclock \<Rightarrow> vclock \<Rightarrow> (vclock \<times> vclock) option" where
  "vclock_merge dst diff =
     map_option (\<lambda>dst'. (dst', vclock_create diff)) (vclock_merge_loop dst (vclock_foreach diff))"

subsection \<open>Comparison\<close>

definition VCLOCK_ORDER_UNDEFINED :: int where
  "VCLOCK_ORDER_UNDEFINED = 2 ^ 31 - 1"

fun vclock_compare_loop :: "vclock \<Rightarrow> vclock \<Rightarrow> bool \<Rightarrow> bool \<Rightarrow> nat list \<Rightarrow> int" where
  "vclock_compare_loop a b le ge [] =
     (if ge \<and> \<not> le then 1 else if le \<and> \<not> ge then - 1 else 0)"
| "vclock_compare_loop a b le ge (replica_id # ids) =
     (let lsn_a = sint (vclock_get a replica_id);
          lsn_b = sint (vclock_get b replica_id);
          le' = (le \<and> lsn_a \<le> lsn_b);
          ge' = (ge \<and> lsn_a \<ge> lsn_b)
      in if \<not> ge' \<and> \<not> le' then VCLOCK_ORDER_UNDEFINED
         else vclock_compare_loop a b le' ge' ids)"

text \<open>The ids used by either clock, as the iterator over the united map returns them.\<close>

definition vclock_union_ids :: "vclock \<Rightarrow> vclock \<Rightarrow> nat list" where
  "vclock_union_ids a b =
     bit_iterator_drain (bit_iterator_init (store_u32 (vc_map a OR vc_map b)) 4 True)"

definition skip_id0 :: "nat list \<Rightarrow> nat list" where
  "skip_id0 ids = (case ids of [] \<Rightarrow> [] | i # is \<Rightarrow> if i = 0 then is else i # is)"

definition vclock_compare_generic :: "vclock \<Rightarrow> vclock \<Rightarrow> bool \<Rightarrow> int" where
  "vclock_compare_generic a b ignore_zero =
     (let ids = vclock_union_ids a b
      in vclock_compare_loop a b True True (if ignore_zero then skip_id0 ids else ids))"

definition vclock_compare :: "vclock \<Rightarrow> vclock \<Rightarrow> int" where
  "vclock_compare a b = vclock_compare_generic a b False"

definition vclock_compare_ignore0 :: "vclock \<Rightarrow> vclock \<Rightarrow> int" where
  "vclock_compare_ignore0 a b = vclock_compare_generic a b True"

fun vclock_lex_loop :: "vclock \<Rightarrow> vclock \<Rightarrow> nat list \<Rightarrow> int" where
  "vclock_lex_loop a b [] = 0"
| "vclock_lex_loop a b (replica_id # ids) =
     (let lsn_a = sint (vclock_get a replica_id);
          lsn_b = sint (vclock_get b replica_id)
      in if lsn_a < lsn_b then - 1
         else if lsn_a > lsn_b then 1
         else vclock_lex_loop a b ids)"

definition vclock_lex_compare :: "vclock \<Rightarrow> vclock \<Rightarrow> int" where
  "vclock_lex_compare a b = vclock_lex_loop a b (vclock_union_ids a b)"

fun vclock_min_loop :: "vclock \<Rightarrow> vclock \<Rightarrow> nat list \<Rightarrow> vclock option" where
  "vclock_min_loop a b [] = Some a"
| "vclock_min_loop a b (replica_id # ids) =
     (let lsn_a = vclock_get a replica_id;
          lsn_b = vclock_get b replica_id
      in if sint lsn_a \<le> sint lsn_b then vclock_min_loop a b ids
         else case vclock_reset a replica_id lsn_b of
                None \<Rightarrow> None
              | Some a' \<Rightarrow> vclock_min_loop a' b ids)"

definition vclock_min_ignore0 :: "vclock \<Rightarrow> vclock \<Rightarrow> vclock option" where
  "vclock_min_ignore0 a b = vclock_min_loop a b (skip_id0 (vclock_union_ids a b))"

text \<open>The order of the nodes of a vclock set: clocks that are not ordered compare as equal.\<close>

definition vclockset_node_compare :: "vclock \<Rightarrow> vclock \<Rightarrow> int" where
  "vclockset_node_compare a b =
     (let res = vclock_compare a b in if res = VCLOCK_ORDER_UNDEFINED then 0 else res)"

section \<open>Reading and writing components\<close>

named_theorems vclock_get_simps

definition vclock_wf :: "vclock \<Rightarrow> bool" where
  "vclock_wf v \<longleftrightarrow> length (vc_lsn v) = VCLOCK_MAX"

lemma vclock_get_cases:
  "vclock_get v i = (if bit (vc_map v) i then vc_lsn v ! i else 0)"
proof (cases "bit (vc_map v) i")
  case True
  then have "drop_bit i (vc_map v) AND 1 = 1"
    by (simp add: and_one_eq bit_iff_odd_drop_bit mod_2_eq_odd)
  then show ?thesis using True by (simp add: vclock_get_def)
next
  case False
  then have "drop_bit i (vc_map v) AND 1 = 0"
    by (simp add: and_one_eq bit_iff_odd_drop_bit mod_2_eq_odd)
  then show ?thesis using False by (simp add: vclock_get_def)
qed

lemma bit_map_or_push: "bit ((m :: u32) OR push_bit i 1) j \<longleftrightarrow> bit m j \<or> (j = i \<and> i < 32)"
  by (auto simp: bit_or_iff bit_exp_iff)

lemma bit_map_and_not_push: "bit ((m :: u32) AND NOT (push_bit i 1)) j \<longleftrightarrow> bit m j \<and> j \<noteq> i"
  by (auto simp: bit_and_iff bit_not_iff bit_exp_iff dest: bit_imp_le_length)

lemma map_bit_test: "(drop_bit i (m :: u32) AND 1 = 0) = (\<not> bit m i)"
  by (simp add: and_one_eq bit_iff_odd_drop_bit mod_2_eq_odd)

lemma vclock_get_update [vclock_get_simps]:
  assumes "vclock_wf v" and "i < VCLOCK_MAX"
  shows "vclock_get (v\<lparr>vc_map := vc_map v OR push_bit i 1, vc_lsn := (vc_lsn v)[i := l]\<rparr>) j =
    (if j = i then l else vclock_get v j)"
  using assms by (auto simp: vclock_get_cases bit_map_or_push VCLOCK_MAX_def vclock_wf_def simp del: push_bit_of_1)

lemma vclock_foreach_eq:
  "vclock_foreach v = map (\<lambda>i. \<lparr>c_id = i, c_lsn = vclock_get v i\<rparr>) (word_bits (vc_map v))"
  by (auto simp: vclock_foreach_def vclock_iterator_init_def bit_iterator_drain_u32 vclock_get_cases set_word_bits)

lemma vclock_inc_spec:
  assumes "vclock_wf v" and "i < VCLOCK_MAX"
  obtains v' where "vclock_inc v i = Some (vclock_get v i + 1, v')" and "vclock_wf v'"
    and "\<And>j. vclock_get v' j = (if j = i then vclock_get v i + 1 else vclock_get v j)"
    and "vc_signature v' = vc_signature v + 1"
proof (cases "bit (vc_map v) i")
  case True
  then show ?thesis
    using assms
    by (intro that[of "v\<lparr>vc_signature := vc_signature v + 1, vc_lsn := (vc_lsn v)[i := vc_lsn v ! i + 1]\<rparr>"])
      (auto simp: vclock_inc_def map_bit_test Let_def vclock_wf_def vclock_get_cases)
next
  case False
  then show ?thesis
    using assms
    by (intro that[of "v\<lparr>vc_map := vc_map v OR push_bit i 1, vc_signature := vc_signature v + 1,
        vc_lsn := (vc_lsn v)[i := 1]\<rparr>"])
      (auto simp: vclock_inc_def map_bit_test Let_def vclock_wf_def vclock_get_cases bit_map_or_push
        VCLOCK_MAX_def simp del: push_bit_of_1)
qed

lemma vclock_reset_spec:
  assumes "vclock_wf v" and "i < VCLOCK_MAX" and "0 \<le> sint l"
  obtains v' where "vclock_reset v i l = Some v'" and "vclock_wf v'"
    and "\<And>j. vclock_get v' j = (if j = i then l else vclock_get v j)"
    and "vc_signature v' = vc_signature v - vclock_get v i + l"
    and "vc_map v' = (if l = 0 then vc_map v AND NOT (push_bit i 1) else vc_map v OR push_bit i 1)"
  using assms
  by (cases "l = 0") (auto simp: vclock_reset_def Let_def vclock_wf_def vclock_get_cases VCLOCK_MAX_def
      bit_map_or_push bit_map_and_not_push simp del: push_bit_of_1)

lemma vclock_follow_spec:
  assumes "vclock_wf v" and "i < VCLOCK_MAX" and "0 \<le> sint l" and "sint (vclock_get v i) < sint l"
  obtains v' where "vclock_follow v i l = Some (vclock_get v i, v')" and "vclock_wf v'"
    and "\<And>j. vclock_get v' j = (if j = i then l else vclock_get v j)"
    and "vc_signature v' = vc_signature v - vclock_get v i + l"
proof
  let ?v' = "v\<lparr>vc_map := vc_map v OR push_bit i 1, vc_lsn := (vc_lsn v)[i := l],
      vc_signature := vc_signature v + (l - vclock_get v i)\<rparr>"
  show "vclock_follow v i l = Some (vclock_get v i, ?v')"
    using assms by (simp add: vclock_follow_def Let_def)
  show "vclock_wf ?v'" using assms(1) by (simp add: vclock_wf_def)
  show "vclock_get ?v' j = (if j = i then l else vclock_get v j)" for j
    using assms(1,2) by (auto simp: vclock_get_cases bit_map_or_push VCLOCK_MAX_def vclock_wf_def simp del: push_bit_of_1)
qed simp

lemma vclock_follow_SomeD:
  "vclock_follow v i l = Some (p, v') \<Longrightarrow> i < VCLOCK_MAX \<and> 0 \<le> sint l \<and> sint (vclock_get v i) < sint l"
  by (auto simp: vclock_follow_def Let_def split: if_splits)

definition vclock_sum_ok :: "vclock \<Rightarrow> bool" where
  "vclock_sum_ok v \<longleftrightarrow> vc_signature v = (\<Sum>i<VCLOCK_MAX. vclock_get v i)"

lemma sum_update:
  fixes f g :: "nat \<Rightarrow> 'a::ab_group_add"
  assumes "i < n" and "\<And>j. g j = (if j = i then l else f j)"
  shows "(\<Sum>j<n. g j) = (\<Sum>j<n. f j) - f i + l"
proof -
  have "(\<Sum>j<n. g j) = g i + (\<Sum>j\<in>{..<n} - {i}. g j)"
    using assms(1) by (intro sum.remove) auto
  also have "(\<Sum>j\<in>{..<n} - {i}. g j) = (\<Sum>j\<in>{..<n} - {i}. f j)"
    by (rule sum.cong) (auto simp: assms(2))
  also have "\<dots> = (\<Sum>j<n. f j) - f i"
    using assms(1) by (simp add: sum_diff1)
  finally show ?thesis by (simp add: assms(2) algebra_simps)
qed

lemma sum_ok_update:
  assumes "vclock_sum_ok v" and "i < VCLOCK_MAX"
    and "\<And>j. vclock_get v' j = (if j = i then l else vclock_get v j)"
    and "vc_signature v' = vc_signature v - vclock_get v i + l"
  shows "vclock_sum_ok v'"
  using sum_update[of i VCLOCK_MAX "vclock_get v'" l "vclock_get v"] assms
  by (simp add: vclock_sum_ok_def)

lemma vclock_calc_sum_eq: "vclock_calc_sum v = (\<Sum>i<VCLOCK_MAX. vclock_get v i)"
proof -
  have "vclock_calc_sum v = (\<Sum>i\<leftarrow>word_bits (vc_map v). vclock_get v i)"
  proof -
    have "fold (\<lambda>c sum. sum + c_lsn c) cs s = s + (\<Sum>c\<leftarrow>cs. c_lsn c)" for cs and s :: i64
      by (induction cs arbitrary: s) (simp_all add: add.assoc)
    from this[of "vclock_foreach v" 0] show ?thesis
      by (simp add: vclock_calc_sum_def vclock_foreach_eq o_def)
  qed
  also have "\<dots> = (\<Sum>i\<in>{i. bit (vc_map v) i}. vclock_get v i)"
    using sorted_word_bits[of "vc_map v"]
    by (simp add: sum_list_distinct_conv_sum_set set_word_bits strict_sorted_iff)
  also have "\<dots> = (\<Sum>i<VCLOCK_MAX. vclock_get v i)"
    by (rule sum.mono_neutral_left) (auto simp: VCLOCK_MAX_def vclock_get_cases dest: bit_imp_le_length)
  finally show ?thesis .
qed

subsection \<open>Comparison\<close>

definition vc_le :: "bool \<Rightarrow> vclock \<Rightarrow> vclock \<Rightarrow> bool" where
  "vc_le ignore_zero a b \<longleftrightarrow>
     (\<forall>i<VCLOCK_MAX. \<not> (ignore_zero \<and> i = 0) \<longrightarrow> sint (vclock_get a i) \<le> sint (vclock_get b i))"

definition order_code :: "bool \<Rightarrow> bool \<Rightarrow> int" where
  "order_code le ge = (if le then if ge then 0 else - 1 else if ge then 1 else VCLOCK_ORDER_UNDEFINED)"

lemma vclock_compare_loop_eq:
  "le \<or> ge \<Longrightarrow> vclock_compare_loop a b le ge ids =
     order_code (le \<and> (\<forall>i\<in>set ids. sint (vclock_get a i) \<le> sint (vclock_get b i)))
                (ge \<and> (\<forall>i\<in>set ids. sint (vclock_get b i) \<le> sint (vclock_get a i)))"
proof (induction a b le ge ids rule: vclock_compare_loop.induct)
  case (1 a b le ge)
  then show ?case by (auto simp: order_code_def)
next
  case (2 a b le ge i ids)
  show ?case
  proof (cases "(le \<and> sint (vclock_get a i) \<le> sint (vclock_get b i)) \<or> (ge \<and> sint (vclock_get a i) \<ge> sint (vclock_get b i))")
    case True
    then show ?thesis using 2(1)[OF refl refl refl refl] by (auto simp: Let_def)
  next
    case False
    then show ?thesis by (auto simp: Let_def order_code_def)
  qed
qed

lemma vclock_union_ids_eq: "vclock_union_ids a b = word_bits (vc_map a OR vc_map b)"
  by (simp add: vclock_union_ids_def bit_iterator_drain_u32)

lemma set_skip_id0: "sorted_wrt (<) ids \<Longrightarrow> set (skip_id0 ids) = set ids - {0}"
  by (cases ids) (auto simp: skip_id0_def)

lemma vc_le_union:
  "vc_le ign a b \<longleftrightarrow>
     (\<forall>i\<in>set (if ign then skip_id0 (vclock_union_ids a b) else vclock_union_ids a b).
        sint (vclock_get a i) \<le> sint (vclock_get b i))"
proof -
  have s: "set (if ign then skip_id0 (vclock_union_ids a b) else vclock_union_ids a b) =
      {i. (bit (vc_map a) i \<or> bit (vc_map b) i) \<and> \<not> (ign \<and> i = 0)}"
    by (auto simp: vclock_union_ids_eq set_skip_id0 sorted_word_bits set_word_bits bit_or_iff)
  have "sint (vclock_get a i) \<le> sint (vclock_get b i)" if "\<not> bit (vc_map a) i" "\<not> bit (vc_map b) i" for i
    using that by (simp add: vclock_get_cases)
  moreover have "i < 32" if "bit (vc_map a) i \<or> bit (vc_map b) i" for i
    using that by (auto dest: bit_imp_le_length)
  ultimately show ?thesis
    unfolding s vc_le_def VCLOCK_MAX_def by blast
qed

lemma vclock_union_ids_commute: "vclock_union_ids a b = vclock_union_ids b a"
  by (simp add: vclock_union_ids_def or.commute)

lemma vclock_compare_generic_eq:
  "vclock_compare_generic a b ign = order_code (vc_le ign a b) (vc_le ign b a)"
  unfolding vclock_compare_generic_def Let_def
  by (subst vclock_compare_loop_eq) (simp_all add: vc_le_union vclock_union_ids_commute[of b a])

lemma vc_le_refl [simp]: "vc_le ign a a"
  by (simp add: vc_le_def)

lemma vc_le_trans: "vc_le ign a b \<Longrightarrow> vc_le ign b c \<Longrightarrow> vc_le ign a c"
  by (force simp: vc_le_def)

lemma vc_le_antisym:
  "vc_le False a b \<and> vc_le False b a \<longleftrightarrow> (\<forall>i<VCLOCK_MAX. vclock_get a i = vclock_get b i)"
proof
  assume le: "vc_le False a b \<and> vc_le False b a"
  show "\<forall>i<VCLOCK_MAX. vclock_get a i = vclock_get b i"
  proof (intro allI impI)
    fix i assume "i < VCLOCK_MAX"
    then have "sint (vclock_get a i) = sint (vclock_get b i)"
      using le by (auto simp: vc_le_def intro: order_antisym)
    then show "vclock_get a i = vclock_get b i" by (rule signed_word_eqI)
  qed
qed (simp add: vc_le_def)

lemma order_code_iff:
  "order_code le ge = 0 \<longleftrightarrow> le \<and> ge" "order_code le ge = 1 \<longleftrightarrow> \<not> le \<and> ge"
  "order_code le ge = - 1 \<longleftrightarrow> le \<and> \<not> ge"
  "order_code le ge = VCLOCK_ORDER_UNDEFINED \<longleftrightarrow> \<not> le \<and> \<not> ge"
  by (auto simp: order_code_def VCLOCK_ORDER_UNDEFINED_def)

subsection \<open>Lexicographic comparison\<close>

lemma vclock_lex_loop_cases:
  "vclock_lex_loop a b ids =
     (case dropWhile (\<lambda>i. sint (vclock_get a i) = sint (vclock_get b i)) ids of
        [] \<Rightarrow> 0
      | i # _ \<Rightarrow> if sint (vclock_get a i) < sint (vclock_get b i) then - 1 else 1)"
  by (induction a b ids rule: vclock_lex_loop.induct) (auto simp: Let_def)

lemma vclock_lex_loop_le:
  assumes "\<forall>i\<in>set ids. sint (vclock_get a i) \<le> sint (vclock_get b i)"
    and "\<exists>i\<in>set ids. sint (vclock_get a i) < sint (vclock_get b i)"
  shows "vclock_lex_loop a b ids = - 1"
  using assms by (induction a b ids rule: vclock_lex_loop.induct) (force simp: Let_def)+

lemma vclock_lex_loop_0: "vclock_lex_loop a b ids = 0 \<longleftrightarrow> (\<forall>i\<in>set ids. sint (vclock_get a i) = sint (vclock_get b i))"
  by (induction a b ids rule: vclock_lex_loop.induct) (auto simp: Let_def)

lemma vclock_lex_loop_antisym: "vclock_lex_loop b a ids = - vclock_lex_loop a b ids"
  by (induction a b ids rule: vclock_lex_loop.induct) (auto simp: Let_def)

definition first_diff :: "vclock \<Rightarrow> vclock \<Rightarrow> nat \<Rightarrow> bool" where
  "first_diff a b k \<longleftrightarrow> k < VCLOCK_MAX \<and> sint (vclock_get a k) < sint (vclock_get b k) \<and>
     (\<forall>i<k. vclock_get a i = vclock_get b i)"

lemma vclock_lex_loop_less:
  "sorted_wrt (<) ids \<Longrightarrow> vclock_lex_loop a b ids = - 1 \<longleftrightarrow>
      (\<exists>k\<in>set ids. sint (vclock_get a k) < sint (vclock_get b k) \<and>
        (\<forall>i\<in>set ids. i < k \<longrightarrow> vclock_get a i = vclock_get b i))"
proof (induction a b ids rule: vclock_lex_loop.induct)
  case (1 a b)
  then show ?case by simp
next
  case (2 a b i ids)
  have gt: "\<forall>j\<in>set ids. i < j" using 2(2) by simp
  consider "sint (vclock_get a i) < sint (vclock_get b i)" | "sint (vclock_get a i) > sint (vclock_get b i)"
    | "vclock_get a i = vclock_get b i"
    by (metis linorder_less_linear signed_word_eqI)
  then show ?case
  proof cases
    case 1
    then show ?thesis using gt by (auto simp: Let_def)
  next
    case 2
    then show ?thesis using gt by (auto simp: Let_def)
  next
    case 3
    then show ?thesis using gt 2(1)[OF refl refl] 2(2) by (auto simp: Let_def)
  qed
qed

lemma lex_less_iff: "vclock_lex_compare a b = - 1 \<longleftrightarrow> (\<exists>k. first_diff a b k)"
proof -
  have "vclock_lex_compare a b = - 1 \<longleftrightarrow>
      (\<exists>k\<in>{i. bit (vc_map a OR vc_map b) i}. sint (vclock_get a k) < sint (vclock_get b k) \<and>
        (\<forall>i\<in>{i. bit (vc_map a OR vc_map b) i}. i < k \<longrightarrow> vclock_get a i = vclock_get b i))"
    unfolding vclock_lex_compare_def vclock_union_ids_eq set_word_bits[symmetric]
    by (simp add: sorted_word_bits vclock_lex_loop_less)
  moreover have "bit (vc_map a OR vc_map b) k" if "vclock_get a k \<noteq> vclock_get b k" for k
    using that by (auto simp: vclock_get_cases bit_or_iff split: if_splits)
  moreover have "k < VCLOCK_MAX" if "bit (vc_map a OR vc_map b) k" for k
    using bit_imp_le_length[OF that] by (simp add: VCLOCK_MAX_def)
  moreover have "vclock_get a k \<noteq> vclock_get b k" if "sint (vclock_get a k) < sint (vclock_get b k)" for k
    using that by auto
  ultimately show ?thesis
    unfolding first_diff_def by blast
qed

lemma vclock_lex_compare_swap: "vclock_lex_compare b a = - vclock_lex_compare a b"
  by (simp add: vclock_lex_compare_def vclock_union_ids_commute[of b a] vclock_lex_loop_antisym[of b a])

lemma vclock_lex_loop_range: "vclock_lex_loop a b ids \<in> {- 1, 0, 1}"
  by (induction a b ids rule: vclock_lex_loop.induct) (auto simp: Let_def)

lemma first_diff_trans: "first_diff a b i \<Longrightarrow> first_diff b c j \<Longrightarrow> first_diff a c (min i j)"
  unfolding first_diff_def by (cases i j rule: linorder_cases) auto

lemma vclock_lex_compare_0: "vclock_lex_compare a b = 0 \<longleftrightarrow> (\<forall>i<VCLOCK_MAX. vclock_get a i = vclock_get b i)"
proof -
  have "vclock_lex_compare a b = 0 \<longleftrightarrow> (\<forall>i. bit (vc_map a OR vc_map b) i \<longrightarrow> vclock_get a i = vclock_get b i)"
    unfolding vclock_lex_compare_def vclock_lex_loop_0 vclock_union_ids_eq set_word_bits
    by (auto intro: signed_word_eqI)
  also have "\<dots> \<longleftrightarrow> (\<forall>i<VCLOCK_MAX. vclock_get a i = vclock_get b i)"
  proof -
    have "vclock_get a i = vclock_get b i" if "\<not> bit (vc_map a OR vc_map b) i" for i
      using that by (simp add: vclock_get_cases bit_or_iff)
    moreover have "i < VCLOCK_MAX" if "bit (vc_map a OR vc_map b) i" for i
      using bit_imp_le_length[OF that] by (simp add: VCLOCK_MAX_def)
    ultimately show ?thesis by blast
  qed
  finally show ?thesis .
qed

subsection \<open>Copy, size, minimum and merge\<close>

lemma bit_imp_exp_le: "bit (x :: 'a::len word) i \<Longrightarrow> 2 ^ i \<le> unat x"
proof -
  assume "bit x i"
  then have "odd (unat x div 2 ^ i)"
    by (simp add: bit_iff_odd[symmetric] bit_unsigned_iff bit_imp_le_length)
  then have "0 < unat x div 2 ^ i" by (metis even_zero gr0I)
  then show ?thesis by (simp add: div_greater_zero_iff)
qed

lemma bit_clz_bound:
  assumes "bit (x :: u32) i"
  shows "i < 32 - bit_clz_u32 x"
proof -
  have nz: "x \<noteq> 0" using assms by auto
  obtain k where k: "clz_loop x 32 = 32 - k" "k \<le> 32" "unat x < 2 ^ k"
    using clz_loop_bound[of x 32 32] unsigned_less[of x] by auto
  have "(2::nat) ^ i < 2 ^ k" using bit_imp_exp_le[OF assms] k(3) by linarith
  then have "i < k" by simp
  then show ?thesis using k nz by (simp add: bit_clz_u32_def)
qed

lemma vclock_copy_get:
  assumes "vclock_wf src" and "vclock_wf dst"
  shows "vclock_get (vclock_copy dst src) i = vclock_get src i"
    and "vclock_wf (vclock_copy dst src)"
    and "vclock_sum_ok src \<Longrightarrow> vclock_sum_ok (vclock_copy dst src)"
proof -
  have "i < 32 - bit_clz_u32 (vc_map src OR 1)" if "bit (vc_map src) i" for i
    using that by (intro bit_clz_bound) (simp add: bit_or_iff)
  then show g: "vclock_get (vclock_copy dst src) i = vclock_get src i" for i
    using assms by (auto simp: vclock_get_cases vclock_copy_def Let_def VCLOCK_MAX_def vclock_wf_def nth_append)
  show "vclock_wf (vclock_copy dst src)"
    using assms by (simp add: vclock_copy_def Let_def vclock_wf_def VCLOCK_MAX_def)
  show "vclock_sum_ok src \<Longrightarrow> vclock_sum_ok (vclock_copy dst src)"
    by (simp add: vclock_sum_ok_def g) (simp add: vclock_copy_def Let_def)
qed

lemma length_word_bits: "length (word_bits w) = card {i. bit w i}"
  using sorted_word_bits[of w] by (simp add: set_word_bits[symmetric] distinct_card strict_sorted_iff)

lemma vclock_size_eq: "vclock_size v = card {i. bit (vc_map v) i}"
  by (simp add: vclock_size_def bit_count_u32_def popcount_loop_bits length_word_bits)

lemma vclock_size_ignore0_eq: "vclock_size_ignore0 v = card ({i. bit (vc_map v) i} - {0})"
proof -
  have "{i. bit (vc_map v AND NOT 1) i} = {i. bit (vc_map v) i} - {0}"
    by (auto simp: bit_and_iff bit_not_iff bit_1_iff dest: bit_imp_le_length)
  then show ?thesis
    unfolding vclock_size_ignore0_def bit_count_u32_def popcount_loop_bits length_word_bits by simp
qed

lemma vclock_min_loop_spec:
  assumes "vclock_wf a" and "distinct ids" and "set ids \<subseteq> {..<VCLOCK_MAX}"
    and "\<And>i. i < VCLOCK_MAX \<Longrightarrow> 0 \<le> sint (vclock_get b i)"
  shows "\<exists>a'. vclock_min_loop a b ids = Some a' \<and> vclock_wf a' \<and>
    (\<forall>i. vclock_get a' i = (if i \<in> set ids \<and> sint (vclock_get b i) < sint (vclock_get a i)
                            then vclock_get b i else vclock_get a i)) \<and>
    (vclock_sum_ok a \<longrightarrow> vclock_sum_ok a')"
  using assms(1,2,3)
proof (induction ids arbitrary: a)
  case Nil
  then show ?case by simp
next
  case (Cons k ids)
  show ?case
  proof (cases "sint (vclock_get a k) \<le> sint (vclock_get b k)")
    case True
    then show ?thesis using Cons.IH[of a] Cons.prems by auto
  next
    case False
    obtain a1 where a1: "vclock_reset a k (vclock_get b k) = Some a1" "vclock_wf a1"
        "\<And>j. vclock_get a1 j = (if j = k then vclock_get b k else vclock_get a j)"
        "vc_signature a1 = vc_signature a - vclock_get a k + vclock_get b k"
      by (rule vclock_reset_spec[of a k "vclock_get b k"]) (use Cons.prems assms(4) in auto)
    have "vclock_sum_ok a1" if "vclock_sum_ok a"
      using sum_ok_update[OF that _ a1(3,4)] Cons.prems by simp
    then show ?thesis
      using Cons.IH[OF a1(2)] Cons.prems False a1(1,3) by (auto simp: Let_def)
  qed
qed

lemma vclock_min_ignore0_spec:
  assumes "vclock_wf a" and "\<And>i. i < VCLOCK_MAX \<Longrightarrow> 0 \<le> sint (vclock_get b i)"
    and "\<And>i. i < VCLOCK_MAX \<Longrightarrow> 0 \<le> sint (vclock_get a i)"
  obtains a' where "vclock_min_ignore0 a b = Some a'" and "vclock_wf a'"
    and "vclock_get a' 0 = vclock_get a 0"
    and "\<And>i. 0 < i \<Longrightarrow> i < VCLOCK_MAX \<Longrightarrow>
           sint (vclock_get a' i) = min (sint (vclock_get a i)) (sint (vclock_get b i))"
    and "vclock_sum_ok a \<Longrightarrow> vclock_sum_ok a'"
proof -
  let ?ids = "skip_id0 (vclock_union_ids a b)"
  have ids: "set ?ids = {i. bit (vc_map a OR vc_map b) i} - {0}"
    by (simp add: vclock_union_ids_eq set_skip_id0 sorted_word_bits set_word_bits)
  have lt: "i < VCLOCK_MAX" if "bit (vc_map a OR vc_map b) i" for i
    using bit_imp_le_length[OF that] by (simp add: VCLOCK_MAX_def)
  have "distinct (vclock_union_ids a b)"
    using sorted_word_bits[of "vc_map a OR vc_map b"] by (simp add: vclock_union_ids_eq strict_sorted_iff)
  then have dist: "distinct ?ids" by (cases "vclock_union_ids a b") (auto simp: skip_id0_def)
  have sub: "set ?ids \<subseteq> {..<VCLOCK_MAX}" using ids lt by auto
  obtain a' where a': "vclock_min_loop a b ?ids = Some a'" "vclock_wf a'"
      "\<forall>i. vclock_get a' i = (if i \<in> set ?ids \<and> sint (vclock_get b i) < sint (vclock_get a i)
                            then vclock_get b i else vclock_get a i)"
      "vclock_sum_ok a \<longrightarrow> vclock_sum_ok a'"
    using vclock_min_loop_spec[OF assms(1) dist sub assms(2)] by blast
  have zero: "vclock_get a i = 0" if "\<not> bit (vc_map a OR vc_map b) i" for i
    using that by (simp add: vclock_get_cases bit_or_iff)
  show thesis
  proof (rule that)
    show "vclock_min_ignore0 a b = Some a'" using a'(1) by (simp add: vclock_min_ignore0_def)
    show "vclock_wf a'" by (rule a'(2))
    show "vclock_get a' 0 = vclock_get a 0" using a'(3) ids by simp
    show "vclock_sum_ok a'" if "vclock_sum_ok a" using a'(4) that by simp
    fix i assume i: "0 < i" "i < VCLOCK_MAX"
    show "sint (vclock_get a' i) = min (sint (vclock_get a i)) (sint (vclock_get b i))"
    proof (cases "bit (vc_map a OR vc_map b) i")
      case True
      then have "i \<in> set ?ids" using i ids by simp
      then show ?thesis using a'(3) by (simp add: min_def)
    next
      case False
      then show ?thesis using a'(3) ids zero[OF False] assms(2)[OF i(2)] by simp
    qed
  qed
qed

lemma vclock_merge_loop_spec:
  assumes "vclock_wf dst" and "distinct (map c_id items)"
    and "\<And>c. c \<in> set items \<Longrightarrow> c_id c < VCLOCK_MAX \<and> 0 < sint (c_lsn c) \<and>
           0 \<le> sint (vclock_get dst (c_id c)) \<and>
           sint (vclock_get dst (c_id c)) + sint (c_lsn c) < 2 ^ 63"
  shows "\<exists>dst'. vclock_merge_loop dst items = Some dst' \<and> vclock_wf dst' \<and>
    (\<forall>c\<in>set items. vclock_get dst' (c_id c) = vclock_get dst (c_id c) + c_lsn c) \<and>
    (\<forall>i. i \<notin> c_id ` set items \<longrightarrow> vclock_get dst' i = vclock_get dst i) \<and>
    (vclock_sum_ok dst \<longrightarrow> vclock_sum_ok dst')"
  using assms
proof (induction items arbitrary: dst)
  case Nil
  then show ?case by simp
next
  case (Cons c items)
  let ?g = "vclock_get dst (c_id c)"
  have c: "c_id c < VCLOCK_MAX" "0 < sint (c_lsn c)" "0 \<le> sint ?g" "sint ?g + sint (c_lsn c) < 2 ^ 63"
    using Cons.prems(3)[of c] by auto
  have s: "sint (?g + c_lsn c) = sint ?g + sint (c_lsn c)"
    using c by (intro sint_add_eq) auto
  obtain d1 where d1: "vclock_follow dst (c_id c) (?g + c_lsn c) = Some (?g, d1)" "vclock_wf d1"
      "\<And>j. vclock_get d1 j = (if j = c_id c then ?g + c_lsn c else vclock_get dst j)"
      "vc_signature d1 = vc_signature dst - ?g + (?g + c_lsn c)"
    by (rule vclock_follow_spec[OF Cons.prems(1) c(1), of "?g + c_lsn c"]) (use c s in \<open>linarith | blast\<close>)+
  have ok: "vclock_sum_ok d1" if "vclock_sum_ok dst"
    using sum_ok_update[OF that c(1) d1(3,4)] .
  have "\<exists>dst'. vclock_merge_loop d1 items = Some dst' \<and> vclock_wf dst' \<and>
    (\<forall>c\<in>set items. vclock_get dst' (c_id c) = vclock_get d1 (c_id c) + c_lsn c) \<and>
    (\<forall>i. i \<notin> c_id ` set items \<longrightarrow> vclock_get dst' i = vclock_get d1 i) \<and>
    (vclock_sum_ok d1 \<longrightarrow> vclock_sum_ok dst')"
  proof (rule Cons.IH[OF d1(2)])
    show "distinct (map c_id items)" using Cons.prems(2) by simp
    fix e assume e: "e \<in> set items"
    then have "c_id e \<noteq> c_id c" using Cons.prems(2) by (force simp: image_iff)
    then show "c_id e < VCLOCK_MAX \<and> 0 < sint (c_lsn e) \<and> 0 \<le> sint (vclock_get d1 (c_id e)) \<and>
           sint (vclock_get d1 (c_id e)) + sint (c_lsn e) < 2 ^ 63"
      using Cons.prems(3)[of e] e by (simp add: d1(3))
  qed
  then obtain dst' where dst': "vclock_merge_loop d1 items = Some dst'" "vclock_wf dst'"
    "\<forall>c\<in>set items. vclock_get dst' (c_id c) = vclock_get d1 (c_id c) + c_lsn c"
    "\<forall>i. i \<notin> c_id ` set items \<longrightarrow> vclock_get dst' i = vclock_get d1 i"
    "vclock_sum_ok d1 \<longrightarrow> vclock_sum_ok dst'" by blast
  have nin: "c_id c \<notin> c_id ` set items" using Cons.prems(2) by simp
  have "vclock_get dst' (c_id e) = vclock_get dst (c_id e) + c_lsn e" if "e \<in> set (c # items)" for e
  proof (cases "e = c")
    case True
    then show ?thesis using dst'(4) nin by (simp add: d1(3))
  next
    case False
    then have "e \<in> set items" using that by simp
    then have "c_id e \<noteq> c_id c" using nin by (metis imageI)
    then show ?thesis using dst'(3) \<open>e \<in> set items\<close> by (simp add: d1(3))
  qed
  moreover have "vclock_get dst' i = vclock_get dst i" if "i \<notin> c_id ` set (c # items)" for i
    using that dst'(4) by (simp add: d1(3))
  moreover have "vclock_merge_loop dst (c # items) = Some dst'"
    using d1(1) dst'(1) by simp
  ultimately show ?case
    using dst'(2,5) ok by (intro exI[of _ dst'] conjI) simp_all
qed

subsection \<open>The comparison contract\<close>

text \<open>
  What a client relies on when it compares clocks: equal clocks compare as 0, the result flips
  sign with the arguments, and "not behind" is transitive.
\<close>

locale clock_order =
  fixes cmp :: "'a \<Rightarrow> 'a \<Rightarrow> int"
  assumes cmp_refl: "cmp a a = 0"
    and cmp_swap: "cmp a b = 1 \<longleftrightarrow> cmp b a = - 1"
    and cmp_eq_swap: "cmp a b = 0 \<longleftrightarrow> cmp b a = 0"
    and cmp_trans: "cmp a b \<in> {0, 1} \<Longrightarrow> cmp b c \<in> {0, 1} \<Longrightarrow> cmp a c \<in> {0, 1}"
begin

lemma strict_asym: "cmp a b = 1 \<Longrightarrow> cmp b a \<noteq> 1"
  using cmp_swap[of a b] by auto

lemma strict_trans: "cmp a b = 1 \<Longrightarrow> cmp b c = 1 \<Longrightarrow> cmp a c = 1"
  using cmp_trans[of a b c] cmp_trans[of c a b] cmp_eq_swap[of a c] cmp_swap[of b c] by auto

lemma eq_trans: "cmp a b = 0 \<Longrightarrow> cmp b c = 0 \<Longrightarrow> cmp a c = 0"
  using cmp_trans[of a b c] cmp_trans[of c b a] cmp_eq_swap[of a b] cmp_eq_swap[of b c] cmp_swap[of a c]
  by auto

end

interpretation vc_order: clock_order vclock_compare
  by unfold_locales
    (auto simp: vclock_compare_def vclock_compare_generic_eq order_code_iff intro: vc_le_trans)

interpretation vc_order0: clock_order vclock_compare_ignore0
  by unfold_locales
    (auto simp: vclock_compare_ignore0_def vclock_compare_generic_eq order_code_iff intro: vc_le_trans)

section \<open>Properties\<close>

subsection \<open>Well-formed histories\<close>

text \<open>Updates applied to a clock; \<^const>\<open>None\<close> once an assertion of one of them fails.\<close>

datatype vclock_op =
    Inc nat
  | Reset nat i64
  | Follow nat i64
  | MinWith vclock
  | MergeDiff vclock

fun vclock_exec :: "vclock_op \<Rightarrow> vclock \<Rightarrow> vclock option" where
  "vclock_exec (Inc i) v = map_option snd (vclock_inc v i)"
| "vclock_exec (Reset i l) v = vclock_reset v i l"
| "vclock_exec (Follow i l) v = map_option snd (vclock_follow v i l)"
| "vclock_exec (MinWith b) v = vclock_min_ignore0 v b"
| "vclock_exec (MergeDiff d) v = map_option fst (vclock_merge v d)"

fun vclock_run :: "vclock_op list \<Rightarrow> vclock \<Rightarrow> vclock option" where
  "vclock_run [] v = Some v"
| "vclock_run (op # ops) v = vclock_exec op v \<bind> vclock_run ops"

lemma vclock_reset_keeps:
  assumes "vclock_reset v i l = Some v'" and "vclock_wf v" and "vclock_sum_ok v"
  shows "vclock_wf v' \<and> vclock_sum_ok v'"
proof -
  have i: "i < VCLOCK_MAX" and l: "0 \<le> sint l"
    using assms(1) by (auto simp: vclock_reset_def split: if_splits)
  obtain w where w: "vclock_reset v i l = Some w" "vclock_wf w"
      "\<And>j. vclock_get w j = (if j = i then l else vclock_get v j)"
      "vc_signature w = vc_signature v - vclock_get v i + l"
    by (rule vclock_reset_spec[OF assms(2) i l]) blast
  show ?thesis using sum_ok_update[OF assms(3) i w(3,4)] w(1,2) assms(1) by simp
qed

lemma vclock_follow_keeps:
  assumes "vclock_follow v i l = Some (p, v')" and "vclock_wf v" and "vclock_sum_ok v"
  shows "vclock_wf v' \<and> vclock_sum_ok v'"
proof -
  have c: "i < VCLOCK_MAX" "0 \<le> sint l" "sint (vclock_get v i) < sint l"
    using vclock_follow_SomeD[OF assms(1)] by auto
  obtain w where w: "vclock_follow v i l = Some (vclock_get v i, w)" "vclock_wf w"
      "\<And>j. vclock_get w j = (if j = i then l else vclock_get v j)"
      "vc_signature w = vc_signature v - vclock_get v i + l"
    by (rule vclock_follow_spec[OF assms(2) c]) blast
  show ?thesis using sum_ok_update[OF assms(3) c(1) w(3,4)] w(1,2) assms(1) by simp
qed

lemma vclock_inc_keeps:
  assumes "vclock_inc v i = Some (p, v')" and "vclock_wf v" and "vclock_sum_ok v"
  shows "vclock_wf v' \<and> vclock_sum_ok v'"
proof -
  have i: "i < VCLOCK_MAX" using assms(1) by (simp add: vclock_inc_def split: if_splits)
  obtain w where w: "vclock_inc v i = Some (vclock_get v i + 1, w)" "vclock_wf w"
      "\<And>j. vclock_get w j = (if j = i then vclock_get v i + 1 else vclock_get v j)"
      "vc_signature w = vc_signature v + 1"
    by (rule vclock_inc_spec[OF assms(2) i]) blast
  show ?thesis using sum_ok_update[OF assms(3) i w(3)] w assms(1) by simp
qed

lemma vclock_min_loop_keeps:
  "vclock_min_loop v b ids = Some v' \<Longrightarrow> vclock_wf v \<Longrightarrow> vclock_sum_ok v \<Longrightarrow> vclock_wf v' \<and> vclock_sum_ok v'"
  by (induction v b ids rule: vclock_min_loop.induct)
    (auto simp: Let_def split: if_splits option.splits dest: vclock_reset_keeps)

lemma vclock_merge_loop_keeps:
  "vclock_merge_loop v cs = Some v' \<Longrightarrow> vclock_wf v \<Longrightarrow> vclock_sum_ok v \<Longrightarrow> vclock_wf v' \<and> vclock_sum_ok v'"
  by (induction v cs rule: vclock_merge_loop.induct) (auto split: option.splits dest: vclock_follow_keeps)

lemmas vclock_keeps = vclock_inc_keeps vclock_reset_keeps vclock_follow_keeps
  vclock_min_loop_keeps vclock_merge_loop_keeps

lemma vclock_exec_keeps:
  "vclock_exec op v = Some v' \<Longrightarrow> vclock_wf v \<Longrightarrow> vclock_sum_ok v \<Longrightarrow> vclock_wf v' \<and> vclock_sum_ok v'"
  by (cases op) (auto simp: vclock_min_ignore0_def vclock_merge_def dest: vclock_keeps)

lemma vclock_run_keeps:
  "vclock_run ops v = Some v' \<Longrightarrow> vclock_wf v \<Longrightarrow> vclock_sum_ok v \<Longrightarrow> vclock_wf v' \<and> vclock_sum_ok v'"
  by (induction ops arbitrary: v) (auto simp: bind_eq_Some_conv dest: vclock_exec_keeps)

lemma vclock_create_ok:
  "vclock_wf v \<Longrightarrow> vclock_wf (vclock_create v) \<and> vclock_sum_ok (vclock_create v)"
  by (simp add: vclock_create_def vclock_wf_def vclock_sum_ok_def vclock_get_cases)

subsection \<open>Theorems\<close>

text \<open>
  C22. Every history of increments, resets, follows, minimums and merges that starts from a
  created clock and violates no assertion keeps the cached signature equal to the sum of the
  components, which is also what recomputing it with \<^const>\<open>vclock_calc_sum\<close> gives.
\<close>

theorem vclock_signature_invariant:
  assumes "vclock_wf v" and "vclock_run ops (vclock_create v) = Some v'"
  shows "vclock_sum v' = vclock_calc_sum v'"
  using vclock_run_keeps[OF assms(2)] vclock_create_ok[OF assms(1)]
  by (simp add: vclock_sum_def vclock_sum_ok_def vclock_calc_sum_eq)

definition zero_vclock :: vclock where
  "zero_vclock = \<lparr>vc_map = 0, vc_signature = 0, vc_lsn = replicate 32 0\<rparr>"

definition pair_vclock :: "i64 \<Rightarrow> i64 \<Rightarrow> vclock" where
  "pair_vclock a b = \<lparr>vc_map = 6, vc_signature = a + b, vc_lsn = 0 # a # b # replicate 29 0\<rparr>"

lemma zero_vclock_wf [simp]: "vclock_wf zero_vclock"
  by (simp add: zero_vclock_def vclock_wf_def VCLOCK_MAX_def)

lemma pair_vclock_get:
  "vclock_get (pair_vclock a b) (Suc 0) = a" "vclock_get (pair_vclock a b) 2 = b"
  "vclock_get (pair_vclock a b) i = (if i = Suc 0 then a else if i = 2 then b else 0)"
proof -
  have "bit (6 :: u32) i \<longleftrightarrow> i = Suc 0 \<or> i = 2" for i
    by (auto simp: bit_numeral_rec bit_1_iff split: nat.split)
  then show "vclock_get (pair_vclock a b) (Suc 0) = a" "vclock_get (pair_vclock a b) 2 = b"
    "vclock_get (pair_vclock a b) i = (if i = Suc 0 then a else if i = 2 then b else 0)"
    by (auto simp: vclock_get_cases pair_vclock_def)
qed

theorem vclock_signature_invariant_witness:
  "\<exists>v'. vclock_run [Inc 1, Follow 2 7] (vclock_create zero_vclock) = Some v' \<and>
        vclock_sum v' = vclock_calc_sum v' \<and> vclock_sum v' = 8"
proof -
  obtain v' where v': "vclock_run [Inc 1, Follow 2 7] (vclock_create zero_vclock) = Some v'" "vclock_sum v' = 8"
    by (simp add: vclock_inc_def vclock_follow_def vclock_get_cases vclock_create_def zero_vclock_def
        VCLOCK_MAX_def Let_def bit_or_iff bit_exp_iff vclock_sum_def)
  then show ?thesis
    using vclock_signature_invariant[OF zero_vclock_wf v'(1)] by blast
qed

text \<open>
  C23. \<^const>\<open>vclock_compare\<close> decides the component-wise order: 0 exactly for equal components,
  -1 exactly when no component of the first is greater and some is less, 1 in the mirrored
  case, and \<^const>\<open>VCLOCK_ORDER_UNDEFINED\<close> exactly when the clocks are concurrent.
\<close>

theorem vclock_compare_order:
  "(vclock_compare a b = 0 \<longleftrightarrow> (\<forall>i<VCLOCK_MAX. vclock_get a i = vclock_get b i)) \<and>
   (vclock_compare a b = - 1 \<longleftrightarrow>
      (\<forall>i<VCLOCK_MAX. sint (vclock_get a i) \<le> sint (vclock_get b i)) \<and>
      (\<exists>i<VCLOCK_MAX. sint (vclock_get a i) < sint (vclock_get b i))) \<and>
   (vclock_compare a b = 1 \<longleftrightarrow> vclock_compare b a = - 1) \<and>
   (vclock_compare a b = VCLOCK_ORDER_UNDEFINED \<longleftrightarrow>
      (\<exists>i<VCLOCK_MAX. sint (vclock_get a i) < sint (vclock_get b i)) \<and>
      (\<exists>i<VCLOCK_MAX. sint (vclock_get b i) < sint (vclock_get a i)))"
proof -
  have "vclock_compare a b = 0 \<longleftrightarrow> (\<forall>i<VCLOCK_MAX. vclock_get a i = vclock_get b i)"
    unfolding vclock_compare_def vclock_compare_generic_eq order_code_iff by (rule vc_le_antisym)
  then show ?thesis
    using vc_order.cmp_swap[of a b]
    unfolding vclock_compare_def vclock_compare_generic_eq order_code_iff
    by (auto simp: vc_le_def not_le)
qed

theorem vclock_compare_order_witness:
  "vclock_compare (pair_vclock 5 10) (pair_vclock 7 3) = VCLOCK_ORDER_UNDEFINED"
proof -
  have "\<exists>i<VCLOCK_MAX. sint (vclock_get (pair_vclock 5 10) i) < sint (vclock_get (pair_vclock 7 3) i)"
    by (rule exI[of _ 1]) (simp add: pair_vclock_get VCLOCK_MAX_def)
  moreover have "\<exists>i<VCLOCK_MAX. sint (vclock_get (pair_vclock 7 3) i) < sint (vclock_get (pair_vclock 5 10) i)"
    by (rule exI[of _ 2]) (simp add: pair_vclock_get VCLOCK_MAX_def)
  ultimately show ?thesis
    using vclock_compare_order[of "pair_vclock 5 10" "pair_vclock 7 3"] by blast
qed

text \<open>
  C28. The lexicographic comparison is a total order on component values (it is antisymmetric,
  transitive, and 0 only for equal clocks), and it extends the component-wise order: a clock
  that is before another one in \<^const>\<open>vclock_compare\<close> is before it lexicographically.
\<close>

theorem vclock_lex_total_extension:
  "vclock_lex_compare a b \<in> {- 1, 0, 1} \<and>
   vclock_lex_compare b a = - vclock_lex_compare a b \<and>
   (vclock_lex_compare a b = 0 \<longleftrightarrow> vclock_compare a b = 0) \<and>
   (vclock_lex_compare a b = - 1 \<longrightarrow> vclock_lex_compare b c = - 1 \<longrightarrow> vclock_lex_compare a c = - 1) \<and>
   (vclock_compare a b = - 1 \<longrightarrow> vclock_lex_compare a b = - 1)"
proof (intro conjI impI)
  show "vclock_lex_compare a b \<in> {- 1, 0, 1}"
    by (simp only: vclock_lex_compare_def vclock_lex_loop_range)
  show "vclock_lex_compare b a = - vclock_lex_compare a b"
    by (rule vclock_lex_compare_swap)
  show "vclock_lex_compare a b = 0 \<longleftrightarrow> vclock_compare a b = 0"
    unfolding vclock_lex_compare_0 vclock_compare_def vclock_compare_generic_eq order_code_iff
    by (simp add: vc_le_antisym)
  show "vclock_lex_compare a c = - 1" if "vclock_lex_compare a b = - 1" "vclock_lex_compare b c = - 1"
    using that first_diff_trans unfolding lex_less_iff by blast
  show "vclock_lex_compare a b = - 1" if "vclock_compare a b = - 1"
    unfolding vclock_lex_compare_def
  proof (rule vclock_lex_loop_le)
    have le: "vc_le False a b" "\<not> vc_le False b a"
      using that by (auto simp: vclock_compare_def vclock_compare_generic_eq order_code_iff)
    show "\<forall>i\<in>set (vclock_union_ids a b). sint (vclock_get a i) \<le> sint (vclock_get b i)"
      using le(1) by (simp add: vc_le_union)
    show "\<exists>i\<in>set (vclock_union_ids a b). sint (vclock_get a i) < sint (vclock_get b i)"
      using le(2) by (auto simp: vc_le_union vclock_union_ids_commute[of b a] not_le)
  qed
qed

theorem vclock_lex_total_extension_witness:
  "vclock_compare (pair_vclock 5 3) (pair_vclock 7 3) = - 1 \<and>
   vclock_lex_compare (pair_vclock 5 3) (pair_vclock 7 3) = - 1"
proof -
  have "vc_le False (pair_vclock 5 3) (pair_vclock 7 3)"
    by (auto simp: vc_le_def pair_vclock_get)
  moreover have "\<not> vc_le False (pair_vclock 7 3) (pair_vclock 5 3)"
    by (auto simp: vc_le_def pair_vclock_get VCLOCK_MAX_def intro!: exI[of _ 1])
  ultimately have "vclock_compare (pair_vclock 5 3) (pair_vclock 7 3) = - 1"
    by (simp add: vclock_compare_def vclock_compare_generic_eq order_code_iff)
  then show ?thesis
    using vclock_lex_total_extension[of "pair_vclock 5 3" "pair_vclock 7 3"] by blast
qed

text \<open>
  C30. Copying a clock with a \<^verbatim>\<open>memcpy\<close> that stops after the highest used component loses
  nothing: every component of the copy reads as in the source, stale entries of the destination
  stay invisible, and the copied signature is still the sum.
\<close>

theorem vclock_copy_correct:
  assumes "vclock_wf src" and "vclock_wf dst"
  shows "vclock_get (vclock_copy dst src) i = vclock_get src i \<and>
    vclock_compare (vclock_copy dst src) src = 0 \<and>
    vclock_sum (vclock_copy dst src) = vclock_sum src"
proof -
  have "vclock_compare (vclock_copy dst src) src = 0"
    unfolding vclock_compare_def vclock_compare_generic_eq order_code_iff vc_le_def
    by (simp add: vclock_copy_get(1)[OF assms])
  then show ?thesis
    using vclock_copy_get(1)[OF assms] by (simp add: vclock_sum_def vclock_copy_def Let_def)
qed

theorem vclock_copy_correct_witness:
  "vclock_get (vclock_copy zero_vclock (pair_vclock 5 10)) 2 = 10"
proof -
  have "vclock_wf (pair_vclock 5 10)" by (simp add: vclock_wf_def pair_vclock_def VCLOCK_MAX_def)
  from vclock_copy_correct[OF this zero_vclock_wf, of 2] show ?thesis by (simp add: pair_vclock_get)
qed

end
