(* ===== verification/Vclock_Text.thy ===== *)
theory Vclock_Text
  imports Vclock
begin

text \<open>
  The textual form of a vector clock, \<^verbatim>\<open>vclock_snprint\<close>, \<^verbatim>\<open>vclock_to_string\<close> and
  \<^verbatim>\<open>vclock_from_string\<close> of \<^verbatim>\<open>src/src/lib/vclock/vclock.c\<close>.  The parser is the source's
  \<^verbatim>\<open>goto\<close> automaton: one state per label, one equation per state.  A C string is the list of
  its characters before the terminating NUL.
\<close>

section \<open>Characters and numbers\<close>

definition isdigit :: "char \<Rightarrow> bool" where
  "isdigit c \<longleftrightarrow> of_char c \<in> {48 .. (57::nat)}"

definition isblank :: "char \<Rightarrow> bool" where
  "isblank c \<longleftrightarrow> c = CHR '' '' \<or> c = CHR 0x09"

definition isspace :: "char \<Rightarrow> bool" where
  "isspace c \<longleftrightarrow> isblank c \<or> of_char c \<in> {10 .. (13::nat)}"

definition digit_char :: "nat \<Rightarrow> char" where
  "digit_char d = char_of (48 + d)"

definition digit_value :: "char \<Rightarrow> nat" where
  "digit_value c = of_char c - 48"

text \<open>\<^verbatim>\<open>%u\<close> and \<^verbatim>\<open>%lld\<close> conversions.\<close>

fun show_nat :: "nat \<Rightarrow> string" where
  "show_nat n = (if n < 10 then [digit_char n] else show_nat (n div 10) @ [digit_char (n mod 10)])"

declare show_nat.simps [simp del]

definition show_int :: "int \<Rightarrow> string" where
  "show_int k = (if k < 0 then CHR ''-'' # show_nat (nat (- k)) else show_nat (nat k))"

text \<open>
  \<^verbatim>\<open>strtol\<close> and \<^verbatim>\<open>strtoll\<close> at a digit: the longest run of digits is consumed, and a value
  above \<^verbatim>\<open>LONG_MAX\<close> (64 bits) sets \<^verbatim>\<open>errno\<close>, here \<^const>\<open>None\<close>.
\<close>

definition digits_value :: "string \<Rightarrow> nat" where
  "digits_value ds = foldl (\<lambda>n c. 10 * n + digit_value c) 0 ds"

definition strtol :: "string \<Rightarrow> nat option \<times> string" where
  "strtol s =
     (let n = digits_value (takeWhile isdigit s)
      in (if n < 2 ^ 63 then Some n else None, dropWhile isdigit s))"

section \<open>Printing\<close>

fun vclock_snprint_loop :: "string \<Rightarrow> vclock_c list \<Rightarrow> string" where
  "vclock_snprint_loop sep [] = []"
| "vclock_snprint_loop sep (replica # cs) =
     sep @ show_nat (c_id replica) @ '': '' @ show_int (sint (c_lsn replica)) @
     vclock_snprint_loop '', '' cs"

definition vclock_snprint :: "vclock \<Rightarrow> string" where
  "vclock_snprint v = ''{'' @ vclock_snprint_loop '''' (vclock_foreach v) @ ''}''"

definition vclock_to_string :: "vclock \<Rightarrow> string" where
  "vclock_to_string v = vclock_snprint v"

section \<open>Parsing\<close>

datatype vc_label = Begin | Key | Sep nat | Val nat | Comma | End

text \<open>
  The result is the number of characters consumed at the point of an error (the source returns
  it plus one), or \<^const>\<open>None\<close> at the accepting point, and the clock as filled so far.
\<close>

function vc_parse :: "vc_label \<Rightarrow> string \<Rightarrow> nat \<Rightarrow> vclock \<Rightarrow> nat option \<times> vclock" where
  "vc_parse Begin s k v =
     (case s of
        [] \<Rightarrow> (Some k, v)
      | c # cs \<Rightarrow>
          if c = CHR ''{'' then vc_parse Key cs (k + 1) v
          else if isblank c then vc_parse Begin cs (k + 1) v
          else (Some k, v))"
| "vc_parse Key s k v =
     (case s of
        [] \<Rightarrow> (Some k, v)
      | c # cs \<Rightarrow>
          if isdigit c then
            (let (r, rest) = strtol s; k' = k + (length s - length rest)
             in case r of
                  None \<Rightarrow> (Some k', v)
                | Some replica_id \<Rightarrow>
                    if replica_id \<ge> VCLOCK_MAX then (Some k', v)
                    else vc_parse (Sep replica_id) rest k' v)
          else if c = CHR ''}'' then vc_parse End cs (k + 1) v
          else if isblank c then vc_parse Key cs (k + 1) v
          else (Some k, v))"
| "vc_parse (Sep replica_id) s k v =
     (case s of
        [] \<Rightarrow> (Some k, v)
      | c # cs \<Rightarrow>
          if c = CHR '':'' then vc_parse (Val replica_id) cs (k + 1) v
          else if isblank c then vc_parse (Sep replica_id) cs (k + 1) v
          else (Some k, v))"
| "vc_parse (Val replica_id) s k v =
     (case s of
        [] \<Rightarrow> (Some k, v)
      | c # cs \<Rightarrow>
          if isblank c then vc_parse (Val replica_id) cs (k + 1) v
          else if isdigit c then
            (let (r, rest) = strtol s; k' = k + (length s - length rest)
             in case r of
                  None \<Rightarrow> (Some k', v)
                | Some lsn \<Rightarrow>
                    if replica_id \<ge> VCLOCK_MAX \<or> 0 < sint (vclock_get v replica_id) then (Some k', v)
                    else vc_parse Comma rest k'
                           (v\<lparr>vc_map := vc_map v OR push_bit replica_id 1,
                              vc_lsn := (vc_lsn v)[replica_id := of_nat lsn]\<rparr>))
          else (Some k, v))"
| "vc_parse Comma s k v =
     (case s of
        [] \<Rightarrow> (Some k, v)
      | c # cs \<Rightarrow>
          if isspace c then vc_parse Comma cs (k + 1) v
          else if c = CHR ''}'' then vc_parse End cs (k + 1) v
          else if c = CHR '','' then vc_parse Key cs (k + 1) v
          else (Some k, v))"
| "vc_parse End s k v =
     (case s of
        [] \<Rightarrow> (None, v\<lparr>vc_signature := vclock_calc_sum v\<rparr>)
      | c # cs \<Rightarrow>
          if isblank c then vc_parse End cs (k + 1) v
          else (Some k, v))"
  by pat_completeness auto
termination
proof (relation "measure (\<lambda>(l, s, k, v). length s)")
qed (auto simp: strtol_def Let_def le_imp_less_Suc length_dropWhile_le)

declare vc_parse.simps [simp del]

text \<open>0 on success, the one-based offset of the error otherwise.\<close>

definition vclock_from_string :: "vclock \<Rightarrow> string \<Rightarrow> nat \<times> vclock" where
  "vclock_from_string v str =
     (case vc_parse Begin str 0 v of
        (None, v') \<Rightarrow> (0, v')
      | (Some k, v') \<Rightarrow> (k + 1, v'))"

section \<open>Round trip\<close>

lemma isdigit_digit_char [simp]: "d < 10 \<Longrightarrow> isdigit (digit_char d)"
  by (simp add: isdigit_def digit_char_def)

lemma digit_value_char [simp]: "d < 10 \<Longrightarrow> digit_value (digit_char d) = d"
  by (simp add: digit_value_def digit_char_def)

lemma show_nat_digits: "show_nat n \<noteq> [] \<and> (\<forall>c\<in>set (show_nat n). isdigit c)"
proof (induction n rule: show_nat.induct)
  case (1 n)
  then show ?case by (cases "n < 10") (auto simp: show_nat.simps[of n])
qed

lemma digits_value_show_nat: "digits_value (show_nat n) = n"
proof (induction n rule: show_nat.induct)
  case (1 n)
  then show ?case
    by (cases "n < 10") (auto simp: show_nat.simps[of n] digits_value_def)
qed

lemma show_nat_takeWhile:
  assumes "\<not> isdigit c"
  shows "takeWhile isdigit (show_nat n @ c # cs) = show_nat n"
    and "dropWhile isdigit (show_nat n @ c # cs) = c # cs"
  using show_nat_digits[of n] assms
  by (auto simp: takeWhile_append dropWhile_append takeWhile_eq_all_conv dropWhile_eq_Nil_conv)

lemma strtol_show_nat:
  assumes "\<not> isdigit c" and "n < 2 ^ 63"
  shows "strtol (show_nat n @ c # cs) = (Some n, c # cs)"
  using assms by (simp add: strtol_def show_nat_takeWhile digits_value_show_nat)

definition fill_component :: "vclock \<Rightarrow> nat \<Rightarrow> i64 \<Rightarrow> vclock" where
  "fill_component v i l = v\<lparr>vc_map := vc_map v OR push_bit i 1, vc_lsn := (vc_lsn v)[i := l]\<rparr>"

fun fill_components :: "vclock \<Rightarrow> vclock_c list \<Rightarrow> vclock" where
  "fill_components v [] = v"
| "fill_components v (c # cs) = fill_components (fill_component v (c_id c) (c_lsn c)) cs"

lemma parse_number:
  assumes "n < 2 ^ 63" and "\<not> isdigit c"
  obtains d ds where "show_nat n @ c # cs = d # ds" and "isdigit d" and "\<not> isblank d" and "d \<noteq> CHR ''}''"
    and "strtol (d # ds) = (Some n, c # cs)"
proof -
  obtain d ds where d: "show_nat n = d # ds" "isdigit d"
    using show_nat_digits[of n] by (cases "show_nat n") auto
  have "\<not> isblank d" "d \<noteq> CHR ''}''"
    using d(2) by (auto simp: isdigit_def isblank_def)
  then show thesis
    using that[of d "ds @ c # cs"] d strtol_show_nat[OF assms(2,1), of cs] by simp
qed

lemma vc_parse_pair:
  assumes i: "i < VCLOCK_MAX" and l: "0 \<le> sint (l :: i64)" and g: "sint (vclock_get v i) \<le> 0"
    and r: "\<not> isdigit c"
  shows "\<exists>k'. vc_parse Key (show_nat i @ '': '' @ show_int (sint l) @ c # cs) k v =
    vc_parse Comma (c # cs) k' (fill_component v i l)"
proof -
  let ?num = "show_nat (nat (sint l)) @ c # cs"
  have lt: "nat (sint l) < 2 ^ 63" using sint_lt[of l] l by (simp add: nat_less_iff)
  have lw: "of_nat (nat (sint l)) = l" using l by simp
  obtain d ds where d: "?num = d # ds" "isdigit d" "\<not> isblank d" "strtol (d # ds) = (Some (nat (sint l)), c # cs)"
    by (rule parse_number[OF lt r]) blast
  have i2: "i < 2 ^ 63" using i by (simp add: VCLOCK_MAX_def)
  have nd: "\<not> isdigit CHR '':''" by (simp add: isdigit_def)
  obtain e es where e: "show_nat i @ CHR '':'' # CHR '' '' # ?num = e # es" "isdigit e"
      "strtol (e # es) = (Some i, CHR '':'' # CHR '' '' # ?num)"
    by (rule parse_number[OF i2 nd, of "CHR '' '' # ?num"]) blast
  have val: "\<exists>k'. vc_parse (Val i) (d # ds) k v = vc_parse Comma (c # cs) k' (fill_component v i l)" for k
    using d(2,3,4) i g by (auto simp: vc_parse.simps(4) fill_component_def lw)
  have blank: "vc_parse (Val i) (CHR '' '' # ?num) k v = vc_parse (Val i) ?num (k + 1) v" for k
    by (subst vc_parse.simps(4)) (simp add: isblank_def)
  have sep: "vc_parse (Sep i) (CHR '':'' # CHR '' '' # ?num) k v = vc_parse (Val i) (CHR '' '' # ?num) (k + 1) v" for k
    by (subst vc_parse.simps(3)) simp
  have key: "\<exists>k'. vc_parse Key (e # es) k v = vc_parse (Sep i) (CHR '':'' # CHR '' '' # ?num) k' v"
    using e(2,3) i by (auto simp: vc_parse.simps(2))
  have "show_nat i @ '': '' @ show_int (sint l) @ c # cs = e # es"
    using e(1) l by (simp add: show_int_def)
  then show ?thesis
    using key sep blank val d(1) by metis
qed

lemma vclock_get_fill [simp]:
  assumes "vclock_wf v" and "i < VCLOCK_MAX"
  shows "vclock_get (fill_component v i l) j = (if j = i then l else vclock_get v j)"
    and "vclock_wf (fill_component v i l)"
  using assms vclock_get_update[OF assms] by (simp_all add: fill_component_def vclock_wf_def)

lemma vc_parse_components:
  assumes "vclock_wf v" and "distinct (map c_id cs)"
    and "\<And>c. c \<in> set cs \<Longrightarrow> c_id c < VCLOCK_MAX \<and> 0 \<le> sint (c_lsn c) \<and> sint (vclock_get v (c_id c)) \<le> 0"
  shows "vc_parse Comma (vclock_snprint_loop '', '' cs @ ''}'') k v =
    (None, (fill_components v cs)\<lparr>vc_signature := vclock_calc_sum (fill_components v cs)\<rparr>)"
  using assms
proof (induction cs arbitrary: v k)
  case Nil
  have "\<not> isspace CHR ''}''" by (simp add: isspace_def isblank_def)
  then show ?case by (simp add: vc_parse.simps(5)[of "[CHR ''}'']"] vc_parse.simps(6)[of "[]"])
next
  case (Cons c cs)
  have c: "c_id c < VCLOCK_MAX" "0 \<le> sint (c_lsn c)" "sint (vclock_get v (c_id c)) \<le> 0"
    using Cons.prems(3)[of c] by auto
  obtain x xs where x: "vclock_snprint_loop '', '' cs @ ''}'' = x # xs" "\<not> isdigit x"
    by (cases cs) (auto simp: isdigit_def)
  let ?body = "show_nat (c_id c) @ '': '' @ show_int (sint (c_lsn c)) @ x # xs"
  have key: "vc_parse Comma (CHR '','' # CHR '' '' # ?body) k v = vc_parse Key (CHR '' '' # ?body) (k + 1) v"
    by (subst vc_parse.simps(5)) (simp add: isspace_def isblank_def)
  have blank: "vc_parse Key (CHR '' '' # ?body) (k + 1) v = vc_parse Key ?body (k + 2) v"
    by (subst vc_parse.simps(2)) (simp add: isblank_def isdigit_def)
  obtain k' where k': "vc_parse Key ?body (k + 2) v = vc_parse Comma (x # xs) k' (fill_component v (c_id c) (c_lsn c))"
    using vc_parse_pair[OF c x(2)] by blast
  have "vc_parse Comma (vclock_snprint_loop '', '' cs @ ''}'') k' (fill_component v (c_id c) (c_lsn c)) =
    (None, (fill_components v (c # cs))\<lparr>vc_signature := vclock_calc_sum (fill_components v (c # cs))\<rparr>)"
    unfolding fill_components.simps
  proof (rule Cons.IH)
    show "vclock_wf (fill_component v (c_id c) (c_lsn c))" using Cons.prems(1) c(1) by simp
    show "distinct (map c_id cs)" using Cons.prems(2) by simp
    fix e assume e: "e \<in> set cs"
    then have "c_id e \<noteq> c_id c" using Cons.prems(2) by (force simp: image_iff)
    then show "c_id e < VCLOCK_MAX \<and> 0 \<le> sint (c_lsn e) \<and>
        sint (vclock_get (fill_component v (c_id c) (c_lsn c)) (c_id e)) \<le> 0"
      using Cons.prems(1,3) e c(1) by simp
  qed
  then show ?case
    using key blank k' x(1) by (simp del: fill_components.simps)
qed

lemma fill_components_get:
  assumes "vclock_wf v" and "\<And>c. c \<in> set cs \<Longrightarrow> c_id c < VCLOCK_MAX" and "distinct (map c_id cs)"
  shows "vclock_wf (fill_components v cs) \<and>
    vc_map (fill_components v cs) = fold (\<lambda>c m. m OR push_bit (c_id c) 1) cs (vc_map v) \<and>
    (\<forall>i. i \<notin> c_id ` set cs \<longrightarrow> vclock_get (fill_components v cs) i = vclock_get v i) \<and>
    (\<forall>c\<in>set cs. vclock_get (fill_components v cs) (c_id c) = c_lsn c)"
  using assms
proof (induction cs arbitrary: v)
  case Nil
  then show ?case by simp
next
  case (Cons c cs)
  let ?v = "fill_component v (c_id c) (c_lsn c)"
  have c: "c_id c < VCLOCK_MAX" using Cons.prems(2) by simp
  have v: "vclock_wf ?v" "\<And>j. vclock_get ?v j = (if j = c_id c then c_lsn c else vclock_get v j)"
    using Cons.prems(1) c by simp_all
  have nin: "c_id c \<notin> c_id ` set cs" using Cons.prems(3) by simp
  have ih: "vclock_wf (fill_components ?v cs)"
    "vc_map (fill_components ?v cs) = fold (\<lambda>c m. m OR push_bit (c_id c) 1) cs (vc_map ?v)"
    "\<forall>i. i \<notin> c_id ` set cs \<longrightarrow> vclock_get (fill_components ?v cs) i = vclock_get ?v i"
    "\<forall>c\<in>set cs. vclock_get (fill_components ?v cs) (c_id c) = c_lsn c"
    using Cons.IH[OF v(1)] Cons.prems(2,3) by auto
  have vm: "vc_map ?v = vc_map v OR push_bit (c_id c) 1" by (simp add: fill_component_def)
  show ?case
    using ih nin by (auto simp: v(2) vm)
qed

lemma bit_fold_or:
  "(\<And>c. c \<in> set cs \<Longrightarrow> c_id c < 32) \<Longrightarrow>
     bit (fold (\<lambda>c m. m OR push_bit (c_id c) 1) cs (m :: u32)) i \<longleftrightarrow> bit m i \<or> i \<in> c_id ` set cs"
  by (induction cs arbitrary: m) (auto simp: bit_map_or_push simp del: push_bit_of_1)

lemma vc_parse_snprint:
  assumes "vclock_wf w" and "distinct (map c_id cs)"
    and "\<And>c. c \<in> set cs \<Longrightarrow> c_id c < VCLOCK_MAX \<and> 0 \<le> sint (c_lsn c) \<and> sint (vclock_get w (c_id c)) \<le> 0"
  shows "vc_parse Begin (''{'' @ vclock_snprint_loop '''' cs @ ''}'') 0 w =
    (None, (fill_components w cs)\<lparr>vc_signature := vclock_calc_sum (fill_components w cs)\<rparr>)"
proof (cases cs)
  case Nil
  then show ?thesis
    by (simp add: vc_parse.simps(1)[of "''{}''"] vc_parse.simps(2)[of "''}''"] vc_parse.simps(6)[of "[]"] isdigit_def)
next
  case (Cons c ds)
  have c: "c_id c < VCLOCK_MAX" "0 \<le> sint (c_lsn c)" "sint (vclock_get w (c_id c)) \<le> 0"
    using assms(3)[of c] Cons by auto
  obtain x xs where x: "vclock_snprint_loop '', '' ds @ ''}'' = x # xs" "\<not> isdigit x"
    by (cases ds) (auto simp: isdigit_def)
  let ?body = "show_nat (c_id c) @ '': '' @ show_int (sint (c_lsn c)) @ x # xs"
  have start: "vc_parse Begin (CHR ''{'' # ?body) 0 w = vc_parse Key ?body 1 w"
    by (subst vc_parse.simps(1)) simp
  obtain k' where k': "vc_parse Key ?body 1 w = vc_parse Comma (x # xs) k' (fill_component w (c_id c) (c_lsn c))"
    using vc_parse_pair[OF c x(2)] by blast
  have "vc_parse Comma (vclock_snprint_loop '', '' ds @ ''}'') k' (fill_component w (c_id c) (c_lsn c)) =
    (None, (fill_components w cs)\<lparr>vc_signature := vclock_calc_sum (fill_components w cs)\<rparr>)"
    unfolding Cons fill_components.simps
  proof (rule vc_parse_components)
    show "vclock_wf (fill_component w (c_id c) (c_lsn c))" using assms(1) c(1) by simp
    show "distinct (map c_id ds)" using assms(2) Cons by simp
    fix e assume e: "e \<in> set ds"
    then have "c_id e \<noteq> c_id c" using assms(2) Cons by (force simp: image_iff)
    then show "c_id e < VCLOCK_MAX \<and> 0 \<le> sint (c_lsn e) \<and>
        sint (vclock_get (fill_component w (c_id c) (c_lsn c)) (c_id e)) \<le> 0"
      using assms(1,3) e c(1) Cons by simp
  qed
  then show ?thesis
    using start k' x(1) Cons by (simp del: fill_components.simps)
qed

lemma vclock_components_ok:
  shows "distinct (map c_id (vclock_foreach v))"
    and "c \<in> set (vclock_foreach v) \<Longrightarrow> c_id c < VCLOCK_MAX \<and> c_lsn c = vclock_get v (c_id c)"
    and "c_id ` set (vclock_foreach v) = {i. bit (vc_map v) i}"
  using sorted_word_bits[of "vc_map v"]
  by (auto simp: vclock_foreach_eq strict_sorted_iff o_def set_word_bits VCLOCK_MAX_def image_image dest: bit_imp_le_length)

section \<open>Properties\<close>

text \<open>
  C29. Printing a vector clock with no negative component and parsing the text into a freshly
  created clock succeeds (result 0) and gives back the same component map, the same value of
  every component and a signature equal to the sum of the components.
\<close>

theorem vclock_text_roundtrip:
  assumes "vclock_wf v0" and "\<And>i. i < VCLOCK_MAX \<Longrightarrow> 0 \<le> sint (vclock_get v i)"
  shows "\<exists>v'. vclock_from_string (vclock_create v0) (vclock_to_string v) = (0, v') \<and>
    vc_map v' = vc_map v \<and> (\<forall>i. vclock_get v' i = vclock_get v i) \<and> vclock_sum_ok v'"
proof -
  let ?w = "vclock_create v0" and ?cs = "vclock_foreach v"
  have w: "vclock_wf ?w" "vc_map ?w = 0" using vclock_create_ok[OF assms(1)] by (auto simp: vclock_create_def)
  note ok = vclock_components_ok[where v = v]
  have lt: "\<And>c. c \<in> set ?cs \<Longrightarrow> c_id c < VCLOCK_MAX" using ok(2) by blast
  have pre: "c_id c < VCLOCK_MAX \<and> 0 \<le> sint (c_lsn c) \<and> sint (vclock_get ?w (c_id c)) \<le> 0"
    if "c \<in> set ?cs" for c
    using ok(2)[OF that] assms(2)[of "c_id c"] w(2) by (simp add: vclock_get_cases)
  let ?f = "fill_components ?w ?cs"
  have f: "vclock_wf ?f" "vc_map ?f = fold (\<lambda>c m. m OR push_bit (c_id c) 1) ?cs (vc_map ?w)"
    "\<forall>i. i \<notin> c_id ` set ?cs \<longrightarrow> vclock_get ?f i = vclock_get ?w i"
    "\<forall>c\<in>set ?cs. vclock_get ?f (c_id c) = c_lsn c"
    using fill_components_get[OF w(1) lt ok(1)] by blast+
  let ?v' = "?f\<lparr>vc_signature := vclock_calc_sum ?f\<rparr>"
  have "vclock_from_string ?w (vclock_to_string v) = (0, ?v')"
    using vc_parse_snprint[OF w(1) ok(1) pre]
    by (simp add: vclock_from_string_def vclock_to_string_def vclock_snprint_def)
  moreover have "vc_map ?f = vc_map v"
  proof (rule bit_word_eqI)
    fix i
    show "bit (vc_map ?f) i = bit (vc_map v) i"
      unfolding f(2) using bit_fold_or[of ?cs "vc_map ?w" i] lt ok(3) w(2) by (auto simp: VCLOCK_MAX_def)
  qed
  moreover have g: "vclock_get ?f i = vclock_get v i" for i
  proof (cases "bit (vc_map v) i")
    case True
    then obtain c where "c \<in> set ?cs" "c_id c = i" using ok(3) by (metis (mono_tags) imageE mem_Collect_eq)
    then show ?thesis using f(4) ok(2) by metis
  next
    case False
    then have "i \<notin> c_id ` set ?cs" using ok(3) by blast
    then show ?thesis using f(3) False w(2) by (simp add: vclock_get_cases)
  qed
  moreover have "vclock_get ?v' i = vclock_get ?f i" for i by (simp add: vclock_get_def)
  ultimately show ?thesis
    by (intro exI[of _ ?v']) (simp add: vclock_sum_ok_def vclock_calc_sum_eq)
qed


theorem vclock_text_roundtrip_witness:
  "\<exists>v'. vclock_from_string (vclock_create zero_vclock) (vclock_to_string (pair_vclock 5 10)) = (0, v') \<and>
     vclock_get v' 2 = 10"
proof -
  have "0 \<le> sint (vclock_get (pair_vclock 5 10) i)" for i
    by (simp add: pair_vclock_get)
  then obtain v' where "vclock_from_string (vclock_create zero_vclock) (vclock_to_string (pair_vclock 5 10)) = (0, v')"
      "\<forall>i. vclock_get v' i = vclock_get (pair_vclock 5 10) i"
    using vclock_text_roundtrip[OF zero_vclock_wf, of "pair_vclock 5 10"] by blast
  then show ?thesis by (auto simp: pair_vclock_get)
qed

end
