(* ===== verification/Raft.thy ===== *)
theory Raft
  imports Vclock_Text
begin

text \<open>
  The leader election state machine, \<^verbatim>\<open>src/src/lib/raft/raft.h\<close> and \<^verbatim>\<open>raft.c\<close>.
  One definition per function of the source, in an order in which callees come first.  A function
  returns \<^const>\<open>None\<close> where one of its assertions fails (or a null clock is dereferenced).
  What the node does to its environment through the virtual table and the update triggers is
  recorded in the field \<open>r_events\<close>, oldest first.
  Timeouts are real numbers (the source's \<^verbatim>\<open>double\<close>); the value of \<^verbatim>\<open>rand()\<close> and the
  remaining time reported by libev are arguments.  Logging and the context switch counters are
  left out.
\<close>

unbundle bit_operations_syntax

section \<open>State\<close>

datatype raft_state = FOLLOWER | CANDIDATE | LEADER

primrec raft_state_code :: "raft_state \<Rightarrow> u64" where
  "raft_state_code FOLLOWER = 1"
| "raft_state_code CANDIDATE = 2"
| "raft_state_code LEADER = 3"

definition raft_state_MAX :: u64 where
  "raft_state_MAX = 4"

definition raft_state_str :: "u64 \<Rightarrow> string" where
  "raft_state_str st =
     (if st < 4 then
        [''invalid (0)'', ''follower'', ''candidate'', ''leader''] ! unat st
      else ''invalid (x)'')"

record raft_msg =
  m_term :: u64
  m_vote :: u32
  m_state :: u64
  m_vclock :: "vclock option"

datatype raft_event =
    EvUpdate
  | EvScheduleAsync
  | EvBroadcast raft_msg
  | EvWrite raft_msg

record raft_timer =
  t_active :: bool
  t_after :: real
  t_repeat :: real

record raft =
  r_self :: u32
  r_leader :: u32
  r_state :: raft_state
  r_volatile_term :: u64
  r_volatile_vote :: u32
  r_is_enabled :: bool
  r_is_candidate :: bool
  r_is_cfg_candidate :: bool
  r_is_write_in_progress :: bool
  r_is_broadcast_scheduled :: bool
  r_term :: u64
  r_vote :: u32
  r_vote_mask :: u32
  r_vote_count :: int
  r_election_quorum :: int
  r_vclock :: "vclock option"
  r_timer :: raft_timer
  r_election_timeout :: real
  r_death_timeout :: real
  r_events :: "raft_event list"

definition raft_is_ro :: "raft \<Rightarrow> bool" where
  "raft_is_ro r \<longleftrightarrow> r_is_enabled r \<and> r_state r \<noteq> LEADER"

definition raft_emit :: "raft_event \<Rightarrow> raft \<Rightarrow> raft" where
  "raft_emit e r = r\<lparr>r_events := r_events r @ [e]\<rparr>"

definition raft_broadcast :: "raft_msg \<Rightarrow> raft \<Rightarrow> raft" where
  "raft_broadcast req r = raft_emit (EvBroadcast req) r"

text \<open>
  \<^verbatim>\<open>raft_write\<close> may yield.  The argument \<open>w\<close> is what the other fibers did to the node
  between the start and the end of the disk write.
\<close>

definition raft_write :: "(raft_msg \<Rightarrow> raft \<Rightarrow> raft) \<Rightarrow> raft_msg \<Rightarrow> raft \<Rightarrow> raft" where
  "raft_write w req r = w req (raft_emit (EvWrite req) r)"

definition raft_schedule_async :: "raft \<Rightarrow> raft" where
  "raft_schedule_async r = raft_emit EvScheduleAsync r"

definition raft_ev_timer_stop :: "raft \<Rightarrow> raft" where
  "raft_ev_timer_stop r = r\<lparr>r_timer := (r_timer r)\<lparr>t_active := False\<rparr>\<rparr>"

definition raft_ev_timer_set :: "real \<Rightarrow> real \<Rightarrow> raft \<Rightarrow> raft" where
  "raft_ev_timer_set after rpt r = r\<lparr>r_timer := (r_timer r)\<lparr>t_after := after, t_repeat := rpt\<rparr>\<rparr>"

definition raft_ev_timer_start :: "raft \<Rightarrow> raft" where
  "raft_ev_timer_start r = r\<lparr>r_timer := (r_timer r)\<lparr>t_active := True\<rparr>\<rparr>"

section \<open>Operations\<close>

definition raft_is_fully_on_disk :: "raft \<Rightarrow> bool" where
  "raft_is_fully_on_disk r \<longleftrightarrow> r_volatile_term r = r_term r \<and> r_volatile_vote r = r_vote r"

text \<open>The conversion to \<^verbatim>\<open>uint32_t\<close> of a millisecond count, and \<^verbatim>\<open>rand() %\<close> the range.\<close>

definition raft_new_random_election_shift :: "nat \<Rightarrow> raft \<Rightarrow> real" where
  "raft_new_random_election_shift rnd r =
     (let timeout = r_election_timeout r;
          rand_part0 = nat \<lfloor>timeout * (1 / 10) * 1000\<rfloor> mod 2 ^ 32;
          rand_part1 = (if rand_part0 = 0 then 1 else rand_part0);
          rand_part = rnd mod ((rand_part1 + 1) mod 2 ^ 32)
      in real rand_part / 1000)"

definition raft_can_vote_for :: "raft \<Rightarrow> vclock \<Rightarrow> bool option" where
  "raft_can_vote_for r v =
     (case r_vclock r of
        None \<Rightarrow> None
      | Some own \<Rightarrow> (let cmp = vclock_compare_ignore0 v own in Some (cmp = 0 \<or> cmp = 1)))"

definition raft_msg_to_string :: "raft_msg \<Rightarrow> string" where
  "raft_msg_to_string req =
     ''{term: '' @ show_nat (unat (m_term req)) @
     (if m_vote req \<noteq> 0 then '', vote: '' @ show_nat (unat (m_vote req)) else '''') @
     (if m_state req \<noteq> 0 then '', state: '' @ raft_state_str (m_state req) else '''') @
     (case m_vclock req of None \<Rightarrow> '''' | Some v \<Rightarrow> '', vclock: '' @ vclock_to_string v) @
     ''}''"

definition raft_schedule_broadcast :: "raft \<Rightarrow> raft" where
  "raft_schedule_broadcast r =
     raft_schedule_async ((raft_emit EvUpdate r)\<lparr>r_is_broadcast_scheduled := True\<rparr>)"

definition raft_sm_wait_leader_dead :: "raft \<Rightarrow> raft option" where
  "raft_sm_wait_leader_dead r = do {
     r \<leftarrow> c_assert (\<not> t_active (r_timer r)) r;
     r \<leftarrow> c_assert (\<not> r_is_write_in_progress r) r;
     r \<leftarrow> c_assert (r_is_candidate r) r;
     r \<leftarrow> c_assert (r_state r = FOLLOWER) r;
     r \<leftarrow> c_assert (r_leader r \<noteq> 0) r;
     Some (raft_ev_timer_start (raft_ev_timer_set (r_death_timeout r) (r_death_timeout r) r))
   }"

definition raft_sm_wait_leader_found :: "raft \<Rightarrow> raft option" where
  "raft_sm_wait_leader_found r = do {
     r \<leftarrow> c_assert (\<not> t_active (r_timer r)) r;
     r \<leftarrow> c_assert (\<not> r_is_write_in_progress r) r;
     r \<leftarrow> c_assert (r_is_candidate r) r;
     r \<leftarrow> c_assert (r_state r = FOLLOWER) r;
     r \<leftarrow> c_assert (r_leader r = 0) r;
     Some (raft_ev_timer_start (raft_ev_timer_set (r_death_timeout r) (r_death_timeout r) r))
   }"

definition raft_sm_wait_election_end :: "nat \<Rightarrow> raft \<Rightarrow> raft option" where
  "raft_sm_wait_election_end rnd r = do {
     r \<leftarrow> c_assert (\<not> t_active (r_timer r)) r;
     r \<leftarrow> c_assert (\<not> r_is_write_in_progress r) r;
     r \<leftarrow> c_assert (r_is_candidate r) r;
     r \<leftarrow> c_assert (r_state r = FOLLOWER \<or>
                    (r_state r = CANDIDATE \<and> r_volatile_vote r = r_self r)) r;
     r \<leftarrow> c_assert (r_leader r = 0) r;
     let election_timeout = r_election_timeout r + raft_new_random_election_shift rnd r;
     Some (raft_ev_timer_start (raft_ev_timer_set election_timeout election_timeout r))
   }"

definition raft_sm_pause_and_dump :: "raft \<Rightarrow> raft option" where
  "raft_sm_pause_and_dump r = do {
     r \<leftarrow> c_assert (r_state r = FOLLOWER) r;
     if r_is_write_in_progress r then Some r
     else Some ((raft_schedule_async (raft_ev_timer_stop r))\<lparr>r_is_write_in_progress := True\<rparr>)
   }"

definition raft_sm_become_leader :: "raft \<Rightarrow> raft option" where
  "raft_sm_become_leader r = do {
     r \<leftarrow> c_assert (r_state r \<noteq> LEADER) r;
     r \<leftarrow> c_assert (r_leader r = 0) r;
     r \<leftarrow> c_assert (r_is_candidate r) r;
     r \<leftarrow> c_assert (\<not> r_is_write_in_progress r) r;
     let r = r\<lparr>r_state := LEADER, r_leader := r_self r\<rparr>;
     Some (raft_schedule_broadcast (raft_ev_timer_stop r))
   }"

definition raft_sm_follow_leader :: "u32 \<Rightarrow> raft \<Rightarrow> raft option" where
  "raft_sm_follow_leader leader r = do {
     r \<leftarrow> c_assert (r_state r \<noteq> LEADER) r;
     r \<leftarrow> c_assert (r_leader r = 0) r;
     let r = r\<lparr>r_state := FOLLOWER, r_leader := leader\<rparr>;
     r \<leftarrow> (if \<not> r_is_write_in_progress r \<and> r_is_candidate r
          then raft_sm_wait_leader_dead (raft_ev_timer_stop r)
          else Some r);
     Some (raft_schedule_broadcast r)
   }"

text \<open>
  \<^verbatim>\<open>bit_set\<close> on the 32-bit vote mask.  An instance id of 32 or more is out of the mask: the write would
  hit the fields that follow it.
\<close>

definition vote_mask_set :: "u32 \<Rightarrow> u32 \<Rightarrow> (bool \<times> u32) option" where
  "vote_mask_set m i =
     (if i < 32 then let (prev, bytes) = bit_set (store_u32 m) (unat i) in Some (prev, load_u32 bytes)
      else None)"

definition raft_sm_become_candidate :: "nat \<Rightarrow> raft \<Rightarrow> raft option" where
  "raft_sm_become_candidate rnd r = do {
     r \<leftarrow> c_assert (r_state r = FOLLOWER) r;
     r \<leftarrow> c_assert (r_leader r = 0) r;
     r \<leftarrow> c_assert (r_vote r = r_self r) r;
     r \<leftarrow> c_assert (r_is_candidate r) r;
     r \<leftarrow> c_assert (\<not> r_is_write_in_progress r) r;
     r \<leftarrow> c_assert (r_election_quorum r > 1) r;
     let r = r\<lparr>r_state := CANDIDATE, r_vote_count := 1\<rparr>;
     (was_set, vmask) \<leftarrow> vote_mask_set 0 (r_self r);
     let r = r\<lparr>r_vote_mask := vmask\<rparr>;
     r \<leftarrow> raft_sm_wait_election_end rnd r;
     Some (raft_schedule_broadcast r)
   }"

definition raft_start_candidate :: "raft \<Rightarrow> raft option" where
  "raft_start_candidate r = do {
     r \<leftarrow> c_assert (r_is_enabled r) r;
     if r_is_candidate r then Some r
     else do {
       r \<leftarrow> c_assert (r_state r = FOLLOWER) r;
       let r = r\<lparr>r_is_candidate := True\<rparr>;
       if r_is_write_in_progress r then Some r
       else if r_leader r \<noteq> 0 then raft_sm_wait_leader_dead r
       else raft_sm_wait_leader_found r
     }
   }"

definition raft_stop_candidate :: "raft \<Rightarrow> raft" where
  "raft_stop_candidate r =
     (if \<not> r_is_candidate r then r
      else
        let r = raft_ev_timer_stop (r\<lparr>r_is_candidate := False\<rparr>);
            r = (if r_state r = LEADER then r\<lparr>r_leader := 0\<rparr> else r)
        in raft_schedule_broadcast (r\<lparr>r_state := FOLLOWER\<rparr>))"

definition raft_set_candidate :: "bool \<Rightarrow> raft \<Rightarrow> raft option" where
  "raft_set_candidate is_candidate r =
     (if is_candidate then raft_start_candidate r else Some (raft_stop_candidate r))"

definition raft_restore :: "raft \<Rightarrow> raft option" where
  "raft_restore r = raft_set_candidate (r_is_cfg_candidate r \<and> r_is_enabled r) r"

definition raft_sm_schedule_new_term :: "u64 \<Rightarrow> raft \<Rightarrow> raft option" where
  "raft_sm_schedule_new_term new_term r = do {
     r \<leftarrow> c_assert (new_term > r_volatile_term r) r;
     r \<leftarrow> c_assert (r_volatile_term r \<ge> r_term r) r;
     let r = r\<lparr>r_volatile_term := new_term, r_volatile_vote := 0, r_leader := 0,
               r_state := FOLLOWER\<rparr>;
     r \<leftarrow> raft_restore r;
     r \<leftarrow> raft_sm_pause_and_dump r;
     Some (raft_schedule_broadcast r)
   }"

definition raft_sm_schedule_new_vote :: "u32 \<Rightarrow> raft \<Rightarrow> raft option" where
  "raft_sm_schedule_new_vote new_vote r = do {
     r \<leftarrow> c_assert (r_volatile_vote r = 0) r;
     r \<leftarrow> c_assert (r_leader r = 0) r;
     r \<leftarrow> c_assert (r_state r = FOLLOWER) r;
     raft_sm_pause_and_dump (r\<lparr>r_volatile_vote := new_vote\<rparr>)
   }"

definition raft_sm_schedule_new_election :: "raft \<Rightarrow> raft option" where
  "raft_sm_schedule_new_election r = do {
     r \<leftarrow> c_assert (r_is_candidate r) r;
     r \<leftarrow> raft_sm_schedule_new_term (r_volatile_term r + 1) r;
     raft_sm_schedule_new_vote (r_self r) r
   }"

definition raft_sm_schedule_new_election_cb :: "raft \<Rightarrow> raft option" where
  "raft_sm_schedule_new_election_cb r = do {
     r \<leftarrow> c_assert (raft_is_fully_on_disk r) r;
     raft_sm_schedule_new_election (raft_ev_timer_stop r)
   }"

definition raft_process_recovery :: "raft_msg \<Rightarrow> raft \<Rightarrow> raft option" where
  "raft_process_recovery req r = (
     let r = (if m_term req \<noteq> 0
              then r\<lparr>r_term := m_term req, r_volatile_term := m_term req\<rparr> else r);
         r = (if m_vote req \<noteq> 0
              then r\<lparr>r_vote := m_vote req, r_volatile_vote := m_vote req\<rparr> else r)
     in do {
       r \<leftarrow> c_assert (m_state req = 0) r;
       r \<leftarrow> c_assert (m_vclock req = None) r;
       c_assert (\<not> r_is_enabled r) r
     })"

text \<open>The \<^verbatim>\<open>switch\<close> of \<^verbatim>\<open>raft_process_msg\<close> on a message that carries a vote.\<close>

definition raft_process_vote :: "raft_msg \<Rightarrow> u32 \<Rightarrow> raft \<Rightarrow> raft option" where
  "raft_process_vote req source r =
     (if r_state r = FOLLOWER \<or> r_state r = LEADER then
        if \<not> r_is_enabled r then Some r
        else if r_leader r \<noteq> 0 then Some r
        else if m_vote req = r_self r then Some r
        else if m_state req \<noteq> raft_state_code CANDIDATE then Some r
        else if r_volatile_vote r \<noteq> 0 then Some r
        else (case m_vclock req of
                None \<Rightarrow> None
              | Some v \<Rightarrow> raft_can_vote_for r v \<bind>
                  (\<lambda>can. if \<not> can then Some r
                         else raft_sm_schedule_new_vote (m_vote req) r))
      else
        if m_vote req \<noteq> r_self r then Some r
        else do {
          r \<leftarrow> c_assert (r_volatile_vote r = r_self r) r;
          (was_set, vmask) \<leftarrow> vote_mask_set (r_vote_mask r) source;
          let r = r\<lparr>r_vote_mask := vmask,
                    r_vote_count := r_vote_count r + (if was_set then 0 else 1)\<rparr>;
          if r_vote_count r < r_election_quorum r then Some r
          else raft_sm_become_leader r
        })"

text \<open>The part of \<^verbatim>\<open>raft_process_msg\<close> after the votes: who is the leader.\<close>

definition raft_process_leadership :: "raft_msg \<Rightarrow> u32 \<Rightarrow> raft \<Rightarrow> raft option" where
  "raft_process_leadership req source r =
     (if m_state req \<noteq> raft_state_code LEADER then
        if source = r_leader r then
          let r = r\<lparr>r_leader := 0\<rparr>
          in if r_is_candidate r then raft_sm_schedule_new_election r else Some r
        else Some r
      else if source = r_leader r then Some r
      else if r_leader r \<noteq> 0 then Some r
      else raft_sm_follow_leader source r)"

text \<open>The result is the return code (-1 for an invalid message) and the new state.\<close>

definition raft_process_msg :: "raft_msg \<Rightarrow> u32 \<Rightarrow> raft \<Rightarrow> (int \<times> raft) option" where
  "raft_process_msg req source r = do {
     r \<leftarrow> c_assert (source > 0) r;
     r \<leftarrow> c_assert (source \<noteq> r_self r) r;
     if m_term req = 0 \<or> m_state req = 0 \<or> m_state req \<ge> raft_state_MAX then Some (- 1, r)
     else if m_state req = raft_state_code CANDIDATE \<and>
             (m_vote req \<noteq> source \<or> m_vclock req = None) then Some (- 1, r)
     else if m_term req < r_volatile_term r then Some (0, r)
     else do {
       r \<leftarrow> (if m_term req > r_volatile_term r
            then raft_sm_schedule_new_term (m_term req) r else Some r);
       r \<leftarrow> (if m_vote req \<noteq> 0 then raft_process_vote req source r else Some r);
       r \<leftarrow> raft_process_leadership req source r;
       Some (0, r)
     }
   }"

definition raft_process_heartbeat :: "u32 \<Rightarrow> raft \<Rightarrow> raft option" where
  "raft_process_heartbeat source r =
     (if source = 0 then Some r
      else if \<not> r_is_candidate r then Some r
      else if r_state r = LEADER then Some r
      else if r_leader r \<noteq> source then Some r
      else if r_is_write_in_progress r then Some r
      else do {
        r \<leftarrow> c_assert (t_active (r_timer r)) r;
        raft_sm_wait_leader_dead (raft_ev_timer_stop r)
      })"

subsection \<open>The worker\<close>

text \<open>The block under the label \<^verbatim>\<open>end_dump\<close> of \<^verbatim>\<open>raft_worker_handle_io\<close>.\<close>

definition raft_io_end_dump :: "nat \<Rightarrow> raft \<Rightarrow> raft option" where
  "raft_io_end_dump rnd r =
     (let r = r\<lparr>r_is_write_in_progress := False\<rparr>
      in if \<not> r_is_candidate r then Some r
         else if r_leader r \<noteq> 0 then raft_sm_wait_leader_dead r
         else if r_vote r = r_self r then
           if r_election_quorum r = 1 then raft_sm_become_leader r
           else raft_sm_become_candidate rnd r
         else if r_vote r \<noteq> 0 then raft_sm_wait_election_end rnd r
         else raft_sm_schedule_new_vote (r_self r) r)"

definition raft_io_request :: "raft \<Rightarrow> raft_msg" where
  "raft_io_request r =
     \<lparr>m_term = r_volatile_term r, m_vote = r_volatile_vote r, m_state = 0, m_vclock = None\<rparr>"

text \<open>What follows the return from \<^verbatim>\<open>raft_write\<close>.\<close>

definition raft_io_persisted :: "nat \<Rightarrow> raft_msg \<Rightarrow> raft \<Rightarrow> raft option" where
  "raft_io_persisted rnd req r = do {
     r \<leftarrow> c_assert (m_term req \<ge> r_term r) r;
     let r = raft_schedule_broadcast (r\<lparr>r_term := m_term req, r_vote := m_vote req\<rparr>);
     if raft_is_fully_on_disk r then raft_io_end_dump rnd r else Some r
   }"

definition raft_worker_handle_io ::
    "(raft_msg \<Rightarrow> raft \<Rightarrow> raft) \<Rightarrow> nat \<Rightarrow> raft \<Rightarrow> raft option" where
  "raft_worker_handle_io w rnd r = do {
     r \<leftarrow> c_assert (r_is_write_in_progress r) r;
     r \<leftarrow> c_assert (r_state r = FOLLOWER) r;
     if raft_is_fully_on_disk r then raft_io_end_dump rnd r
     else do {
       r \<leftarrow> c_assert (r_volatile_term r \<ge> r_term r) r;
       let req = raft_io_request r;
       raft_io_persisted rnd req (raft_write w req r)
     }
   }"

text \<open>The message of \<^verbatim>\<open>raft_worker_handle_broadcast\<close> and \<^verbatim>\<open>raft_checkpoint_remote\<close>.\<close>

definition raft_checkpoint_remote :: "raft \<Rightarrow> raft_msg" where
  "raft_checkpoint_remote r =
     \<lparr>m_term = r_term r, m_vote = r_vote r, m_state = raft_state_code (r_state r),
      m_vclock = (if r_state r = CANDIDATE then r_vclock r else None)\<rparr>"

definition raft_checkpoint_local :: "raft \<Rightarrow> raft_msg" where
  "raft_checkpoint_local r =
     \<lparr>m_term = r_term r, m_vote = r_vote r, m_state = 0, m_vclock = None\<rparr>"

definition raft_worker_handle_broadcast :: "raft \<Rightarrow> raft option" where
  "raft_worker_handle_broadcast r = do {
     r \<leftarrow> c_assert (r_is_broadcast_scheduled r) r;
     r \<leftarrow> (if r_state r = CANDIDATE then c_assert (r_vote r = r_self r) r else Some r);
     let req = \<lparr>m_term = r_term r, m_vote = r_vote r, m_state = raft_state_code (r_state r),
                m_vclock = (if r_state r = CANDIDATE then r_vclock r else None)\<rparr>;
     Some ((raft_broadcast req r)\<lparr>r_is_broadcast_scheduled := False\<rparr>)
   }"

text \<open>
  The \<^verbatim>\<open>do ... while\<close> loop of \<^verbatim>\<open>raft_process_async\<close>.  The outer option is a failed
  assertion; the inner one is \<^const>\<open>None\<close> when the loop is cut before it went idle.
\<close>

fun raft_process_async ::
    "nat \<Rightarrow> (raft_msg \<Rightarrow> raft \<Rightarrow> raft) \<Rightarrow> nat \<Rightarrow> raft \<Rightarrow> raft option option" where
  "raft_process_async 0 w rnd r = Some None"
| "raft_process_async (Suc fuel) w rnd r = do {
     let wr = r_is_write_in_progress r;
     r \<leftarrow> (if wr then raft_worker_handle_io w rnd r else Some r);
     let bc = r_is_broadcast_scheduled r;
     r \<leftarrow> (if bc then raft_worker_handle_broadcast r else Some r);
     if wr \<or> bc then raft_process_async fuel w rnd r
     else map_option Some (c_assert (raft_is_fully_on_disk r) r)
   }"

subsection \<open>Start, stop and configuration\<close>

definition raft_sm_start :: "raft \<Rightarrow> raft option" where
  "raft_sm_start r = do {
     r \<leftarrow> c_assert (\<not> t_active (r_timer r)) r;
     r \<leftarrow> c_assert (\<not> r_is_enabled r) r;
     r \<leftarrow> c_assert (r_state r = FOLLOWER) r;
     let r = r\<lparr>r_is_enabled := True, r_is_candidate := r_is_cfg_candidate r\<rparr>;
     r \<leftarrow> (if r_is_write_in_progress r then Some r
          else if \<not> r_is_candidate r then Some r
          else if r_leader r \<noteq> 0 then raft_sm_wait_leader_dead r
          else raft_sm_wait_leader_found r);
     Some (raft_schedule_broadcast r)
   }"

definition raft_sm_stop :: "raft \<Rightarrow> raft option" where
  "raft_sm_stop r = do {
     r \<leftarrow> c_assert (r_is_enabled r) r;
     let r = r\<lparr>r_is_enabled := False, r_is_candidate := False\<rparr>;
     let r = (if r_state r = LEADER then r\<lparr>r_leader := 0\<rparr> else r);
     Some (raft_schedule_broadcast (raft_ev_timer_stop (r\<lparr>r_state := FOLLOWER\<rparr>)))
   }"

definition raft_cfg_is_enabled :: "bool \<Rightarrow> raft \<Rightarrow> raft option" where
  "raft_cfg_is_enabled is_enabled r =
     (if is_enabled = r_is_enabled r then Some r
      else if \<not> is_enabled then raft_sm_stop r
      else raft_sm_start r)"

definition raft_cfg_is_candidate :: "bool \<Rightarrow> raft \<Rightarrow> raft option" where
  "raft_cfg_is_candidate is_candidate r = raft_restore (r\<lparr>r_is_cfg_candidate := is_candidate\<rparr>)"

definition raft_promote :: "raft \<Rightarrow> raft option" where
  "raft_promote r =
     (if \<not> r_is_enabled r then Some r
      else raft_sm_schedule_new_term (r_volatile_term r + 1) r \<bind> raft_start_candidate)"

definition raft_cfg_election_timeout :: "real \<Rightarrow> real \<Rightarrow> raft \<Rightarrow> raft option" where
  "raft_cfg_election_timeout remaining timeout r =
     (let old_timeout = r_election_timeout r
      in if timeout = old_timeout then Some r
         else
           let r = r\<lparr>r_election_timeout := timeout\<rparr>
           in if r_vote r = 0 \<or> r_leader r \<noteq> 0 \<or> \<not> r_is_candidate r \<or> r_is_write_in_progress r
              then Some r
              else do {
                r \<leftarrow> c_assert (t_active (r_timer r)) r;
                let timeout' = max 0 (timeout + (remaining - old_timeout));
                Some (raft_ev_timer_start
                  (raft_ev_timer_set timeout' (r_election_timeout r) (raft_ev_timer_stop r)))
              })"

definition raft_cfg_election_quorum :: "int \<Rightarrow> raft \<Rightarrow> raft option" where
  "raft_cfg_election_quorum election_quorum r = do {
     r \<leftarrow> c_assert (election_quorum > 0) r;
     let r = r\<lparr>r_election_quorum := election_quorum\<rparr>;
     if r_state r = CANDIDATE \<and> r_vote_count r \<ge> r_election_quorum r
     then raft_sm_become_leader r else Some r
   }"

definition raft_cfg_death_timeout :: "real \<Rightarrow> real \<Rightarrow> raft \<Rightarrow> raft option" where
  "raft_cfg_death_timeout remaining timeout r =
     (let old_timeout = r_death_timeout r
      in if timeout = old_timeout then Some r
         else
           let r = r\<lparr>r_death_timeout := timeout\<rparr>
           in if r_state r \<noteq> FOLLOWER \<or> \<not> r_is_candidate r \<or> r_leader r = 0 then Some r
              else do {
                r \<leftarrow> c_assert (t_active (r_timer r)) r;
                let timeout' = max 0 (timeout + (remaining - old_timeout));
                Some (raft_ev_timer_start
                  (raft_ev_timer_set timeout' (r_death_timeout r) (raft_ev_timer_stop r)))
              })"

definition raft_cfg_instance_id :: "u32 \<Rightarrow> raft \<Rightarrow> raft option" where
  "raft_cfg_instance_id instance_id r = do {
     r \<leftarrow> c_assert (r_self r = 0) r;
     r \<leftarrow> c_assert (instance_id \<noteq> 0) r;
     Some (r\<lparr>r_self := instance_id\<rparr>)
   }"

definition raft_cfg_vclock :: "vclock \<Rightarrow> raft \<Rightarrow> raft option" where
  "raft_cfg_vclock v r = do {
     r \<leftarrow> c_assert (r_vclock r = None) r;
     Some (r\<lparr>r_vclock := Some v\<rparr>)
   }"

definition raft_new_term :: "raft \<Rightarrow> raft option" where
  "raft_new_term r = raft_sm_schedule_new_term (r_volatile_term r + 1) r"

definition raft_create :: raft where
  "raft_create =
     \<lparr>r_self = 0, r_leader = 0, r_state = FOLLOWER, r_volatile_term = 1, r_volatile_vote = 0,
      r_is_enabled = False, r_is_candidate = False, r_is_cfg_candidate = False,
      r_is_write_in_progress = False, r_is_broadcast_scheduled = False,
      r_term = 1, r_vote = 0, r_vote_mask = 0, r_vote_count = 0, r_election_quorum = 1,
      r_vclock = None, r_timer = \<lparr>t_active = False, t_after = 0, t_repeat = 0\<rparr>,
      r_election_timeout = 5, r_death_timeout = 5, r_events = []\<rparr>"

end
