(* ===== verification/Raft_Inv.thy ===== *)
theory Raft_Inv
  imports Raft
begin

text \<open>
  The invariant of one Raft node (\<^verbatim>\<open>src/src/lib/raft/raft.c\<close>) and, for every operation of the
  model \<^verbatim>\<open>Raft\<close>, the lemma that none of its assertions fails and that the invariant is kept.
\<close>
unbundle bit_operations_syntax

section \<open>The node invariant\<close>

definition raft_inv :: "raft \<Rightarrow> bool" where
  "raft_inv r \<longleftrightarrow>
     r_self r \<noteq> 0 \<and> r_vclock r \<noteq> None \<and> r_election_quorum r > 0 \<and>
     r_term r \<le> r_volatile_term r \<and>
     (r_volatile_term r = r_term r \<longrightarrow> r_vote r = 0 \<or> r_volatile_vote r = r_vote r) \<and>
     (\<not> r_is_write_in_progress r \<longrightarrow> raft_is_fully_on_disk r) \<and>
     (r_is_write_in_progress r \<longrightarrow> r_state r = FOLLOWER) \<and>
     (r_state r = LEADER \<longrightarrow> r_leader r = r_self r \<and> r_is_candidate r) \<and>
     (r_state r = CANDIDATE \<longrightarrow> r_leader r = 0 \<and> r_volatile_vote r = r_self r \<and>
        r_is_candidate r \<and> r_vote_count r < r_election_quorum r) \<and>
     (r_is_candidate r \<longrightarrow> r_is_enabled r) \<and>
     (t_active (r_timer r) \<longleftrightarrow> r_is_candidate r \<and> \<not> r_is_write_in_progress r \<and> r_state r \<noteq> LEADER)"

text \<open>The vote mask as a set of bits.\<close>

definition mask_with :: "u32 \<Rightarrow> u32 \<Rightarrow> u32" where
  "mask_with m i = m OR push_bit (unat i) 1"

lemma vote_mask_set_eq [simp]:
  "vote_mask_set m i = (if i < 32 then Some (bit m (unat i), mask_with m i) else None)"
proof (cases "i < 32")
  case True
  then have "unat i < 32" by (simp add: word_less_nat_alt)
  with True show ?thesis by (simp add: vote_mask_set_def mask_with_def bit_set_store_u32 load_store_u32 Let_def)
qed (simp add: vote_mask_set_def)

lemmas raft_effect_defs = raft_schedule_broadcast_def raft_schedule_async_def raft_emit_def
  raft_ev_timer_stop_def raft_ev_timer_set_def raft_ev_timer_start_def raft_broadcast_def raft_write_def

lemmas raft_wait_defs = raft_sm_wait_leader_dead_def raft_sm_wait_leader_found_def
  raft_sm_wait_election_end_def

lemmas raft_candidate_defs = raft_restore_def raft_set_candidate_def
  raft_start_candidate_def raft_stop_candidate_def

text \<open>Broadcasts made so far.\<close>

definition raft_sent :: "raft \<Rightarrow> raft_msg set" where
  "raft_sent r = {m. EvBroadcast m \<in> set (r_events r)}"

text \<open>What no operation but the worker's changes: identity, configuration and persistent state.\<close>

definition raft_frame :: "raft \<Rightarrow> raft \<Rightarrow> bool" where
  "raft_frame r r' \<longleftrightarrow> r_self r' = r_self r \<and> r_vclock r' = r_vclock r \<and>
     r_election_quorum r' = r_election_quorum r \<and> r_term r' = r_term r \<and> r_vote r' = r_vote r \<and>
     raft_sent r' = raft_sent r"

text \<open>The volatile term only grows, and a vote made in a term is not taken back in that term.\<close>

definition raft_mono :: "raft \<Rightarrow> raft \<Rightarrow> bool" where
  "raft_mono r r' \<longleftrightarrow> r_volatile_term r \<le> r_volatile_term r' \<and>
     (r_volatile_term r' = r_volatile_term r \<longrightarrow>
        r_volatile_vote r = 0 \<or> r_volatile_vote r' = r_volatile_vote r)"

definition raft_safe :: "raft \<Rightarrow> raft \<Rightarrow> bool" where
  "raft_safe r r' \<longleftrightarrow> raft_inv r' \<and> raft_frame r r' \<and> raft_mono r r' \<and>
     (r_is_write_in_progress r \<longrightarrow> r_is_write_in_progress r')"

text \<open>A quiet step is safe, counts no vote and elects nobody.\<close>

definition raft_quiet :: "raft \<Rightarrow> raft \<Rightarrow> bool" where
  "raft_quiet r r' \<longleftrightarrow> raft_safe r r' \<and>
     (r_state r' = CANDIDATE \<longrightarrow> r_state r = CANDIDATE \<and> r_volatile_term r' = r_volatile_term r \<and>
        r_vote_mask r' = r_vote_mask r \<and> r_vote_count r' = r_vote_count r) \<and>
     (r_state r' = LEADER \<longrightarrow> r_state r = LEADER \<and> r_volatile_term r' = r_volatile_term r)"

text \<open>A step of a candidate that counts the vote of \<open>source\<close> and may thereby win the election.\<close>

definition raft_new_count :: "u32 \<Rightarrow> raft \<Rightarrow> int" where
  "raft_new_count source r = r_vote_count r + (if bit (r_vote_mask r) (unat source) then 0 else 1)"

definition raft_counted :: "u32 \<Rightarrow> raft \<Rightarrow> raft \<Rightarrow> bool" where
  "raft_counted source r r' \<longleftrightarrow> raft_safe r r' \<and> r_state r = CANDIDATE \<and>
     (r_state r' = CANDIDATE \<longrightarrow> r_volatile_term r' = r_volatile_term r \<and>
        r_vote_mask r' = mask_with (r_vote_mask r) source \<and>
        r_vote_count r' = raft_new_count source r) \<and>
     (r_state r' = LEADER \<longrightarrow> r_volatile_term r' = r_volatile_term r \<and>
        r_election_quorum r \<le> raft_new_count source r)"

lemma raft_frame_trans: "raft_frame a b \<Longrightarrow> raft_frame b c \<Longrightarrow> raft_frame a c"
  by (simp add: raft_frame_def)

lemma raft_mono_trans: "raft_mono a b \<Longrightarrow> raft_mono b c \<Longrightarrow> raft_mono a c"
  by (auto simp: raft_mono_def)

lemma raft_safe_trans: "raft_safe a b \<Longrightarrow> raft_safe b c \<Longrightarrow> raft_safe a c"
  by (auto simp: raft_safe_def intro: raft_frame_trans raft_mono_trans)

lemma raft_quiet_trans: "raft_quiet a b \<Longrightarrow> raft_quiet b c \<Longrightarrow> raft_quiet a c"
  by (auto simp: raft_quiet_def intro: raft_safe_trans)

lemma raft_counted_quiet: "raft_counted s a b \<Longrightarrow> raft_quiet b c \<Longrightarrow> raft_counted s a c"
  by (auto simp: raft_counted_def raft_quiet_def intro: raft_safe_trans)

lemma raft_quiet_refl: "raft_inv r \<Longrightarrow> raft_quiet r r"
  by (simp add: raft_quiet_def raft_safe_def raft_frame_def raft_mono_def)

lemma raft_safe_inv: "raft_safe a b \<Longrightarrow> raft_inv b"
  by (simp add: raft_safe_def)

lemma raft_safe_self: "raft_safe a b \<Longrightarrow> r_self b = r_self a"
  by (simp add: raft_safe_def raft_frame_def)

lemma raft_quiet_safe: "raft_quiet a b \<Longrightarrow> raft_safe a b"
  by (simp add: raft_quiet_def)

lemma raft_counted_safe: "raft_counted s a b \<Longrightarrow> raft_safe a b"
  by (simp add: raft_counted_def)

lemmas raft_ok_defs = raft_quiet_def raft_safe_def raft_inv_def raft_frame_def raft_mono_def raft_sent_def
  raft_is_fully_on_disk_def

subsection \<open>Every operation keeps it\<close>

lemma new_term_ok:
  assumes "raft_inv r" and "new_term > r_volatile_term r"
  shows "succeeds (\<lambda>r'. raft_quiet r r' \<and> r_volatile_term r' = new_term \<and> r_volatile_vote r' = 0 \<and>
      r_leader r' = 0 \<and> r_state r' = FOLLOWER \<and> r_is_write_in_progress r' \<and> r_is_enabled r' = r_is_enabled r)
    (raft_sm_schedule_new_term new_term r)"
  using assms
  by (auto simp: raft_sm_schedule_new_term_def raft_candidate_defs raft_sm_pause_and_dump_def raft_wait_defs
      raft_effect_defs raft_ok_defs Let_def split: if_splits)

lemma new_vote_ok:
  assumes "raft_inv r" and "r_volatile_vote r = 0" and "r_leader r = 0" and "r_state r = FOLLOWER"
  shows "succeeds (\<lambda>r'. raft_quiet r r' \<and> r_volatile_term r' = r_volatile_term r \<and> r_volatile_vote r' = v \<and>
      r_leader r' = 0 \<and> r_state r' = FOLLOWER \<and> r_is_write_in_progress r')
    (raft_sm_schedule_new_vote v r)"
  using assms
  by (auto simp: raft_sm_schedule_new_vote_def raft_sm_pause_and_dump_def raft_effect_defs raft_ok_defs Let_def
      split: if_splits)

lemma new_election_ok:
  assumes "raft_inv r" and "r_is_candidate r" and "r_volatile_term r \<noteq> - 1"
  shows "succeeds (\<lambda>r'. raft_quiet r r' \<and> r_volatile_term r' = r_volatile_term r + 1 \<and>
      r_volatile_vote r' = r_self r \<and> r_state r' = FOLLOWER \<and> r_is_write_in_progress r')
    (raft_sm_schedule_new_election r)"
proof -
  obtain r1 where r1: "raft_sm_schedule_new_term (r_volatile_term r + 1) r = Some r1"
      "raft_quiet r r1" "r_volatile_term r1 = r_volatile_term r + 1" "r_volatile_vote r1 = 0"
      "r_leader r1 = 0" "r_state r1 = FOLLOWER"
    using new_term_ok[OF assms(1) word_less_plus_1[OF assms(3)]] by (auto elim: succeedsE)
  have "raft_inv r1" and "r_self r1 = r_self r"
    using raft_quiet_safe[OF r1(2)] by (auto intro: raft_safe_inv raft_safe_self)
  then show ?thesis
    using new_vote_ok[of r1 "r_self r"] r1 assms(2)
    by (auto simp: raft_sm_schedule_new_election_def intro: raft_quiet_trans elim!: succeeds_mono)
qed

lemma new_election_cb_ok:
  assumes "raft_inv r" and "t_active (r_timer r)" and "r_volatile_term r \<noteq> - 1"
  shows "succeeds (\<lambda>r'. raft_quiet r r' \<and> r_volatile_term r' = r_volatile_term r + 1 \<and>
      r_volatile_vote r' = r_self r \<and> r_state r' = FOLLOWER) (raft_sm_schedule_new_election_cb r)"
  using assms
  by (auto simp: raft_sm_schedule_new_election_cb_def raft_sm_schedule_new_election_def raft_sm_schedule_new_vote_def
      raft_sm_schedule_new_term_def raft_candidate_defs raft_sm_pause_and_dump_def raft_wait_defs
      raft_effect_defs raft_ok_defs Let_def word_less_plus_1 less_imp_le split: if_splits)

lemma process_vote_candidate:
  assumes "raft_inv r" and "r_state r = CANDIDATE" and "source < 32 \<or> raft_process_vote req source r \<noteq> None"
  shows "succeeds (\<lambda>r'. r_volatile_term r' = r_volatile_term r \<and>
      (raft_quiet r r' \<or> m_vote req = r_self r \<and> raft_counted source r r')) (raft_process_vote req source r)"
  using assms
  by (auto simp: raft_process_vote_def raft_sm_become_leader_def raft_effect_defs raft_ok_defs Let_def
      raft_counted_def raft_new_count_def split: if_splits)

lemma process_vote_other:
  assumes "raft_inv r" and "r_state r \<noteq> CANDIDATE"
    and "m_state req = raft_state_code CANDIDATE \<longrightarrow> m_vclock req \<noteq> None"
  shows "succeeds (\<lambda>r'. r_volatile_term r' = r_volatile_term r \<and> raft_quiet r r') (raft_process_vote req source r)"
proof -
  have st: "r_state r = FOLLOWER \<or> r_state r = LEADER" using assms(2) by (cases "r_state r") auto
  moreover obtain own where "r_vclock r = Some own" using assms(1) by (auto simp: raft_inv_def)
  moreover have "succeeds (\<lambda>r'. r_volatile_term r' = r_volatile_term r \<and> raft_quiet r r')
      (raft_sm_schedule_new_vote (m_vote req) r)" if "r_leader r = 0" "r_volatile_vote r = 0"
  proof -
    have "r_state r = FOLLOWER" using st that(1) assms(1) by (auto simp: raft_inv_def)
    then show ?thesis
      using new_vote_ok[OF assms(1) that(2,1), of "m_vote req"] by (auto elim!: succeeds_mono)
  qed
  ultimately show ?thesis using assms(3) raft_quiet_refl[OF assms(1)]
    by (cases "m_vclock req") (simp_all add: raft_process_vote_def raft_can_vote_for_def Let_def)
qed

lemma process_vote_ok:
  assumes "raft_inv r" and "m_state req = raft_state_code CANDIDATE \<longrightarrow> m_vclock req \<noteq> None"
    and "source < 32 \<or> raft_process_vote req source r \<noteq> None"
  shows "succeeds (\<lambda>r'. r_volatile_term r' = r_volatile_term r \<and>
      (raft_quiet r r' \<or> m_vote req = r_self r \<and> raft_counted source r r')) (raft_process_vote req source r)"
  using process_vote_candidate[OF assms(1) _ assms(3)] process_vote_other[OF assms(1) _ assms(2)]
  by (cases "r_state r = CANDIDATE") (blast intro: succeeds_mono)+

lemma process_leadership_ok:
  assumes "raft_inv r" and "r_volatile_term r \<noteq> - 1" and "source \<noteq> 0" and "source \<noteq> r_self r"
  shows "succeeds (raft_quiet r) (raft_process_leadership req source r)"
proof -
  have inv0: "raft_inv (r\<lparr>r_leader := 0\<rparr>)" "raft_quiet r (r\<lparr>r_leader := 0\<rparr>)" if "source = r_leader r"
    using assms that by (auto simp: raft_ok_defs)
  have follow: "succeeds (raft_quiet r) (raft_sm_follow_leader source r)" if "r_leader r = 0"
    using assms that
    by (auto simp: raft_sm_follow_leader_def raft_wait_defs raft_effect_defs raft_ok_defs Let_def split: if_splits)
  have "succeeds (raft_quiet r) (raft_sm_schedule_new_election (r\<lparr>r_leader := 0\<rparr>))"
    if "source = r_leader r" "r_is_candidate r"
    using new_election_ok[OF inv0(1)] inv0(2) that assms(2)
    by (auto elim!: succeeds_mono intro: raft_quiet_trans)
  then show ?thesis
    using inv0 follow raft_quiet_refl[OF assms(1)] by (auto simp: raft_process_leadership_def Let_def)
qed

definition raft_msg_tail :: "raft_msg \<Rightarrow> u32 \<Rightarrow> raft \<Rightarrow> raft option" where
  "raft_msg_tail req source r =
     (if m_vote req \<noteq> 0 then raft_process_vote req source r else Some r) \<bind> raft_process_leadership req source"

lemma process_msg_tail:
  assumes "raft_inv r" and "source \<noteq> 0" and "source \<noteq> r_self r" and "r_volatile_term r \<noteq> - 1"
    and "m_state req = raft_state_code CANDIDATE \<longrightarrow> m_vclock req \<noteq> None"
    and "source < 32 \<or> raft_msg_tail req source r \<noteq> None"
  shows "succeeds (\<lambda>r'. raft_quiet r r' \<or> m_vote req = r_self r \<and> raft_counted source r r') (raft_msg_tail req source r)"
proof -
  have "succeeds (\<lambda>r'. raft_quiet r r' \<or> m_vote req = r_self r \<and> raft_counted source r r')
      (raft_process_leadership req source r2)"
    if "r_volatile_term r2 = r_volatile_term r" "raft_quiet r r2 \<or> m_vote req = r_self r \<and> raft_counted source r r2" for r2
  proof -
    have safe: "raft_safe r r2" using that(2) raft_quiet_safe raft_counted_safe by blast
    show ?thesis
      using process_leadership_ok[OF raft_safe_inv[OF safe], of source req] raft_safe_self[OF safe]
        that assms(2-4) by (auto elim!: succeeds_mono intro: raft_quiet_trans raft_counted_quiet)
  qed
  moreover have "source < 32 \<or> raft_process_vote req source r \<noteq> None" if "m_vote req \<noteq> 0"
    using assms(6) that by (auto simp: raft_msg_tail_def)
  ultimately show ?thesis
    using process_vote_ok[OF assms(1,5), of source] raft_quiet_refl[OF assms(1)]
    by (auto simp: raft_msg_tail_def elim!: succeeds_mono)
qed

lemma raft_process_msg_tail:
  "((if m_vote req \<noteq> 0 then raft_process_vote req source r else Some r) \<bind>
     (\<lambda>r. raft_process_leadership req source r \<bind> (\<lambda>r. Some (0, r)))) = map_option (Pair (0::int)) (raft_msg_tail req source r)"
  unfolding raft_msg_tail_def
  by (cases "if m_vote req \<noteq> 0 then raft_process_vote req source r else Some r")
    (simp_all add: map_conv_bind_option comp_def)

lemmas raft_process_msg_eq = raft_process_msg_def[unfolded raft_process_msg_tail]

lemma process_msg_ok:
  assumes "raft_inv r" and "source \<noteq> 0" and "source \<noteq> r_self r"
    and "r_volatile_term r \<noteq> - 1" and "m_term req \<noteq> - 1"
    and "source < 32 \<or> raft_process_msg req source r \<noteq> None"
  shows "succeeds (\<lambda>(rc, r'). raft_quiet r r' \<or>
      m_term req = r_volatile_term r \<and> m_vote req = r_self r \<and> raft_counted source r r') (raft_process_msg req source r)"
proof (cases "m_term req > r_volatile_term r")
  case True
  obtain r1 where r1: "raft_sm_schedule_new_term (m_term req) r = Some r1" "raft_quiet r r1"
      "r_volatile_term r1 = m_term req" "r_state r1 = FOLLOWER"
    using new_term_ok[OF assms(1) True] by (auto elim: succeedsE)
  note safe = raft_quiet_safe[OF r1(2)]
  have "succeeds (\<lambda>r'. raft_quiet r r' \<or> m_term req = r_volatile_term r \<and> m_vote req = r_self r \<and>
      raft_counted source r r') (raft_msg_tail req source r1)"
    if "m_state req = raft_state_code CANDIDATE \<longrightarrow> m_vclock req \<noteq> None"
      "source < 32 \<or> raft_msg_tail req source r1 \<noteq> None"
  proof -
    have "succeeds (\<lambda>r'. raft_quiet r1 r' \<or> m_vote req = r_self r1 \<and> raft_counted source r1 r')
        (raft_msg_tail req source r1)"
      using process_msg_tail[OF raft_safe_inv[OF safe] assms(2) _ _ that] raft_safe_self[OF safe] r1(3) assms(3,5)
      by simp
    then show ?thesis
      using r1(2,4) by (elim succeeds_mono) (auto intro: raft_quiet_trans simp: raft_counted_def)
  qed
  then show ?thesis
    using raft_quiet_refl[OF assms(1)] assms(2,3,6) True r1(1)
    by (auto simp: raft_process_msg_eq word_gt_0 split: if_splits)
next
  case False
  then consider "m_term req < r_volatile_term r" | "m_term req = r_volatile_term r" by fastforce
  then show ?thesis
  proof cases
    case 1
    then show ?thesis using raft_quiet_refl[OF assms(1)] assms by (simp add: raft_process_msg_def word_gt_0)
  next
    case 2
    then show ?thesis using raft_quiet_refl[OF assms(1)] assms process_msg_tail[OF assms(1-4), of req]
      by (auto simp: raft_process_msg_eq word_gt_0 split: if_splits)
  qed
qed

lemma heartbeat_ok:
  assumes "raft_inv r"
  shows "succeeds (raft_quiet r) (raft_process_heartbeat source r)"
  using assms raft_quiet_refl[OF assms]
  by (cases "r_state r")
    (auto simp: raft_process_heartbeat_def raft_wait_defs raft_effect_defs raft_ok_defs)

lemma sm_start_ok:
  assumes "raft_inv r" and "\<not> r_is_enabled r"
  shows "succeeds (raft_quiet r) (raft_sm_start r)"
  using assms
  by (cases "r_state r")
    (auto simp: raft_sm_start_def raft_wait_defs raft_effect_defs raft_ok_defs Let_def)

lemma sm_stop_ok:
  assumes "raft_inv r" and "r_is_enabled r"
  shows "succeeds (raft_quiet r) (raft_sm_stop r)"
  using assms
  by (auto simp: raft_sm_stop_def raft_wait_defs raft_effect_defs raft_ok_defs Let_def)

lemma cfg_is_enabled_ok: "raft_inv r \<Longrightarrow> succeeds (raft_quiet r) (raft_cfg_is_enabled b r)"
  using sm_start_ok sm_stop_ok raft_quiet_refl by (auto simp: raft_cfg_is_enabled_def)

lemma start_candidate_ok:
  assumes "raft_inv r" and "r_is_enabled r"
  shows "succeeds (raft_quiet r) (raft_start_candidate r)"
  using assms
  by (cases "r_state r")
    (auto simp: raft_start_candidate_def raft_wait_defs raft_effect_defs raft_ok_defs Let_def)

lemma stop_candidate_ok:
  assumes "raft_inv r"
  shows "raft_quiet r (raft_stop_candidate r)"
  using assms
  by (cases "r_state r")
    (auto simp: raft_stop_candidate_def raft_effect_defs raft_ok_defs Let_def)

lemma restore_ok: "raft_inv r \<Longrightarrow> succeeds (raft_quiet r) (raft_restore r)"
  using start_candidate_ok stop_candidate_ok by (auto simp: raft_restore_def raft_set_candidate_def)

lemma cfg_is_candidate_ok:
  assumes "raft_inv r"
  shows "succeeds (raft_quiet r) (raft_cfg_is_candidate b r)"
proof -
  have "raft_quiet r (r\<lparr>r_is_cfg_candidate := b\<rparr>)"
    using assms by (auto simp: raft_ok_defs)
  then show ?thesis
    using restore_ok[of "r\<lparr>r_is_cfg_candidate := b\<rparr>"] raft_quiet_safe[THEN raft_safe_inv]
    by (auto simp: raft_cfg_is_candidate_def intro: raft_quiet_trans elim!: succeeds_mono)
qed

lemma raft_new_term_ok:
  "raft_inv r \<Longrightarrow> r_volatile_term r \<noteq> - 1 \<Longrightarrow> succeeds (raft_quiet r) (raft_new_term r)"
  using new_term_ok[OF _ word_less_plus_1, of r] by (auto simp: raft_new_term_def elim!: succeeds_mono)

lemma promote_ok:
  assumes "raft_inv r" and "r_volatile_term r \<noteq> - 1"
  shows "succeeds (raft_quiet r) (raft_promote r)"
proof (cases "r_is_enabled r")
  case True
  have "succeeds (raft_quiet r) (raft_start_candidate r1)" if "raft_quiet r r1" "r_is_enabled r1 = r_is_enabled r" for r1
    using start_candidate_ok[OF raft_safe_inv[OF raft_quiet_safe[OF that(1)]]] that True
    by (auto intro: raft_quiet_trans elim!: succeeds_mono)
  then show ?thesis
    using new_term_ok[OF assms(1) word_less_plus_1[OF assms(2)]] True
    by (auto simp: raft_promote_def elim!: succeeds_mono)
qed (use raft_quiet_refl[OF assms(1)] in \<open>simp add: raft_promote_def\<close>)

lemma cfg_election_timeout_ok:
  assumes "raft_inv r"
  shows "succeeds (raft_quiet r) (raft_cfg_election_timeout rem t r)"
  using assms
  by (cases "r_state r"; simp add: raft_cfg_election_timeout_def raft_effect_defs raft_ok_defs Let_def)

lemma cfg_death_timeout_ok:
  assumes "raft_inv r" and "raft_cfg_death_timeout rem t r \<noteq> None"
  shows "succeeds (raft_quiet r) (raft_cfg_death_timeout rem t r)"
  using assms
  by (cases "r_state r")
    (auto simp: raft_cfg_death_timeout_def raft_effect_defs raft_ok_defs Let_def bind_c_assert split: if_splits)

lemma cfg_election_quorum_ok:
  assumes "raft_inv r" and "q > 0"
  shows "succeeds (\<lambda>r'. raft_inv r' \<and> r_self r' = r_self r \<and> r_vclock r' = r_vclock r \<and> r_election_quorum r' = q \<and>
      r_term r' = r_term r \<and> r_vote r' = r_vote r \<and> raft_sent r' = raft_sent r \<and>
      r_volatile_term r' = r_volatile_term r \<and> r_volatile_vote r' = r_volatile_vote r \<and>
      r_is_write_in_progress r' = r_is_write_in_progress r \<and>
      r_vote_mask r' = r_vote_mask r \<and> r_vote_count r' = r_vote_count r \<and>
      (r_state r' = r_state r \<or> r_state r = CANDIDATE \<and> r_state r' = LEADER \<and> q \<le> r_vote_count r))
    (raft_cfg_election_quorum q r)"
  using assms
  by (auto simp: raft_cfg_election_quorum_def raft_sm_become_leader_def raft_effect_defs raft_ok_defs Let_def)

text \<open>An instance whose write is under way, and what the write holds.\<close>

definition raft_pending :: "raft_msg \<Rightarrow> raft \<Rightarrow> bool" where
  "raft_pending req r \<longleftrightarrow> r_is_write_in_progress r \<and> r_term r \<le> m_term req \<and> m_term req \<le> r_volatile_term r \<and>
     (r_volatile_term r = m_term req \<longrightarrow> m_vote req = 0 \<or> r_volatile_vote r = m_vote req) \<and>
     (m_term req = r_term r \<longrightarrow> r_vote r = 0 \<or> m_vote req = r_vote r)"

lemma raft_pending_request:
  "raft_inv r \<Longrightarrow> r_is_write_in_progress r \<Longrightarrow> raft_pending (raft_io_request r) r"
  by (auto simp: raft_pending_def raft_inv_def raft_io_request_def)

lemma raft_pending_safe: "raft_pending req r \<Longrightarrow> raft_safe r r' \<Longrightarrow> raft_pending req r'"
  by (auto simp: raft_pending_def raft_safe_def raft_frame_def raft_mono_def)

lemma io_end_dump_ok:
  assumes "raft_inv r" and "r_is_write_in_progress r" and "raft_is_fully_on_disk r"
    and "r_self r < 32 \<or> raft_io_end_dump rnd r \<noteq> None"
  shows "succeeds (\<lambda>r'. raft_inv r' \<and> raft_frame r r' \<and> raft_mono r r' \<and> r_volatile_term r' = r_volatile_term r \<and>
     (r_state r' = CANDIDATE \<longrightarrow> r_vote r = r_self r \<and> r_vote_count r' = 1 \<and>
        r_vote_mask r' = mask_with 0 (r_self r)) \<and>
     (r_state r' = LEADER \<longrightarrow> r_vote r = r_self r \<and> r_election_quorum r = 1)) (raft_io_end_dump rnd r)"
  using assms
  by (auto simp: raft_io_end_dump_def raft_wait_defs raft_sm_become_leader_def raft_sm_become_candidate_def
      raft_sm_schedule_new_vote_def raft_sm_pause_and_dump_def raft_effect_defs raft_ok_defs Let_def)

lemma io_persisted_ok:
  assumes "raft_inv r" and "raft_pending req r" and "r_self r < 32 \<or> raft_io_persisted rnd req r \<noteq> None"
  shows "succeeds (\<lambda>r'. raft_inv r' \<and> r_self r' = r_self r \<and> r_election_quorum r' = r_election_quorum r \<and>
     r_vclock r' = r_vclock r \<and> raft_sent r' = raft_sent r \<and> r_term r' = m_term req \<and> r_vote r' = m_vote req \<and>
     raft_mono r r' \<and> r_volatile_term r' = r_volatile_term r \<and>
     (r_state r' = CANDIDATE \<longrightarrow> r_volatile_term r = m_term req \<and> m_vote req = r_self r \<and> r_vote_count r' = 1 \<and>
        r_vote_mask r' = mask_with 0 (r_self r)) \<and>
     (r_state r' = LEADER \<longrightarrow> r_volatile_term r = m_term req \<and> m_vote req = r_self r \<and> r_election_quorum r = 1))
    (raft_io_persisted rnd req r)"
proof -
  let ?r = "raft_schedule_broadcast (r\<lparr>r_term := m_term req, r_vote := m_vote req\<rparr>)"
  have inv: "raft_inv ?r"
    using assms by (auto simp: raft_inv_def raft_pending_def raft_effect_defs raft_is_fully_on_disk_def)
  have st: "r_state r = FOLLOWER" "m_term req \<ge> r_term r" "r_is_write_in_progress r"
    using assms by (auto simp: raft_inv_def raft_pending_def)
  show ?thesis
  proof (cases "raft_is_fully_on_disk ?r")
    case True
    then have eq: "raft_io_persisted rnd req r = raft_io_end_dump rnd ?r"
      using st by (simp add: raft_io_persisted_def)
    have "r_is_write_in_progress ?r" "r_self ?r < 32 \<or> raft_io_end_dump rnd ?r \<noteq> None"
      using st(3) assms(3) eq by (simp_all add: raft_effect_defs)
    from io_end_dump_ok[OF inv this(1) True this(2)] show ?thesis
      unfolding eq
      by (rule succeeds_mono) (use True in \<open>auto simp: raft_frame_def raft_mono_def raft_effect_defs raft_sent_def
        raft_is_fully_on_disk_def\<close>)
  next
    case False
    then show ?thesis
      using inv st
      by (auto simp: raft_io_persisted_def raft_mono_def raft_effect_defs raft_sent_def Let_def)
  qed
qed

lemma handle_broadcast_ok:
  assumes "raft_inv r" and "r_is_broadcast_scheduled r"
  shows "succeeds (\<lambda>r'. raft_inv r' \<and> r' = r\<lparr>r_is_broadcast_scheduled := False,
      r_events := r_events r @ [EvBroadcast (raft_checkpoint_remote r)]\<rparr>) (raft_worker_handle_broadcast r)"
  using assms
  by (cases "r_state r"; simp add: raft_worker_handle_broadcast_def raft_checkpoint_remote_def raft_effect_defs
      raft_inv_def raft_is_fully_on_disk_def)

end
