(* ===== verification/Raft_Node.thy ===== *)
theory Raft_Node
  imports Raft_Inv
begin

text \<open>
  One Raft node together with what surrounds it in \<^verbatim>\<open>src/src/box/raft.c\<close> and
  \<^verbatim>\<open>src/src/box/box.cc\<close>: the write the worker fiber waits for, the rows in the log, and the calls that
  the other fibers make meanwhile.  The worker yields only inside \<^verbatim>\<open>raft_write\<close>, so the steps of the
  worker are the code before that call, the code after it and the broadcast.
\<close>

section \<open>Calls of the other fibers\<close>

datatype raft_call =
    CallMsg raft_msg u32
  | CallHeartbeat u32
  | CallTimer
  | CallEnabled bool
  | CallCandidate bool
  | CallPromote
  | CallRestore
  | CallNewTerm
  | CallElectionTimeout real real
  | CallDeathTimeout real real
  | CallQuorum int

fun raft_exec :: "raft_call \<Rightarrow> raft \<Rightarrow> raft option" where
  "raft_exec (CallMsg req source) r = map_option snd (raft_process_msg req source r)"
| "raft_exec (CallHeartbeat source) r = raft_process_heartbeat source r"
| "raft_exec CallTimer r = raft_sm_schedule_new_election_cb r"
| "raft_exec (CallEnabled b) r = raft_cfg_is_enabled b r"
| "raft_exec (CallCandidate b) r = raft_cfg_is_candidate b r"
| "raft_exec CallPromote r = raft_promote r"
| "raft_exec CallRestore r = raft_restore r"
| "raft_exec CallNewTerm r = raft_new_term r"
| "raft_exec (CallElectionTimeout rem t) r = raft_cfg_election_timeout rem t r"
| "raft_exec (CallDeathTimeout rem t) r = raft_cfg_death_timeout rem t r"
| "raft_exec (CallQuorum q) r = raft_cfg_election_quorum q r"

text \<open>
  What a caller has to see to: a peer has an id that is neither zero nor the node's own, the timer fires
  only while it is active, a quorum is positive, and the 64-bit term counter is not exhausted.
\<close>

fun raft_call_ok :: "raft_call \<Rightarrow> raft \<Rightarrow> bool" where
  "raft_call_ok (CallMsg req source) r \<longleftrightarrow>
     source \<noteq> 0 \<and> source \<noteq> r_self r \<and> m_term req \<noteq> - 1 \<and> r_volatile_term r \<noteq> - 1"
| "raft_call_ok CallTimer r \<longleftrightarrow> t_active (r_timer r) \<and> r_volatile_term r \<noteq> - 1"
| "raft_call_ok CallPromote r \<longleftrightarrow> r_volatile_term r \<noteq> - 1"
| "raft_call_ok CallNewTerm r \<longleftrightarrow> r_volatile_term r \<noteq> - 1"
| "raft_call_ok (CallQuorum q) r \<longleftrightarrow> q > 0"
| "raft_call_ok _ r \<longleftrightarrow> True"

section \<open>The node\<close>

record raft_node =
  n_raft :: raft
  n_pending :: "raft_msg option"
  n_rows :: "raft_msg list"

datatype node_op =
    Call raft_call
  | WorkerIo nat
  | WriteDone nat
  | WorkerBroadcast

text \<open>
  \<open>WorkerIo\<close> is \<^verbatim>\<open>raft_worker_handle_io\<close> up to the call of \<^verbatim>\<open>raft_write\<close>, \<open>WriteDone\<close> is what follows
  the return of that call, once the row is in the log.
\<close>

fun node_exec :: "node_op \<Rightarrow> raft_node \<Rightarrow> raft_node option" where
  "node_exec (Call c) n = map_option (\<lambda>r. n\<lparr>n_raft := r\<rparr>) (raft_exec c (n_raft n))"
| "node_exec (WorkerIo rnd) n = do {
     r \<leftarrow> c_assert (r_is_write_in_progress (n_raft n)) (n_raft n);
     r \<leftarrow> c_assert (r_state r = FOLLOWER) r;
     if raft_is_fully_on_disk r
     then map_option (\<lambda>r. n\<lparr>n_raft := r\<rparr>) (raft_io_end_dump rnd r)
     else do {
       r \<leftarrow> c_assert (r_volatile_term r \<ge> r_term r) r;
       Some (n\<lparr>n_raft := raft_emit (EvWrite (raft_io_request r)) r, n_pending := Some (raft_io_request r)\<rparr>)
     }
   }"
| "node_exec (WriteDone rnd) n =
     (case n_pending n of
        None \<Rightarrow> None
      | Some req \<Rightarrow> map_option (\<lambda>r. n\<lparr>n_raft := r, n_pending := None, n_rows := n_rows n @ [req]\<rparr>)
          (raft_io_persisted rnd req (n_raft n)))"
| "node_exec WorkerBroadcast n =
     map_option (\<lambda>r. n\<lparr>n_raft := r\<rparr>) (raft_worker_handle_broadcast (n_raft n))"

text \<open>The scheduler: the worker runs when it has work and is not blocked in a write.\<close>

fun node_ready :: "node_op \<Rightarrow> raft_node \<Rightarrow> bool" where
  "node_ready (Call c) n \<longleftrightarrow> raft_call_ok c (n_raft n)"
| "node_ready (WorkerIo rnd) n \<longleftrightarrow> n_pending n = None \<and> r_is_write_in_progress (n_raft n)"
| "node_ready (WriteDone rnd) n \<longleftrightarrow> n_pending n \<noteq> None"
| "node_ready WorkerBroadcast n \<longleftrightarrow> n_pending n = None \<and> r_is_broadcast_scheduled (n_raft n)"

inductive node_reach :: "raft_node \<Rightarrow> raft_node \<Rightarrow> bool" for n0 where
  node_reach_init: "node_reach n0 n0"
| node_reach_step: "node_reach n0 n \<Longrightarrow> node_ready op n \<Longrightarrow> node_exec op n = Some n' \<Longrightarrow> node_reach n0 n'"

text \<open>Start of an instance: recovery of the rows, then the configuration of \<^verbatim>\<open>box_cfg_xc\<close>.\<close>

fun raft_recover :: "raft_msg list \<Rightarrow> raft \<Rightarrow> raft option" where
  "raft_recover [] r = Some r"
| "raft_recover (m # ms) r = raft_process_recovery m r \<bind> raft_recover ms"

definition raft_boot :: "u32 \<Rightarrow> vclock \<Rightarrow> int \<Rightarrow> raft_msg list \<Rightarrow> raft option" where
  "raft_boot i v q rows = do {
     r \<leftarrow> raft_recover rows raft_create;
     r \<leftarrow> raft_cfg_instance_id i r;
     r \<leftarrow> raft_cfg_vclock v r;
     raft_cfg_election_quorum q r
   }"

definition node_inv :: "raft_node \<Rightarrow> bool" where
  "node_inv n \<longleftrightarrow> raft_inv (n_raft n) \<and> (\<forall>req. n_pending n = Some req \<longrightarrow> raft_pending req (n_raft n))"

text \<open>The term and the vote that recovery reads from the log.\<close>

fun rows_term :: "raft_msg list \<Rightarrow> u64 \<Rightarrow> u64" where
  "rows_term [] t = t"
| "rows_term (m # ms) t = rows_term ms (if m_term m \<noteq> 0 then m_term m else t)"

fun rows_vote :: "raft_msg list \<Rightarrow> u32 \<Rightarrow> u32" where
  "rows_vote [] v = v"
| "rows_vote (m # ms) v = rows_vote ms (if m_vote m \<noteq> 0 then m_vote m else v)"

definition row_ok :: "raft_msg \<Rightarrow> bool" where
  "row_ok m \<longleftrightarrow> m_state m = 0 \<and> m_vclock m = None"

section \<open>Lemmas\<close>

text \<open>The calls that can go wrong: a change of the death timeout at a bad moment, and a peer whose id is out of the mask.\<close>

fun raft_call_faults :: "raft_call \<Rightarrow> raft \<Rightarrow> bool" where
  "raft_call_faults (CallDeathTimeout rem t) r \<longleftrightarrow>
     t \<noteq> r_death_timeout r \<and> r_is_write_in_progress r \<and> r_is_candidate r \<and> r_leader r \<noteq> 0"
| "raft_call_faults (CallMsg req source) r \<longleftrightarrow> 32 \<le> source"
| "raft_call_faults _ r \<longleftrightarrow> False"

lemma death_timeout_fails:
  assumes "raft_inv r"
  shows "raft_cfg_death_timeout rem t r = None \<longleftrightarrow>
    t \<noteq> r_death_timeout r \<and> r_is_write_in_progress r \<and> r_is_candidate r \<and> r_leader r \<noteq> 0"
  using assms
  by (cases "r_state r") (auto simp: raft_cfg_death_timeout_def raft_inv_def Let_def bind_c_assert)

lemma raft_exec_ok:
  assumes "raft_inv r" and "raft_call_ok c r" and "\<forall>q. c \<noteq> CallQuorum q"
    and "\<not> raft_call_faults c r \<or> raft_exec c r \<noteq> None"
  shows "succeeds (\<lambda>r'. raft_quiet r r' \<or> (\<exists>req source. c = CallMsg req source \<and>
     m_term req = r_volatile_term r \<and> m_vote req = r_self r \<and> raft_counted source r r')) (raft_exec c r)"
proof (cases c)
  case (CallMsg req source)
  then show ?thesis
    using process_msg_ok[OF assms(1), of source req] assms(2,4)
    by (auto simp: not_le simp del: not_None_eq elim!: succeeds_mono)
next
  case (CallDeathTimeout rem t)
  then have "raft_cfg_death_timeout rem t r \<noteq> None" using assms(4) death_timeout_fails[OF assms(1)] by auto
  then show ?thesis
    using cfg_death_timeout_ok[OF assms(1)] CallDeathTimeout by (auto elim!: succeeds_mono)
qed (use assms(1-3) in \<open>auto elim!: succeeds_mono intro: succeeds_mono[OF heartbeat_ok] succeeds_mono[OF new_election_cb_ok]
       succeeds_mono[OF cfg_is_enabled_ok] succeeds_mono[OF cfg_is_candidate_ok] succeeds_mono[OF promote_ok]
       succeeds_mono[OF restore_ok] succeeds_mono[OF raft_new_term_ok] succeeds_mono[OF cfg_election_timeout_ok]\<close>)

lemma raft_exec_safe:
  assumes "raft_inv r" and "raft_call_ok c r" and "\<forall>q. c \<noteq> CallQuorum q"
    and "\<not> raft_call_faults c r \<or> raft_exec c r \<noteq> None"
  shows "succeeds (raft_safe r) (raft_exec c r)"
  using raft_exec_ok[OF assms] by (rule succeeds_mono) (auto intro: raft_quiet_safe raft_counted_safe)

lemma raft_inv_emit_write: "raft_inv (raft_emit (EvWrite req) r) = raft_inv r"
  by (simp add: raft_inv_def raft_emit_def raft_is_fully_on_disk_def)

definition node_faults :: "node_op \<Rightarrow> raft_node \<Rightarrow> bool" where
  "node_faults op n \<longleftrightarrow> 32 \<le> r_self (n_raft n) \<or> (\<exists>c. op = Call c \<and> raft_call_faults c (n_raft n))"

lemma node_exec_ok:
  assumes "node_inv n" and "node_ready op n" and "\<not> node_faults op n \<or> node_exec op n \<noteq> None"
  shows "succeeds node_inv (node_exec op n)"
proof (cases op)
  case (Call c)
  show ?thesis
  proof (cases "\<exists>q. c = CallQuorum q")
    case True
    then obtain q where c: "c = CallQuorum q" by blast
    show ?thesis
      using cfg_election_quorum_ok[of "n_raft n" q] assms Call c
      by (auto simp: node_inv_def raft_pending_def elim!: succeeds_mono)
  next
    case False
    have "\<not> raft_call_faults c (n_raft n) \<or> raft_exec c (n_raft n) \<noteq> None"
      using assms(3) Call by (auto simp: node_faults_def)
    with False have "succeeds (raft_safe (n_raft n)) (raft_exec c (n_raft n))"
      using raft_exec_safe assms(1,2) Call by (simp add: node_inv_def)
    then show ?thesis
      using assms(1) Call by (auto simp: node_inv_def intro: raft_safe_inv raft_pending_safe elim!: succeeds_mono)
  qed
next
  case (WorkerIo rnd)
  have inv: "raft_inv (n_raft n)" "r_is_write_in_progress (n_raft n)" "n_pending n = None"
    using assms WorkerIo by (auto simp: node_inv_def)
  then have st: "r_state (n_raft n) = FOLLOWER" "r_term (n_raft n) \<le> r_volatile_term (n_raft n)"
    by (auto simp: raft_inv_def)
  show ?thesis
  proof (cases "raft_is_fully_on_disk (n_raft n)")
    case True
    then have "r_self (n_raft n) < 32 \<or> raft_io_end_dump rnd (n_raft n) \<noteq> None"
      using assms(3) WorkerIo inv st by (auto simp: node_faults_def not_le)
    from io_end_dump_ok[OF inv(1,2) True this] show ?thesis
      using True WorkerIo inv st by (auto simp: node_inv_def elim!: succeeds_mono)
  next
    case False
    then show ?thesis
      using WorkerIo inv st raft_pending_request[OF inv(1,2)]
      by (simp add: node_inv_def raft_inv_emit_write) (simp add: raft_pending_def raft_emit_def)
  qed
next
  case (WriteDone rnd)
  then obtain req where req: "n_pending n = Some req" using assms(2) by auto
  then have "succeeds raft_inv (raft_io_persisted rnd req (n_raft n))"
    using assms(1,3) WriteDone by (intro succeeds_mono[OF io_persisted_ok]) (auto simp: node_inv_def node_faults_def not_le)
  then show ?thesis
    using WriteDone req by (auto simp: node_inv_def elim!: succeeds_mono)
next
  case WorkerBroadcast
  then show ?thesis
    using assms handle_broadcast_ok[of "n_raft n"] by (auto simp: node_inv_def elim!: succeeds_mono)
qed


lemma raft_recover_eq:
  assumes "list_all row_ok rows" and "\<not> r_is_enabled r"
    and "r_term r = r_volatile_term r" and "r_vote r = r_volatile_vote r"
  shows "raft_recover rows r = Some (r\<lparr>r_term := rows_term rows (r_term r), r_vote := rows_vote rows (r_vote r),
    r_volatile_term := rows_term rows (r_term r), r_volatile_vote := rows_vote rows (r_vote r)\<rparr>)"
  using assms
  by (induction rows arbitrary: r) (auto simp: raft_process_recovery_def row_ok_def Let_def)

lemma raft_boot_eq:
  assumes "list_all row_ok rows" and "i \<noteq> 0" and "q > 0"
  shows "raft_boot i v q rows = Some (raft_create\<lparr>r_term := rows_term rows 1, r_vote := rows_vote rows 0,
    r_volatile_term := rows_term rows 1, r_volatile_vote := rows_vote rows 0, r_self := i, r_vclock := Some v,
    r_election_quorum := q\<rparr>)"
  using raft_recover_eq[OF assms(1), of raft_create] assms(2,3)
  by (simp add: raft_boot_def raft_create_def raft_cfg_instance_id_def raft_cfg_vclock_def
      raft_cfg_election_quorum_def)

lemma raft_boot_inv:
  assumes "list_all row_ok rows" and "i \<noteq> 0" and "q > 0"
  shows "succeeds raft_inv (raft_boot i v q rows)"
  unfolding raft_boot_eq[OF assms] using assms by (simp add: raft_create_def raft_inv_def raft_is_fully_on_disk_def)

lemma node_reach_inv: "node_reach n0 n \<Longrightarrow> node_inv n0 \<Longrightarrow> node_inv n"
proof (induction rule: node_reach.induct)
  case (node_reach_step n op n')
  then show ?case using node_exec_ok[of n op] by simp
qed simp

lemma node_exec_frame:
  assumes "node_inv n" and "node_ready op n" and "node_exec op n = Some n'"
  shows "r_self (n_raft n') = r_self (n_raft n) \<and> ((\<forall>rnd. op \<noteq> WriteDone rnd) \<longrightarrow>
    r_term (n_raft n') = r_term (n_raft n) \<and> r_vote (n_raft n') = r_vote (n_raft n))"
proof (cases op)
  case (Call c)
  show ?thesis
  proof (cases "\<exists>q. c = CallQuorum q")
    case True
    then show ?thesis
      using cfg_election_quorum_ok[of "n_raft n"] assms Call by (fastforce simp: node_inv_def)
  next
    case False
    then have "succeeds (raft_safe (n_raft n)) (raft_exec c (n_raft n))"
      using raft_exec_safe assms Call by (auto simp: node_inv_def)
    then show ?thesis
      using assms(3) Call by (auto simp: raft_safe_def raft_frame_def)
  qed
next
  case (WorkerIo rnd)
  then show ?thesis
    using assms io_end_dump_ok[of "n_raft n" rnd]
    by (auto simp: node_inv_def bind_c_assert raft_emit_def raft_frame_def split: if_split_asm)
next
  case (WriteDone rnd)
  then obtain req r' where req: "n_pending n = Some req" "raft_io_persisted rnd req (n_raft n) = Some r'" "n_raft n' = r'"
    using assms(3) by (auto split: option.split_asm)
  then show ?thesis
    using assms(1) WriteDone io_persisted_ok[of "n_raft n" req rnd] by (auto simp: node_inv_def)
next
  case WorkerBroadcast
  then show ?thesis
    using assms handle_broadcast_ok[of "n_raft n"] by (auto simp: node_inv_def)
qed

lemma node_reach_self: "node_reach n0 n \<Longrightarrow> node_inv n0 \<Longrightarrow> r_self (n_raft n) = r_self (n_raft n0)"
proof (induction rule: node_reach.induct)
  case (node_reach_step n op n')
  then show ?case using node_exec_frame[OF node_reach_inv] by metis
qed simp

lemma node_exec_rows:
  assumes "node_exec op n = Some n'"
  shows "n_rows n' = n_rows n \<and> (n_pending n' = n_pending n \<or> n_pending n' = Some (raft_io_request (n_raft n))) \<or>
    (\<exists>req. n_pending n = Some req \<and> n_pending n' = None \<and> n_rows n' = n_rows n @ [req])"
proof (cases op)
  case (WorkerIo rnd)
  then show ?thesis using assms by (auto simp: bind_c_assert split: if_split_asm)
next
  case (WriteDone rnd)
  then show ?thesis using assms by (cases "n_pending n") auto
qed (use assms in auto)

lemma node_reach_row_ok:
  assumes "node_reach n0 n" and "list_all row_ok (n_rows n0)" and "n_pending n0 = None"
  shows "list_all row_ok (n_rows n) \<and> (\<forall>req. n_pending n = Some req \<longrightarrow> row_ok req)"
  using assms
proof (induction rule: node_reach.induct)
  case (node_reach_step n op n')
  have "row_ok (raft_io_request (n_raft n))" by (simp add: row_ok_def raft_io_request_def)
  with node_reach_step.IH[OF node_reach_step.prems] node_exec_rows[OF node_reach_step.hyps(3)]
  show ?case by auto
qed simp

section \<open>Properties\<close>

text \<open>
  C2. The assertions of \<^verbatim>\<open>raft.c\<close>.  Boot a node with an instance id below \<^verbatim>\<open>VCLOCK_MAX\<close> from any log, then
  let the calls of the other fibers, the worker's steps and the completions of its disk writes interleave
  in any order the scheduler allows.  The next step, whatever it is, fails an assertion (or leaves the vote
  mask) in exactly one case: it is a change of the death timeout while an electable node that already knows the
  leader of its new term is still writing that term.  Every other step succeeds, and after it the invariant
  of the node holds, the persisted term does not exceed the volatile one and the node leads or is a
  candidate only when no write is pending.
\<close>

theorem raft_assertions_hold:
  assumes "list_all row_ok rows" and "i \<noteq> 0" and "q > 0" and "raft_boot i v q rows = Some r0"
    and "node_reach \<lparr>n_raft = r0, n_pending = None, n_rows = rows\<rparr> n" and "node_ready op n"
    and "i < 32" and "\<forall>req source. op = Call (CallMsg req source) \<longrightarrow> source < 32"
  shows "(node_exec op n = None \<longleftrightarrow> (\<exists>rem t. op = Call (CallDeathTimeout rem t) \<and> t \<noteq> r_death_timeout (n_raft n) \<and>
      r_is_write_in_progress (n_raft n) \<and> r_is_candidate (n_raft n) \<and> r_leader (n_raft n) \<noteq> 0)) \<and>
    (\<forall>n'. node_exec op n = Some n' \<longrightarrow> raft_inv (n_raft n') \<and>
       r_term (n_raft n') \<le> r_volatile_term (n_raft n') \<and>
       (r_state (n_raft n') \<noteq> FOLLOWER \<longrightarrow> raft_is_fully_on_disk (n_raft n') \<and> n_pending n' = None))"
    (is "(_ \<longleftrightarrow> ?fault) \<and> _")
proof -
  have r0: "raft_inv r0" "r_self r0 = i"
    using raft_boot_inv[OF assms(1-3), of v] raft_boot_eq[OF assms(1-3), of v] assms(4) by auto
  then have inv: "node_inv n" and self: "r_self (n_raft n) < 32"
    using node_reach_inv[OF assms(5)] node_reach_self[OF assms(5)] assms(7) by (auto simp: node_inv_def)
  have "node_exec op n = None" if ?fault
    using that inv death_timeout_fails by (auto simp: node_inv_def)
  moreover have "\<not> node_faults op n" if "\<not> ?fault"
    using self assms(8) that by (auto simp: node_faults_def not_le elim!: raft_call_faults.elims)
  moreover have "succeeds node_inv (node_exec op n)" if "\<not> node_faults op n \<or> node_exec op n \<noteq> None"
    by (rule node_exec_ok[OF inv assms(6) that])
  moreover have "raft_inv (n_raft n') \<and> r_term (n_raft n') \<le> r_volatile_term (n_raft n') \<and>
      (r_state (n_raft n') \<noteq> FOLLOWER \<longrightarrow> raft_is_fully_on_disk (n_raft n') \<and> n_pending n' = None)"
    if "node_inv n'" for n'
    using that by (cases "n_pending n'") (auto simp: node_inv_def raft_inv_def raft_pending_def)
  ultimately show ?thesis
    by (cases "node_exec op n") auto
qed

lemma rows_term_snoc [simp]: "rows_term (ms @ [m]) t = (if m_term m \<noteq> 0 then m_term m else rows_term ms t)"
  by (induction ms arbitrary: t) auto

lemma rows_vote_snoc [simp]: "rows_vote (ms @ [m]) v = (if m_vote m \<noteq> 0 then m_vote m else rows_vote ms v)"
  by (induction ms arbitrary: v) auto

lemma rows_term_pos: "t \<noteq> 0 \<Longrightarrow> rows_term ms t \<noteq> 0"
  by (induction ms arbitrary: t) auto

text \<open>The log of a node against its memory.\<close>

definition node_log :: "raft_node \<Rightarrow> bool" where
  "node_log n \<longleftrightarrow> rows_term (n_rows n) 1 = r_term (n_raft n) \<and>
     (r_vote (n_raft n) = 0 \<or> rows_vote (n_rows n) 0 = r_vote (n_raft n))"

lemma node_exec_log:
  assumes "node_inv n" and "node_log n" and "node_ready op n" and "node_exec op n = Some n'"
  shows "node_log n'"
proof (cases "\<exists>rnd. op = WriteDone rnd")
  case True
  then obtain rnd req where op: "op = WriteDone rnd" "n_pending n = Some req" using assms(3) by auto
  have p: "raft_inv (n_raft n)" "raft_pending req (n_raft n)" using assms(1) op by (auto simp: node_inv_def)
  then have "m_term req \<noteq> 0" using assms(2) rows_term_pos[of 1 "n_rows n"]
    by (auto simp: raft_pending_def node_log_def)
  then show ?thesis using io_persisted_ok[OF p, of rnd] op assms(4) by (auto simp: node_log_def split: if_split_asm)
next
  case False
  have "n_rows n' = n_rows n"
  proof (cases op)
    case (WorkerIo rnd)
    then show ?thesis using assms(4) by (auto simp: bind_c_assert split: if_split_asm)
  qed (use assms(4) False in auto)
  then show ?thesis
    using node_exec_frame[OF assms(1,3,4)] False assms(2) by (simp add: node_log_def)
qed

lemma node_reach_log: "node_reach n0 n \<Longrightarrow> node_inv n0 \<Longrightarrow> node_log n0 \<Longrightarrow> node_inv n \<and> node_log n"
proof (induction rule: node_reach.induct)
  case (node_reach_step n op n')
  then show ?case using node_exec_log[of n op n'] node_exec_ok[of n op] by simp
qed simp

text \<open>
  C13. Recovery.  Whatever a node did since it was booted from a log, booting again from the log it has
  written restores its persistent term, and restores its persistent vote whenever it has voted in that
  term.  (When it has not voted in that term, recovery may restore the vote of an older term.)
\<close>

theorem raft_recovery_restores:
  assumes "list_all row_ok rows" and "i \<noteq> 0" and "q > 0" and "raft_boot i v q rows = Some r0"
    and "node_reach \<lparr>n_raft = r0, n_pending = None, n_rows = rows\<rparr> n"
  shows "\<exists>r. raft_boot i v q (n_rows n) = Some r \<and> raft_inv r \<and> raft_is_fully_on_disk r \<and>
    r_term r = r_term (n_raft n) \<and> (r_vote (n_raft n) \<noteq> 0 \<longrightarrow> r_vote r = r_vote (n_raft n))"
proof -
  let ?n0 = "\<lparr>n_raft = r0, n_pending = None, n_rows = rows\<rparr>"
  have "node_inv ?n0" "node_log ?n0"
    using raft_boot_inv[OF assms(1-3), of v] raft_boot_eq[OF assms(1-3), of v] assms(4)
    by (auto simp: node_inv_def node_log_def)
  then have "node_log n" using node_reach_log[OF assms(5)] by blast
  moreover have rows: "list_all row_ok (n_rows n)" using node_reach_row_ok[OF assms(5)] assms(1) by simp
  moreover obtain r where "raft_boot i v q (n_rows n) = Some r" "raft_inv r"
    using raft_boot_inv[OF rows assms(2,3), of v] by (auto elim: succeedsE)
  ultimately show ?thesis
    using raft_boot_eq[OF rows assms(2,3), of v] by (auto simp: node_log_def raft_is_fully_on_disk_def)
qed



fun node_run :: "node_op list \<Rightarrow> raft_node \<Rightarrow> raft_node option" where
  "node_run [] n = Some n"
| "node_run (op # ops) n = (if node_ready op n then node_exec op n \<bind> node_run ops else None)"

definition node_boot :: "u32 \<Rightarrow> int \<Rightarrow> raft_node" where
  "node_boot i q = \<lparr>n_raft = the (raft_boot i zero_vclock q []), n_pending = None, n_rows = []\<rparr>"

lemma node_reach_trans: "node_reach n1 n2 \<Longrightarrow> node_reach n0 n1 \<Longrightarrow> node_reach n0 n2"
  by (induction rule: node_reach.induct) (auto intro: node_reach_step)

lemma node_run_reach: "node_run ops n = Some n' \<Longrightarrow> node_reach n n'"
proof (induction ops arbitrary: n)
  case (Cons op ops)
  then obtain n1 where "node_ready op n" "node_exec op n = Some n1" "node_run ops n1 = Some n'"
    by (auto split: if_split_asm bind_splits)
  then show ?case using Cons.IH node_reach_trans[of n1 n' n] node_reach_step[OF node_reach_init] by blast
qed (simp add: node_reach_init)

lemmas raft_eval = raft_cfg_is_candidate_def raft_cfg_is_enabled_def raft_candidate_defs raft_sm_start_def
  raft_wait_defs raft_effect_defs raft_sm_schedule_new_election_cb_def raft_sm_schedule_new_election_def
  raft_sm_schedule_new_vote_def raft_sm_schedule_new_term_def raft_sm_pause_and_dump_def raft_io_end_dump_def
  raft_io_request_def raft_io_persisted_def raft_sm_become_candidate_def raft_sm_become_leader_def
  raft_worker_handle_broadcast_def raft_is_fully_on_disk_def raft_process_msg_def raft_process_vote_def
  raft_process_leadership_def raft_sm_follow_leader_def raft_state_MAX_def

lemma node_boot_eq:
  "i \<noteq> 0 \<Longrightarrow> q > 0 \<Longrightarrow> node_boot i q = \<lparr>n_raft = raft_create\<lparr>r_self := i, r_vclock := Some zero_vclock, r_election_quorum := q\<rparr>,
    n_pending = None, n_rows = []\<rparr>"
  by (simp add: node_boot_def raft_boot_eq raft_create_def)

theorem raft_assertions_hold_witness:
  "\<exists>n n'. node_run [Call (CallCandidate True), Call (CallEnabled True), Call CallTimer, WorkerIo 0] (node_boot 1 2) = Some n \<and>
     node_ready (WriteDone 0) n \<and> node_exec (WriteDone 0) n = Some n' \<and> raft_inv (n_raft n')"
proof -
  let ?ops = "[Call (CallCandidate True), Call (CallEnabled True), Call CallTimer, WorkerIo 0]"
  let ?n = "the (node_run ?ops (node_boot 1 2))"
  have n: "node_run ?ops (node_boot 1 2) = Some ?n" "node_ready (WriteDone 0) ?n"
    by (simp_all add: node_boot_eq raft_create_def raft_eval)
  have r: "node_reach \<lparr>n_raft = n_raft (node_boot 1 2), n_pending = None, n_rows = []\<rparr> ?n"
    using node_run_reach[OF n(1)] by (simp add: node_boot_def)
  have b: "raft_boot 1 zero_vclock 2 [] = Some (n_raft (node_boot 1 2))"
    by (simp add: node_boot_def raft_boot_eq)
  show ?thesis
    using raft_assertions_hold[OF _ _ _ b r n(2)] n by fastforce
qed

theorem raft_recovery_restores_witness:
  "\<exists>n r. node_run [Call (CallCandidate True), Call (CallEnabled True), Call CallTimer, WorkerIo 0, Call CallNewTerm, WriteDone 0]
       (node_boot 1 2) = Some n \<and> r_vote (n_raft n) = 1 \<and>
     raft_boot 1 zero_vclock 2 (n_rows n) = Some r \<and> r_term r = 2 \<and> r_vote r = 1"
proof -
  let ?ops = "[Call (CallCandidate True), Call (CallEnabled True), Call CallTimer, WorkerIo 0, Call CallNewTerm, WriteDone 0]"
  let ?n = "the (node_run ?ops (node_boot 1 2))"
  have n: "node_run ?ops (node_boot 1 2) = Some ?n" "r_vote (n_raft ?n) = 1" "r_term (n_raft ?n) = 2"
    by (simp_all add: node_boot_eq raft_create_def raft_new_term_def raft_eval)
  have r: "node_reach \<lparr>n_raft = n_raft (node_boot 1 2), n_pending = None, n_rows = []\<rparr> ?n"
    using node_run_reach[OF n(1)] by (simp add: node_boot_def)
  have b: "raft_boot 1 zero_vclock 2 [] = Some (n_raft (node_boot 1 2))"
    by (simp add: node_boot_def raft_boot_eq)
  show ?thesis
    using raft_recovery_restores[OF _ _ _ b r] n by auto
qed

text \<open>
  C33. A stale vote.  A node that has voted for instance 2 in term 2 and then moved to term 3, where it has
  voted for nobody, comes back from a restart with a vote for instance 2 in term 3, because
  \<^verbatim>\<open>raft_process_recovery\<close> does not reset the vote when a row carries a new term and no vote.
\<close>

theorem raft_recovery_stale_vote:
  "\<exists>n r. node_reach (node_boot 1 2) n \<and> n_pending n = None \<and>
     raft_is_fully_on_disk (n_raft n) \<and> r_term (n_raft n) = 3 \<and> r_vote (n_raft n) = 0 \<and>
     raft_boot 1 zero_vclock 2 (n_rows n) = Some r \<and> r_term r = 3 \<and> r_vote r = 2"
proof -
  let ?req = "\<lparr>m_term = 2, m_vote = 2, m_state = 2, m_vclock = Some zero_vclock\<rparr>"
  let ?ops = "[Call (CallEnabled True), Call (CallMsg ?req 2), WorkerIo 0, WriteDone 0,
      Call CallNewTerm, WorkerIo 0, WriteDone 0]"
  let ?n = "the (node_run ?ops (node_boot 1 2))"
  have n: "node_run ?ops (node_boot 1 2) = Some ?n"  "n_pending ?n = None \<and>
     raft_is_fully_on_disk (n_raft ?n) \<and> r_term (n_raft ?n) = 3 \<and> r_vote (n_raft ?n) = 0"
     "n_rows ?n = [\<lparr>m_term = 2, m_vote = 2, m_state = 0, m_vclock = None\<rparr>, \<lparr>m_term = 3, m_vote = 0, m_state = 0, m_vclock = None\<rparr>]"
    by (simp_all add: node_boot_eq raft_create_def raft_new_term_def raft_eval raft_can_vote_for_def Let_def vc_order0.cmp_refl)
  show ?thesis
    using node_run_reach[OF n(1)] n(2,3) raft_boot_eq[of "n_rows ?n" 1 2 zero_vclock]
    by (auto simp: row_ok_def)
qed


section \<open>The worker settles\<close>

abbreviation alone :: "raft_msg \<Rightarrow> raft \<Rightarrow> raft" where
  "alone \<equiv> \<lambda>req r. r"

text \<open>The worker's step composed with \<open>w\<close>, the work of the other fibers during the write.\<close>

lemma raft_worker_handle_io_split:
  "raft_worker_handle_io w rnd (n_raft n) = (
     case node_exec (WorkerIo rnd) n of
       None \<Rightarrow> None
     | Some n1 \<Rightarrow> if raft_is_fully_on_disk (n_raft n) then Some (n_raft n1)
         else raft_io_persisted rnd (the (n_pending n1)) (w (the (n_pending n1)) (n_raft n1)))"
  by (auto simp: raft_worker_handle_io_def raft_write_def bind_c_assert Let_def split: option.splits)

definition raft_elected_self :: "raft \<Rightarrow> bool" where
  "raft_elected_self r \<longleftrightarrow> (r_election_quorum r = 1 \<longrightarrow> r_state r = LEADER) \<and> (r_election_quorum r \<noteq> 1 \<longrightarrow> r_state r = CANDIDATE)"

text \<open>What one turn of the worker does when nobody interferes.\<close>

definition raft_after_io :: "raft \<Rightarrow> raft \<Rightarrow> bool" where
  "raft_after_io r r' \<longleftrightarrow> raft_inv r' \<and> r_volatile_term r' = r_volatile_term r \<and> r_self r' = r_self r \<and>
      r_leader r' = (if r_state r' = LEADER then r_self r else r_leader r) \<and>
      r_is_candidate r' = r_is_candidate r \<and> r_election_quorum r' = r_election_quorum r \<and>
      (r_is_write_in_progress r' \<longrightarrow> r_volatile_vote r' = r_self r \<and> r_volatile_vote r = 0 \<and> r_is_candidate r \<and> r_leader r = 0) \<and>
      (\<not> r_is_write_in_progress r' \<longrightarrow> r_volatile_vote r' = r_volatile_vote r) \<and>
      (r_is_candidate r \<and> r_leader r = 0 \<longrightarrow> r_is_write_in_progress r' \<or>
        r_vote r' \<noteq> 0 \<and> (r_vote r' = r_self r \<longrightarrow> raft_elected_self r'))"

lemma end_dump_after_io:
  assumes "raft_inv r" "r_is_write_in_progress r" "raft_is_fully_on_disk r" "r_self r < 32"
  shows "succeeds (raft_after_io r) (raft_io_end_dump rnd r)"
  using assms
  by (auto simp: raft_after_io_def raft_io_end_dump_def raft_wait_defs raft_sm_become_leader_def raft_sm_become_candidate_def
      raft_sm_schedule_new_vote_def raft_sm_pause_and_dump_def raft_effect_defs raft_inv_def raft_is_fully_on_disk_def
      raft_elected_self_def Let_def)

lemma handle_io_alone:
  assumes "raft_inv r" and "r_is_write_in_progress r" and "r_self r < 32"
  shows "succeeds (raft_after_io r) (raft_worker_handle_io alone rnd r)"
proof (cases "raft_is_fully_on_disk r")
  case True
  then show ?thesis
    using end_dump_after_io[OF assms(1,2) True assms(3)] assms by (simp add: raft_worker_handle_io_def raft_inv_def)
next
  case False
  let ?r1 = "raft_schedule_broadcast ((raft_emit (EvWrite (raft_io_request r)) r)
    \<lparr>r_term := r_volatile_term r, r_vote := r_volatile_vote r\<rparr>)"
  have r1: "raft_inv ?r1" "r_is_write_in_progress ?r1" "raft_is_fully_on_disk ?r1" "r_self ?r1 < 32"
    using assms by (auto simp: raft_inv_def raft_effect_defs raft_is_fully_on_disk_def)
  have "raft_after_io r r'" if "raft_after_io ?r1 r'" for r'
    using that by (simp add: raft_after_io_def raft_effect_defs)
  then have "succeeds (raft_after_io r) (raft_io_end_dump rnd ?r1)"
    by (rule succeeds_mono[OF end_dump_after_io[OF r1]])
  moreover have "raft_worker_handle_io alone rnd r = raft_io_end_dump rnd ?r1"
    using assms False r1(3)
    by (simp add: raft_worker_handle_io_def raft_inv_def raft_io_persisted_def raft_write_def raft_io_request_def
      raft_emit_def)
  ultimately show ?thesis by simp
qed

definition flushed :: "raft_event list \<Rightarrow> raft \<Rightarrow> raft" where
  "flushed ev r = r\<lparr>r_is_broadcast_scheduled := False, r_events := ev\<rparr>"

lemma flushed_simps [simp]:
  "r_is_write_in_progress (flushed ev r) = r_is_write_in_progress r" "r_is_broadcast_scheduled (flushed ev r) = False"
  "r_state (flushed ev r) = r_state r" "r_leader (flushed ev r) = r_leader r" "r_self (flushed ev r) = r_self r"
  "r_is_candidate (flushed ev r) = r_is_candidate r" "r_vote (flushed ev r) = r_vote r"
  "r_volatile_vote (flushed ev r) = r_volatile_vote r" "r_volatile_term (flushed ev r) = r_volatile_term r"
  "r_election_quorum (flushed ev r) = r_election_quorum r"
  "raft_inv (flushed ev r) = raft_inv r" "raft_is_fully_on_disk (flushed ev r) = raft_is_fully_on_disk r"
  "raft_elected_self (flushed ev r) = raft_elected_self r"
  by (simp_all add: flushed_def raft_inv_def raft_is_fully_on_disk_def raft_elected_self_def)

lemma broadcast_flushed:
  assumes "raft_inv r"
  shows "\<exists>ev. (if r_is_broadcast_scheduled r then raft_worker_handle_broadcast r else Some r) = Some (flushed ev r)"
proof (cases "r_is_broadcast_scheduled r")
  case True
  then show ?thesis using handle_broadcast_ok[OF assms True]
    by (auto simp: flushed_def elim!: succeedsE)
next
  case False
  then have "Some r = Some (flushed (r_events r) r)" by (simp add: flushed_def)
  then show ?thesis using False by auto
qed

text \<open>One turn of the loop of \<^verbatim>\<open>raft_process_async\<close>.\<close>

lemma async_turn_write:
  assumes "raft_inv r" and "r_is_write_in_progress r" and "r_self r < 32"
  shows "\<exists>r2 ev. raft_after_io r r2 \<and> raft_process_async (Suc fuel) alone rnd r = raft_process_async fuel alone rnd (flushed ev r2)"
proof -
  obtain r2 where r2: "raft_worker_handle_io alone rnd r = Some r2" "raft_after_io r r2"
    using handle_io_alone[OF assms] by (auto elim: succeedsE)
  then have "raft_inv r2" by (simp add: raft_after_io_def)
  from broadcast_flushed[OF this] obtain ev where
    "(if r_is_broadcast_scheduled r2 then raft_worker_handle_broadcast r2 else Some r2) = Some (flushed ev r2)" by blast
  then have "raft_process_async (Suc fuel) alone rnd r = raft_process_async fuel alone rnd (flushed ev r2)"
    using assms(2) r2(1) by simp
  with r2(2) show ?thesis by blast
qed

lemma async_turn_idle:
  assumes "raft_inv r" and "\<not> r_is_write_in_progress r"
  shows "\<exists>ev. raft_process_async (Suc (Suc fuel)) alone rnd r = Some (Some (flushed ev r))"
proof -
  obtain ev where ev: "(if r_is_broadcast_scheduled r then raft_worker_handle_broadcast r else Some r) = Some (flushed ev r)"
    using broadcast_flushed[OF assms(1)] by blast
  have "raft_is_fully_on_disk r" using assms by (simp add: raft_inv_def)
  then have "raft_process_async (Suc (Suc fuel)) alone rnd r = Some (Some (flushed ev r))"
    using assms(2) ev by (cases "r_is_broadcast_scheduled r") simp_all
  then show ?thesis by blast
qed

lemma async_done_idle:
  "raft_inv r \<Longrightarrow> \<not> r_is_write_in_progress r \<Longrightarrow> \<not> r_is_broadcast_scheduled r \<Longrightarrow>
     raft_process_async (Suc fuel) alone rnd r = Some (Some r)"
  by (simp add: raft_inv_def)

lemma raft_after_io_inv: "raft_after_io r r2 \<Longrightarrow> raft_inv (flushed ev r2)"
  by (simp add: raft_after_io_def)

lemma raft_inv_on_disk: "raft_inv r \<Longrightarrow> \<not> r_is_write_in_progress r \<Longrightarrow> raft_is_fully_on_disk r"
  by (simp add: raft_inv_def)

text \<open>The outcome of the worker's run.\<close>

definition raft_settled :: "raft \<Rightarrow> raft \<Rightarrow> bool" where
  "raft_settled r r' \<longleftrightarrow> raft_inv r' \<and> raft_is_fully_on_disk r' \<and> \<not> r_is_write_in_progress r' \<and>
     \<not> r_is_broadcast_scheduled r' \<and> r_volatile_term r' = r_volatile_term r \<and>
     (r_is_write_in_progress r \<and> r_is_candidate r \<and> r_leader r = 0 \<longrightarrow>
        r_vote r' \<noteq> 0 \<and> (r_vote r' = r_self r \<longrightarrow> raft_elected_self r'))"

text \<open>
  C11. The worker's loop ends.  From any state that satisfies the node invariant, with an instance id below
  \<^verbatim>\<open>VCLOCK_MAX\<close> and no other fiber interfering, \<^verbatim>\<open>raft_process_async\<close> is done after at most three turns,
  with term and vote on disk and everything broadcast.  If a write was in progress when it started and the
  node may be elected and knows no leader of its new term, it has then cast a vote in that term, and when the
  vote is for itself it is a candidate, or the leader if the quorum is one.
\<close>

theorem raft_process_async_settles:
  assumes "raft_inv r" and self: "r_self r < 32"
  shows "\<exists>r'. raft_process_async 3 alone rnd r = Some (Some r') \<and> raft_settled r r'"
proof (cases "r_is_write_in_progress r")
  case False
  then obtain ev where "raft_process_async 3 alone rnd r = Some (Some (flushed ev r))"
    using async_turn_idle[OF assms(1) False, of 1 rnd] by (auto simp: numeral_eq_Suc)
  then show ?thesis
    using assms False by (auto simp: raft_settled_def raft_inv_on_disk)
next
  case True
  obtain r2 ev where r2: "raft_after_io r r2"
      "raft_process_async 3 alone rnd r = raft_process_async 2 alone rnd (flushed ev r2)"
    using async_turn_write[OF assms(1) True self, of 2 rnd] by (auto simp: numeral_eq_Suc)
  show ?thesis
  proof (cases "r_is_write_in_progress r2")
    case False
    then have "raft_process_async 3 alone rnd r = Some (Some (flushed ev r2))"
      using r2 async_done_idle[OF raft_after_io_inv[OF r2(1)], of ev 1 rnd] by (simp add: numeral_2_eq_2)
    then show ?thesis
      using r2(1) False by (auto simp: raft_settled_def raft_after_io_def raft_inv_on_disk)
  next
    case w2: True
    obtain r3 ev' where r3: "raft_after_io (flushed ev r2) r3"
      "raft_process_async 2 alone rnd (flushed ev r2) = raft_process_async 1 alone rnd (flushed ev' r3)"
      using async_turn_write[OF raft_after_io_inv[OF r2(1)], of ev 1 rnd] w2 self r2(1) by (auto simp: numeral_2_eq_2 raft_after_io_def)
    have *: "r_volatile_vote r2 = r_self r" "r_self r \<noteq> 0" "r_self r2 = r_self r" "r_state r2 = FOLLOWER"
      using r2(1) w2 by (auto simp: raft_after_io_def raft_inv_def)
    then have w3: "\<not> r_is_write_in_progress r3" using r3(1) by (auto simp: raft_after_io_def)
    then have "raft_process_async 3 alone rnd r = Some (Some (flushed ev' r3))"
      using r2 r3 async_done_idle[OF raft_after_io_inv[OF r3(1)], of ev' 0 rnd] by simp
    moreover have "raft_settled r (flushed ev' r3)"
      using r2(1) r3(1) w2 w3 * by (auto simp: raft_settled_def raft_after_io_def raft_inv_on_disk)
    ultimately show ?thesis by blast
  qed
qed

theorem raft_process_async_settles_witness:
  "\<exists>n r'. node_run [Call (CallCandidate True), Call (CallEnabled True), Call CallTimer] (node_boot 1 2) = Some n \<and>
     raft_inv (n_raft n) \<and> raft_process_async 3 alone 0 (n_raft n) = Some (Some r') \<and> r_state r' = CANDIDATE"
proof -
  let ?n = "the (node_run [Call (CallCandidate True), Call (CallEnabled True), Call CallTimer] (node_boot 1 2))"
  have n: "node_run [Call (CallCandidate True), Call (CallEnabled True), Call CallTimer] (node_boot 1 2) = Some ?n"
      "raft_inv (n_raft ?n)" "r_self (n_raft ?n) < 32"
    by (simp_all add: node_boot_eq raft_create_def raft_eval raft_inv_def)
  obtain r' where r': "raft_process_async 3 alone 0 (n_raft ?n) = Some (Some r')" 
    using raft_process_async_settles[OF n(2,3), of 0] by blast
  then have "r_state r' = CANDIDATE"
    by (simp add: node_boot_eq raft_create_def raft_eval numeral_3_eq_3 raft_worker_handle_io_def Let_def) auto
  with n r' show ?thesis by blast
qed

section \<open>Votes\<close>

lemma new_vote_vv:
  "raft_sm_schedule_new_vote v r = Some r' \<Longrightarrow> r_volatile_vote r' = v \<and> r_volatile_term r' = r_volatile_term r"
  by (auto simp: raft_sm_schedule_new_vote_def raft_sm_pause_and_dump_def raft_effect_defs bind_c_assert split: if_split_asm)

lemma new_term_vv:
  "raft_sm_schedule_new_term t r = Some r' \<Longrightarrow>
     r_volatile_vote r' = 0 \<and> r_volatile_term r' = t \<and> r_self r' = r_self r \<and> r_vclock r' = r_vclock r"
  by (auto simp: raft_sm_schedule_new_term_def raft_candidate_defs raft_wait_defs raft_sm_pause_and_dump_def
      raft_effect_defs bind_c_assert Let_def split: if_split_asm)

lemma new_election_vv:
  "raft_sm_schedule_new_election r = Some r' \<Longrightarrow> r_volatile_vote r' = r_self r"
  by (auto simp: raft_sm_schedule_new_election_def bind_c_assert split: if_split_asm bind_split_asm dest!: new_term_vv new_vote_vv)

lemma process_leadership_vv:
  "raft_process_leadership req source r = Some r' \<Longrightarrow>
     r_volatile_vote r' = r_self r \<or> r_volatile_vote r' = r_volatile_vote r \<and> r_volatile_term r' = r_volatile_term r"
  by (auto simp: raft_process_leadership_def raft_sm_follow_leader_def raft_wait_defs raft_effect_defs Let_def
      bind_c_assert split: if_split_asm dest!: new_election_vv)

definition raft_grants :: "raft_msg \<Rightarrow> u32 \<Rightarrow> raft \<Rightarrow> bool" where
  "raft_grants req source r \<longleftrightarrow> m_state req = raft_state_code CANDIDATE \<and> m_vote req = source \<and>
     (\<exists>v own. m_vclock req = Some v \<and> r_vclock r = Some own \<and> vclock_compare_ignore0 v own \<in> {0, 1})"

lemma process_vote_vv:
  assumes "raft_process_vote req source r = Some r'"
    and "m_state req = raft_state_code CANDIDATE \<longrightarrow> m_vote req = source"
  shows "r_volatile_term r' = r_volatile_term r \<and> r_self r' = r_self r \<and>
    (r_volatile_vote r' = r_volatile_vote r \<or> r_volatile_vote r = 0 \<and> r_volatile_vote r' = source \<and> raft_grants req source r)"
proof (cases "r_state r = CANDIDATE")
  case True
  then show ?thesis using assms(1)
    by (auto simp: raft_process_vote_def raft_sm_become_leader_def raft_effect_defs bind_c_assert Let_def
      split: if_split_asm prod.splits)
next
  case False
  then show ?thesis using assms
    by (cases "r_state r"; cases "m_vclock req"; cases "r_vclock r")
      (auto simp: raft_process_vote_def raft_can_vote_for_def raft_grants_def raft_sm_schedule_new_vote_def
      raft_sm_pause_and_dump_def raft_effect_defs bind_c_assert Let_def split: if_split_asm)
qed

lemma raft_process_msg_accepted:
  assumes "raft_process_msg req source r = Some (rc, r')" and "r' \<noteq> r"
  obtains r0 where "m_state req = raft_state_code CANDIDATE \<longrightarrow> m_vote req = source"
    and "m_term req \<ge> r_volatile_term r" and "raft_msg_tail req source r0 = Some r'"
    and "if m_term req > r_volatile_term r then raft_sm_schedule_new_term (m_term req) r = Some r0 else r0 = r"
proof -
  note msg = assms(1)[unfolded raft_process_msg_eq]
  show thesis
    using msg assms(2) that
    by (auto simp: bind_c_assert Option.bind_eq_Some_conv not_less split: if_split_asm)
qed

text \<open>
  C16. Votes are granted only to up-to-date candidates.  When processing a message leaves a node with a vote it did not
  have before, the vote is for the node itself, or it is for the sender, which asked for it as a candidate of
  that very term with a vector clock that is not behind the node's own (component 0 apart).
\<close>

theorem raft_vote_granted_to_up_to_date:
  assumes "raft_process_msg req source r = Some (rc, r')"
    and "(r_volatile_term r', r_volatile_vote r') \<noteq> (r_volatile_term r, r_volatile_vote r)"
    and "r_volatile_vote r' \<noteq> 0" and "r_volatile_vote r' \<noteq> r_self r"
  shows "r_volatile_vote r' = source \<and> r_volatile_term r' = m_term req \<and> raft_grants req source r"
proof -
  let ?ok = "m_state req = raft_state_code CANDIDATE \<longrightarrow> m_vote req = source"
  have tail: "r_volatile_vote r' = source \<and> r_volatile_term r' = r_volatile_term r0 \<and> raft_grants req source r0"
    if "raft_msg_tail req source r0 = Some r'"
      "(r_volatile_term r', r_volatile_vote r') \<noteq> (r_volatile_term r0, r_volatile_vote r0)" "r_self r0 = r_self r" ?ok for r0
    using that(1) unfolding raft_msg_tail_def
  proof (rule Option.bind_eq_Some_conv[THEN iffD1, THEN exE], elim conjE)
    fix r1 assume r1: "(if m_vote req \<noteq> 0 then raft_process_vote req source r0 else Some r0) = Some r1"
      "raft_process_leadership req source r1 = Some r'"
    then show ?thesis
      using process_vote_vv[of req source r0 r1] process_leadership_vv[OF r1(2)] that(2-4) assms(3,4)
      by (auto split: if_split_asm)
  qed
  have "r' \<noteq> r" using assms(2) by auto
  from assms(1) this obtain r0 where r0: ?ok "m_term req \<ge> r_volatile_term r" "raft_msg_tail req source r0 = Some r'"
      "if m_term req > r_volatile_term r then raft_sm_schedule_new_term (m_term req) r = Some r0 else r0 = r"
    by (rule raft_process_msg_accepted)
  show ?thesis
  proof (cases "m_term req > r_volatile_term r")
    case True
    then show ?thesis
      using tail[OF r0(3)] new_term_vv[of "m_term req" r r0] assms(3) r0(1,4) by (auto simp: raft_grants_def)
  next
    case False
    then show ?thesis using tail[OF r0(3)] assms(2) r0 by auto
  qed
qed

theorem raft_vote_granted_to_up_to_date_witness:
  "\<exists>n rc r'. node_run [Call (CallEnabled True)] (node_boot 1 2) = Some n \<and>
     raft_process_msg \<lparr>m_term = 2, m_vote = 2, m_state = 2, m_vclock = Some zero_vclock\<rparr> 2 (n_raft n) = Some (rc, r') \<and>
     r_volatile_vote r' = 2 \<and> r_volatile_term r' = 2"
proof -
  let ?n = "the (node_run [Call (CallEnabled True)] (node_boot 1 2))"
  let ?m = "\<lparr>m_term = 2, m_vote = 2, m_state = 2, m_vclock = Some zero_vclock\<rparr>"
  let ?x = "the (raft_process_msg ?m 2 (n_raft ?n))"
  have n: "node_run [Call (CallEnabled True)] (node_boot 1 2) = Some ?n"
      "raft_process_msg ?m 2 (n_raft ?n) = Some (fst ?x, snd ?x)" "r_volatile_vote (snd ?x) \<noteq> 0"
      "r_volatile_vote (snd ?x) \<noteq> r_self (n_raft ?n)" "r_volatile_vote (n_raft ?n) = 0"
    by (simp_all add: node_boot_eq raft_create_def raft_eval raft_can_vote_for_def Let_def vc_order0.cmp_refl)
  have "r_volatile_vote (snd ?x) = 2 \<and> r_volatile_term (snd ?x) = 2"
    using raft_vote_granted_to_up_to_date[OF n(2) _ n(3,4)] n(3,5) by auto
  with n(1,2) show ?thesis by blast
qed

end
