(* ===== verification/Raft_Cluster.thy ===== *)
theory Raft_Cluster
  imports Raft_Node
begin

text \<open>
  A replica set of Raft nodes: every node runs \<^verbatim>\<open>src/src/lib/raft/raft.c\<close>, receives what other nodes have
  broadcast (late, twice or never) and may be restarted from its log.  The main result is election
  safety: at most one instance is ever the leader of a term.
\<close>

section \<open>The cluster\<close>

text \<open>
  Two components record history: \<open>c_votes\<close> the votes that were ever persistent at a node, by term,
  and \<open>c_elected\<close> the terms and instances that were ever in the state LEADER.
\<close>

record cluster =
  c_nodes :: "u32 \<Rightarrow> raft_node"
  c_net :: "(u32 \<times> raft_msg) set"
  c_votes :: "u32 \<Rightarrow> (u64 \<times> u32) set"
  c_elected :: "(u64 \<times> u32) set"

definition publish :: "u32 \<Rightarrow> raft_node \<Rightarrow> cluster \<Rightarrow> cluster" where
  "publish i n s =
     (let r = n_raft n in
      s\<lparr>c_nodes := (c_nodes s)(i := n),
        c_net := c_net s \<union> {i} \<times> raft_sent r,
        c_votes := (c_votes s)(i := c_votes s i \<union> (if r_vote r = 0 then {} else {(r_term r, r_vote r)})),
        c_elected := c_elected s \<union> (if r_state r = LEADER then {(r_volatile_term r, i)} else {})\<rparr>)"

text \<open>A message is delivered only if its source broadcast it, and a configured quorum is a majority.\<close>

definition cluster_allows :: "u32 set \<Rightarrow> cluster \<Rightarrow> node_op \<Rightarrow> bool" where
  "cluster_allows ids s op = (case op of
       Call (CallMsg req source) \<Rightarrow> source \<in> ids \<and> (source, req) \<in> c_net s
     | Call (CallQuorum q) \<Rightarrow> int (card ids) < 2 * q
     | _ \<Rightarrow> True)"

inductive cluster_step :: "u32 set \<Rightarrow> cluster \<Rightarrow> cluster \<Rightarrow> bool" for ids where
  cluster_op: "i \<in> ids \<Longrightarrow> cluster_allows ids s op \<Longrightarrow> node_ready op (c_nodes s i) \<Longrightarrow>
    node_exec op (c_nodes s i) = Some n \<Longrightarrow> cluster_step ids s (publish i n s)"
| cluster_restart: "i \<in> ids \<Longrightarrow> int (card ids) < 2 * q \<Longrightarrow>
    rows = n_rows (c_nodes s i) \<or>
      (\<exists>req. n_pending (c_nodes s i) = Some req \<and> rows = n_rows (c_nodes s i) @ [req]) \<Longrightarrow>
    raft_boot i v q rows = Some r \<Longrightarrow>
    cluster_step ids s (publish i \<lparr>n_raft = r, n_pending = None, n_rows = rows\<rparr> s)"
| cluster_apply: "i \<in> ids \<Longrightarrow>
    cluster_step ids s (publish i ((c_nodes s i)\<lparr>n_raft := (n_raft (c_nodes s i))\<lparr>r_vclock := Some v\<rparr>\<rparr>) s)"

definition cluster_init :: "u32 set \<Rightarrow> cluster \<Rightarrow> bool" where
  "cluster_init ids s \<longleftrightarrow> c_net s = {} \<and> c_votes s = (\<lambda>_. {}) \<and> c_elected s = {} \<and>
     (\<forall>i\<in>ids. \<exists>v q r. int (card ids) < 2 * q \<and> raft_boot i v q [] = Some r \<and>
        c_nodes s i = \<lparr>n_raft = r, n_pending = None, n_rows = []\<rparr>)"

inductive cluster_reach :: "u32 set \<Rightarrow> cluster \<Rightarrow> bool" for ids where
  cluster_reach_init: "cluster_init ids s \<Longrightarrow> cluster_reach ids s"
| cluster_reach_step: "cluster_reach ids s \<Longrightarrow> cluster_step ids s s' \<Longrightarrow> cluster_reach ids s'"

text \<open>The nodes whose votes a candidate has counted.\<close>

definition voters :: "raft \<Rightarrow> u32 set" where
  "voters r = {j. bit (r_vote_mask r) (unat j)}"

section \<open>What a step of a node does to elections\<close>

definition candidate_source :: "node_op \<Rightarrow> raft \<Rightarrow> raft \<Rightarrow> bool" where
  "candidate_source op r r' \<longleftrightarrow>
     r_state r = CANDIDATE \<and> r_volatile_term r' = r_volatile_term r \<and>
       r_vote_mask r' = r_vote_mask r \<and> r_vote_count r' = r_vote_count r \<or>
     r_volatile_term r' = r_term r' \<and> r_vote r' = r_self r \<and> r_vote_count r' = 1 \<and>
       r_vote_mask r' = mask_with 0 (r_self r) \<or>
     (\<exists>req source. op = Call (CallMsg req source) \<and> r_state r = CANDIDATE \<and>
       m_term req = r_volatile_term r \<and> m_vote req = r_self r \<and> r_volatile_term r' = r_volatile_term r \<and>
       r_vote_mask r' = mask_with (r_vote_mask r) source \<and> r_vote_count r' = raft_new_count source r)"

definition leader_source :: "node_op \<Rightarrow> raft \<Rightarrow> raft \<Rightarrow> bool" where
  "leader_source op r r' \<longleftrightarrow>
     r_state r = LEADER \<and> r_volatile_term r' = r_volatile_term r \<or>
     r_volatile_term r' = r_term r' \<and> r_vote r' = r_self r \<and> r_election_quorum r' = 1 \<or>
     (\<exists>req source. op = Call (CallMsg req source) \<and> r_state r = CANDIDATE \<and>
       m_term req = r_volatile_term r \<and> m_vote req = r_self r \<and> r_volatile_term r' = r_volatile_term r \<and>
       r_election_quorum r' \<le> raft_new_count source r) \<or>
     r_state r = CANDIDATE \<and> r_volatile_term r' = r_volatile_term r \<and> r_election_quorum r' \<le> r_vote_count r"

definition node_effect :: "node_op \<Rightarrow> raft \<Rightarrow> raft \<Rightarrow> bool" where
  "node_effect op r r' \<longleftrightarrow> r_self r' = r_self r \<and>
     (r_election_quorum r' = r_election_quorum r \<or> (\<exists>q. op = Call (CallQuorum q) \<and> r_election_quorum r' = q)) \<and>
     r_term r \<le> r_term r' \<and> (r_term r' = r_term r \<longrightarrow> r_vote r = 0 \<or> r_vote r' = r_vote r) \<and>
     raft_sent r' \<subseteq> raft_sent r \<union> {m. m_term m = r_term r' \<and> m_vote m = r_vote r'} \<and>
     (r_state r' = CANDIDATE \<longrightarrow> candidate_source op r r') \<and>
     (r_state r' = LEADER \<longrightarrow> leader_source op r r')"

lemma raft_quiet_effect: "raft_quiet r r' \<Longrightarrow> node_effect op r r'"
  by (auto simp: node_effect_def raft_quiet_def raft_safe_def raft_frame_def candidate_source_def leader_source_def)

lemma raft_counted_effect:
  "raft_counted source r r' \<Longrightarrow> m_term req = r_volatile_term r \<Longrightarrow> m_vote req = r_self r \<Longrightarrow>
     node_effect (Call (CallMsg req source)) r r'"
  by (auto simp: node_effect_def raft_counted_def raft_safe_def raft_frame_def candidate_source_def leader_source_def)

lemma quorum_effect:
  assumes "raft_inv r" and "q > 0" and "raft_cfg_election_quorum q r = Some r'"
  shows "node_effect (Call (CallQuorum q)) r r'"
  using cfg_election_quorum_ok[OF assms(1,2)] assms(3)
  by (auto simp: node_effect_def candidate_source_def leader_source_def)

lemma end_dump_effect:
  assumes "raft_inv r" and "r_is_write_in_progress r" and "raft_is_fully_on_disk r" and "raft_io_end_dump rnd r = Some r'"
  shows "node_effect op r r'"
  using io_end_dump_ok[OF assms(1-3), of rnd] assms(3,4)
  by (auto simp: node_effect_def raft_frame_def candidate_source_def leader_source_def raft_is_fully_on_disk_def)

lemma io_persisted_effect:
  assumes "raft_inv r" and "raft_pending req r" and "raft_io_persisted rnd req r = Some r'"
  shows "node_effect op r r'"
  using io_persisted_ok[OF assms(1,2), of rnd] assms(2,3)
  by (auto simp: node_effect_def candidate_source_def leader_source_def raft_pending_def)

lemma broadcast_effect:
  assumes "raft_inv r" and "r_is_broadcast_scheduled r" and "raft_worker_handle_broadcast r = Some r'"
  shows "node_effect op r r'"
  using handle_broadcast_ok[OF assms(1,2)] assms(3)
  by (auto simp: node_effect_def candidate_source_def leader_source_def raft_sent_def raft_checkpoint_remote_def)

lemma node_exec_effect:
  assumes "node_inv n" and "node_ready op n" and "node_exec op n = Some n'"
  shows "node_effect op (n_raft n) (n_raft n')"
proof (cases op)
  case (Call c)
  show ?thesis
  proof (cases "\<exists>q. c = CallQuorum q")
    case True
    then show ?thesis
      using quorum_effect assms Call by (auto simp: node_inv_def)
  next
    case False
    then have "succeeds (\<lambda>r'. node_effect op (n_raft n) r') (raft_exec c (n_raft n))"
      using raft_exec_ok[of "n_raft n" c] assms Call
      by (auto simp: node_inv_def intro: raft_quiet_effect raft_counted_effect elim!: succeeds_mono)
    then show ?thesis
      using assms(3) Call by auto
  qed
next
  case (WorkerIo rnd)
  then show ?thesis
    using assms end_dump_effect[of "n_raft n" rnd _ op]
    by (auto simp: node_inv_def bind_c_assert node_effect_def candidate_source_def leader_source_def raft_emit_def
       raft_sent_def split: if_split_asm)
next
  case (WriteDone rnd)
  then show ?thesis
    using assms io_persisted_effect[of "n_raft n" _ rnd] by (auto simp: node_inv_def)
next
  case WorkerBroadcast
  then show ?thesis
    using assms broadcast_effect[of "n_raft n"] by (auto simp: node_inv_def)
qed

lemma voters_set:
  assumes "source < 32" and "r_vote_mask r' = mask_with (r_vote_mask r) source"
  shows "voters r' = insert source (voters r)"
proof -
  have "(bit (push_bit (unat source) (1::u32)) (unat j)) = (j = source)" for j :: u32
    using assms(1) by (auto simp: bit_exp_iff word_less_nat_alt word_unat_eq_iff)
  then show ?thesis
    using assms by (auto simp: voters_def mask_with_def bit_or_iff simp del: push_bit_of_1)
qed

lemma voters_single:
  assumes "source < 32" and "r_vote_mask r' = mask_with 0 source"
  shows "voters r' = {source}"
  using voters_set[of source r' "r'\<lparr>r_vote_mask := 0\<rparr>"] assms by (simp add: voters_def)

lemma raft_new_count_eq:
  assumes "source < 32" and "finite (voters r)" and "r_vote_count r = int (card (voters r))"
  shows "raft_new_count source r = int (card (insert source (voters r)))"
  using assms by (auto simp: raft_new_count_def voters_def card_insert_if)

section \<open>The invariant of the cluster\<close>

definition majority :: "u32 set \<Rightarrow> (u32 \<Rightarrow> (u64 \<times> u32) set) \<Rightarrow> u64 \<Rightarrow> u32 \<Rightarrow> bool" where
  "majority ids votes t i \<longleftrightarrow> (\<exists>Q. Q \<subseteq> ids \<and> card ids < 2 * card Q \<and> (\<forall>k\<in>Q. (t, i) \<in> votes k))"

definition votes_inv :: "(u64 \<times> u32) set \<Rightarrow> u64 \<Rightarrow> u32 \<Rightarrow> bool" where
  "votes_inv V t v \<longleftrightarrow> (v \<noteq> 0 \<longrightarrow> (t, v) \<in> V) \<and> (\<forall>t' x. (t', x) \<in> V \<longrightarrow> x \<noteq> 0 \<and> t' \<le> t \<and> (t' = t \<longrightarrow> x = v)) \<and>
     (\<forall>t' x y. (t', x) \<in> V \<longrightarrow> (t', y) \<in> V \<longrightarrow> x = y)"

definition member_inv :: "u32 set \<Rightarrow> cluster \<Rightarrow> u32 \<Rightarrow> bool" where
  "member_inv ids s i \<longleftrightarrow> (let n = c_nodes s i; r = n_raft n in
     node_inv n \<and> node_log n \<and> list_all row_ok (n_rows n) \<and> (\<forall>req. n_pending n = Some req \<longrightarrow> row_ok req) \<and>
     r_self r = i \<and> int (card ids) < 2 * r_election_quorum r \<and>
     (\<forall>m\<in>raft_sent r. (i, m) \<in> c_net s) \<and>
     (\<forall>m. (i, m) \<in> c_net s \<longrightarrow> m_vote m \<noteq> 0 \<longrightarrow> (m_term m, m_vote m) \<in> c_votes s i) \<and>
     votes_inv (c_votes s i) (r_term r) (r_vote r) \<and>
     (r_state r = CANDIDATE \<longrightarrow> voters r \<subseteq> ids \<and> r_vote_count r = int (card (voters r)) \<and>
        (\<forall>k\<in>voters r. (r_volatile_term r, i) \<in> c_votes s k)) \<and>
     (r_state r = LEADER \<longrightarrow> (r_volatile_term r, i) \<in> c_elected s))"

definition cluster_inv :: "u32 set \<Rightarrow> cluster \<Rightarrow> bool" where
  "cluster_inv ids s \<longleftrightarrow> (\<forall>i\<in>ids. member_inv ids s i) \<and> (\<forall>(t, i)\<in>c_elected s. majority ids (c_votes s) t i)"

lemma publish_simps [simp]:
  "c_nodes (publish i n s) = (c_nodes s)(i := n)"
  "c_net (publish i n s) = c_net s \<union> {i} \<times> raft_sent (n_raft n)"
  "c_elected (publish i n s) = c_elected s \<union>
     (if r_state (n_raft n) = LEADER then {(r_volatile_term (n_raft n), i)} else {})"
  "c_votes (publish i n s) = (c_votes s)(i := c_votes s i \<union>
     (if r_vote (n_raft n) = 0 then {} else {(r_term (n_raft n), r_vote (n_raft n))}))"
  by (simp_all add: publish_def Let_def)

lemma publish_votes_mono: "c_votes s k \<subseteq> c_votes (publish i n s) k"
  by auto

lemma majority_mono: "majority ids V t i \<Longrightarrow> (\<And>k. V k \<subseteq> W k) \<Longrightarrow> majority ids W t i"
  unfolding majority_def by (meson subset_iff)

text \<open>The other members do not notice, except that there are more votes and messages.\<close>

lemma publish_other:
  assumes "member_inv ids s j" and "j \<noteq> i"
  shows "member_inv ids (publish i n s) j"
  using assms publish_votes_mono[of s _ i n] unfolding member_inv_def Let_def by auto

lemma votes_inv_update:
  assumes "votes_inv V t v" and "t \<le> t'" and "t' = t \<longrightarrow> v = 0 \<or> v' = v"
  shows "votes_inv (V \<union> (if v' = 0 then {} else {(t', v')})) t' v'"
proof -
  have new: "x = v'" if "(t', x) \<in> V" for x
    using assms that unfolding votes_inv_def by (metis order.antisym)
  have "t1 \<le> t'" if "(t1, x) \<in> V" for t1 x
    using assms(1,2) that unfolding votes_inv_def by (meson order.trans)
  then show ?thesis
    using assms(1) new unfolding votes_inv_def by (auto dest: new)
qed

lemma member_net_vote:
  "member_inv ids s k \<Longrightarrow> (k, m) \<in> c_net s \<Longrightarrow> m_vote m \<noteq> 0 \<Longrightarrow> (m_term m, m_vote m) \<in> c_votes s k"
  by (auto simp: member_inv_def Let_def)

lemma member_candidate:
  assumes "member_inv ids s i" and "r_state (n_raft (c_nodes s i)) = CANDIDATE"
  shows "voters (n_raft (c_nodes s i)) \<subseteq> ids"
    and "r_vote_count (n_raft (c_nodes s i)) = int (card (voters (n_raft (c_nodes s i))))"
    and "k \<in> voters (n_raft (c_nodes s i)) \<Longrightarrow> (r_volatile_term (n_raft (c_nodes s i)), i) \<in> c_votes s k"
  using assms by (auto simp: member_inv_def Let_def)

text \<open>A majority at the moment of an election.\<close>

lemma leader_majority:
  assumes inv: "cluster_inv ids s" and i: "i \<in> ids" and ids: "\<forall>j\<in>ids. j < 32"
    and src: "leader_source op (n_raft (c_nodes s i)) (n_raft n)" and allows: "cluster_allows ids s op"
    and q: "int (card ids) < 2 * r_election_quorum (n_raft n)" and self: "r_self (n_raft (c_nodes s i)) = i"
    and leader: "r_state (n_raft n) = LEADER"
  shows "majority ids (c_votes (publish i n s)) (r_volatile_term (n_raft n)) i"
proof -
  let ?r = "n_raft (c_nodes s i)" and ?r' = "n_raft n"
  have m: "member_inv ids s i" and fin: "finite ids" using inv i by (auto simp: cluster_inv_def)
  have ne: "i \<noteq> 0" using m self by (auto simp: member_inv_def Let_def node_inv_def raft_inv_def)
  show ?thesis
    using src unfolding leader_source_def self
  proof (elim disjE exE conjE, goal_cases)
    case old: 1
    then have "majority ids (c_votes s) (r_volatile_term ?r') i"
      using m inv by (auto simp: member_inv_def cluster_inv_def Let_def)
    then show ?thesis using publish_votes_mono by (rule majority_mono)
  next
    case alone: 2
    then have "int (card ids) < 2 * int (card {i})" using q by simp
    then show ?thesis using alone i ne unfolding majority_def by (intro exI[of _ "{i}"]) simp
  next
    case msg: (3 req source)
    note v = member_candidate[OF m msg(2)]
    have source: "source \<in> ids" "(source, req) \<in> c_net s" using allows msg(1) by (auto simp: cluster_allows_def)
    then have "(r_volatile_term ?r, i) \<in> c_votes s source"
      using member_net_vote[of ids s source req] inv ne msg(3,4) by (simp add: cluster_inv_def)
    moreover have "raft_new_count source ?r = int (card (insert source (voters ?r)))"
      using raft_new_count_eq[OF _ finite_subset[OF v(1) fin] v(2)] ids source(1) by blast
    ultimately have "majority ids (c_votes s) (r_volatile_term ?r') i"
      using v source(1) msg(5,6) q unfolding majority_def by (intro exI[of _ "insert source (voters ?r)"]) auto
    then show ?thesis using publish_votes_mono by (rule majority_mono)
  next
    case quorum: 4
    then have "majority ids (c_votes s) (r_volatile_term ?r') i"
      using member_candidate[OF m quorum(1)] q unfolding majority_def by (intro exI[of _ "voters ?r"]) auto
    then show ?thesis using publish_votes_mono by (rule majority_mono)
  qed
qed


lemma candidate_votes:
  assumes inv: "cluster_inv ids s" and i: "i \<in> ids" and ids: "\<forall>j\<in>ids. j < 32"
    and src: "candidate_source op (n_raft (c_nodes s i)) (n_raft n)" and allows: "cluster_allows ids s op"
    and self: "r_self (n_raft (c_nodes s i)) = i"
  shows "voters (n_raft n) \<subseteq> ids \<and> r_vote_count (n_raft n) = int (card (voters (n_raft n))) \<and>
    (\<forall>k\<in>voters (n_raft n). (r_volatile_term (n_raft n), i) \<in> c_votes (publish i n s) k)"
proof -
  let ?r = "n_raft (c_nodes s i)" and ?r' = "n_raft n"
  have m: "member_inv ids s i" and fin: "finite ids" using inv i by (auto simp: cluster_inv_def)
  have ne: "i \<noteq> 0" using m self by (auto simp: member_inv_def Let_def node_inv_def raft_inv_def)
  show ?thesis
    using src unfolding candidate_source_def self
  proof (elim disjE exE conjE, goal_cases)
    case same: 1
    then have "voters ?r' = voters ?r" by (simp add: voters_def)
    then show ?thesis using member_candidate[OF m same(1)] same(2,4) publish_votes_mono[of s _ i n] by auto
  next
    case alone: 2
    then have "voters ?r' = {i}" using voters_single ids i by blast
    then show ?thesis using alone i ne by simp
  next
    case msg: (3 req source)
    note v = member_candidate[OF m msg(2)]
    have source: "source \<in> ids" "(source, req) \<in> c_net s" using allows msg(1) by (auto simp: cluster_allows_def)
    then have "(r_volatile_term ?r, i) \<in> c_votes s source"
      using member_net_vote[of ids s source req] inv ne msg(3,4) by (simp add: cluster_inv_def)
    moreover have "voters ?r' = insert source (voters ?r)" using voters_set[OF _ msg(6)] ids source(1) by blast
    moreover have "raft_new_count source ?r = int (card (insert source (voters ?r)))"
      using raft_new_count_eq[OF _ finite_subset[OF v(1) fin] v(2)] ids source(1) by blast
    ultimately show ?thesis
      using v source(1) msg(5,7) publish_votes_mono[of s _ i n] by auto
  qed
qed

lemma publish_inv:
  assumes inv: "cluster_inv ids s" and i: "i \<in> ids" and ids: "\<forall>j\<in>ids. j < 32"
    and node: "node_inv n" "node_log n" "list_all row_ok (n_rows n)" "\<forall>req. n_pending n = Some req \<longrightarrow> row_ok req"
    and self: "r_self (n_raft n) = i" and q: "int (card ids) < 2 * r_election_quorum (n_raft n)"
    and trm: "r_term (n_raft (c_nodes s i)) \<le> r_term (n_raft n)"
    and vote: "r_term (n_raft n) = r_term (n_raft (c_nodes s i)) \<longrightarrow>
      r_vote (n_raft (c_nodes s i)) = 0 \<or> r_vote (n_raft n) = r_vote (n_raft (c_nodes s i))"
    and sent: "raft_sent (n_raft n) \<subseteq> raft_sent (n_raft (c_nodes s i)) \<union>
      {m. m_term m = r_term (n_raft n) \<and> m_vote m = r_vote (n_raft n)}"
    and cand: "r_state (n_raft n) = CANDIDATE \<longrightarrow> voters (n_raft n) \<subseteq> ids \<and>
      r_vote_count (n_raft n) = int (card (voters (n_raft n))) \<and>
      (\<forall>k\<in>voters (n_raft n). (r_volatile_term (n_raft n), i) \<in> c_votes (publish i n s) k)"
    and lead: "r_state (n_raft n) = LEADER \<longrightarrow> majority ids (c_votes (publish i n s)) (r_volatile_term (n_raft n)) i"
  shows "cluster_inv ids (publish i n s)"
proof -
  have m: "member_inv ids s i" using inv i by (simp add: cluster_inv_def)
  have V: "votes_inv (c_votes s i) (r_term (n_raft (c_nodes s i))) (r_vote (n_raft (c_nodes s i)))"
    using m by (simp add: member_inv_def Let_def)
  have net: "(m_term x, m_vote x) \<in> c_votes (publish i n s) i" if "(i, x) \<in> c_net (publish i n s)" "m_vote x \<noteq> 0" for x
  proof (cases "(i, x) \<in> c_net s")
    case True
    then show ?thesis using member_net_vote[OF m] that(2) by auto
  next
    case False
    then have "x \<in> raft_sent (n_raft n)" "x \<notin> raft_sent (n_raft (c_nodes s i))"
      using that(1) m by (auto simp: member_inv_def Let_def)
    then have "m_term x = r_term (n_raft n)" "m_vote x = r_vote (n_raft n)" using sent by auto
    then show ?thesis using that(2) by simp
  qed
  have "member_inv ids (publish i n s) i"
    using node self q cand net votes_inv_update[OF V trm vote] unfolding member_inv_def Let_def by simp
  then have "\<forall>j\<in>ids. member_inv ids (publish i n s) j"
    using inv publish_other[of ids s _ i n] unfolding cluster_inv_def by metis
  moreover have "majority ids (c_votes (publish i n s)) t j" if "(t, j) \<in> c_elected (publish i n s)" for t j
  proof (cases "(t, j) \<in> c_elected s")
    case True
    then have "majority ids (c_votes s) t j" using inv by (auto simp: cluster_inv_def)
    then show ?thesis using publish_votes_mono by (rule majority_mono)
  next
    case False
    then show ?thesis using that lead by (auto split: if_splits)
  qed
  ultimately show ?thesis by (auto simp: cluster_inv_def)
qed


lemma member_facts:
  assumes "cluster_inv ids s" and "i \<in> ids"
  shows "node_inv (c_nodes s i)" "node_log (c_nodes s i)" "list_all row_ok (n_rows (c_nodes s i))"
    "n_pending (c_nodes s i) = Some req \<Longrightarrow> row_ok req" "r_self (n_raft (c_nodes s i)) = i"
    "int (card ids) < 2 * r_election_quorum (n_raft (c_nodes s i))"
  using assms by (auto simp: cluster_inv_def member_inv_def Let_def)

lemma op_inv:
  assumes inv: "cluster_inv ids s" and ids: "\<forall>j\<in>ids. j < 32" and i: "i \<in> ids" and allows: "cluster_allows ids s op"
    and ready: "node_ready op (c_nodes s i)" and exec: "node_exec op (c_nodes s i) = Some n"
  shows "cluster_inv ids (publish i n s)"
proof -
  note f = member_facts[OF inv i]
  have eff: "node_effect op (n_raft (c_nodes s i)) (n_raft n)" by (rule node_exec_effect[OF f(1) ready exec])
  have q: "int (card ids) < 2 * r_election_quorum (n_raft n)"
    using eff f(6) allows by (auto simp: node_effect_def cluster_allows_def)
  show ?thesis
  proof (rule publish_inv[OF inv i ids])
    show "node_inv n" using node_exec_ok[OF f(1) ready] exec by simp
    show "node_log n" by (rule node_exec_log[OF f(1,2) ready exec])
    have "row_ok (raft_io_request (n_raft (c_nodes s i)))" by (simp add: row_ok_def raft_io_request_def)
    then show "list_all row_ok (n_rows n)" "\<forall>req. n_pending n = Some req \<longrightarrow> row_ok req"
      using node_exec_rows[OF exec] f(3,4) by auto
    show "r_state (n_raft n) = CANDIDATE \<longrightarrow> voters (n_raft n) \<subseteq> ids \<and>
      r_vote_count (n_raft n) = int (card (voters (n_raft n))) \<and>
      (\<forall>k\<in>voters (n_raft n). (r_volatile_term (n_raft n), i) \<in> c_votes (publish i n s) k)"
      using candidate_votes[OF inv i ids _ allows f(5)] eff unfolding node_effect_def by blast
    show "r_state (n_raft n) = LEADER \<longrightarrow> majority ids (c_votes (publish i n s)) (r_volatile_term (n_raft n)) i"
      using leader_majority[OF inv i ids _ allows q f(5)] eff unfolding node_effect_def by blast
  qed (use eff f(5) q in \<open>simp_all add: node_effect_def\<close>)
qed

lemma restart_inv:
  assumes inv: "cluster_inv ids s" and ids: "\<forall>j\<in>ids. j < 32" and i: "i \<in> ids" and q: "int (card ids) < 2 * q"
    and rows: "rows = n_rows (c_nodes s i) \<or>
      (\<exists>req. n_pending (c_nodes s i) = Some req \<and> rows = n_rows (c_nodes s i) @ [req])"
    and boot: "raft_boot i v q rows = Some r"
  shows "cluster_inv ids (publish i \<lparr>n_raft = r, n_pending = None, n_rows = rows\<rparr> s)"
proof -
  note f = member_facts[OF inv i]
  let ?r = "n_raft (c_nodes s i)"
  have ok: "list_all row_ok rows" using rows f(3,4) by auto
  have ne: "i \<noteq> 0" using f(1,5) by (auto simp: node_inv_def raft_inv_def)
  have "q > 0" using q by linarith
  note eq = raft_boot_eq[OF ok ne this, of v]
  have r: "r_self r = i" "r_election_quorum r = q" "r_term r = rows_term rows 1" "r_vote r = rows_vote rows 0"
      "r_state r = FOLLOWER" "raft_sent r = {}"
    using eq boot by (auto simp: raft_create_def raft_sent_def)
  have "rows_term rows 1 \<ge> r_term ?r \<and> (rows_term rows 1 = r_term ?r \<longrightarrow> r_vote ?r = 0 \<or> rows_vote rows 0 = r_vote ?r)"
    using rows
  proof (elim disjE exE conjE)
    fix req assume req: "n_pending (c_nodes s i) = Some req" "rows = n_rows (c_nodes s i) @ [req]"
    then have "raft_pending req ?r" using f(1) by (simp add: node_inv_def)
    then show ?thesis using f(2) req(2) by (auto simp: node_log_def raft_pending_def)
  qed (use f(2) in \<open>simp add: node_log_def\<close>)
  then show ?thesis
    using raft_boot_inv[OF ok ne \<open>q > 0\<close>, of v] boot ok r q
    by (intro publish_inv[OF inv i ids]) (auto simp: node_inv_def node_log_def)
qed

lemma raft_inv_vclock: "raft_inv r \<Longrightarrow> raft_inv (r\<lparr>r_vclock := Some v\<rparr>)"
  by (simp add: raft_inv_def raft_is_fully_on_disk_def)

lemma apply_inv:
  assumes inv: "cluster_inv ids s" and ids: "\<forall>j\<in>ids. j < 32" and i: "i \<in> ids"
  shows "cluster_inv ids (publish i ((c_nodes s i)\<lparr>n_raft := (n_raft (c_nodes s i))\<lparr>r_vclock := Some v\<rparr>\<rparr>) s)"
proof -
  note f = member_facts[OF inv i]
  let ?r = "n_raft (c_nodes s i)"
  let ?n = "(c_nodes s i)\<lparr>n_raft := ?r\<lparr>r_vclock := Some v\<rparr>\<rparr>"
  have same: "voters (n_raft ?n) = voters ?r" by (simp add: voters_def)
  show ?thesis
  proof (rule publish_inv[OF inv i ids])
    show "node_inv ?n" using f(1) raft_inv_vclock by (auto simp: node_inv_def raft_pending_def)
    have m: "member_inv ids s i" using inv i by (simp add: cluster_inv_def)
    show "r_state (n_raft ?n) = CANDIDATE \<longrightarrow> voters (n_raft ?n) \<subseteq> ids \<and>
      r_vote_count (n_raft ?n) = int (card (voters (n_raft ?n))) \<and>
      (\<forall>k\<in>voters (n_raft ?n). (r_volatile_term (n_raft ?n), i) \<in> c_votes (publish i ?n s) k)"
      using member_candidate[OF m] publish_votes_mono[of s _ i ?n] unfolding same by auto
    show "r_state (n_raft ?n) = LEADER \<longrightarrow> majority ids (c_votes (publish i ?n s)) (r_volatile_term (n_raft ?n)) i"
    proof
      assume "r_state (n_raft ?n) = LEADER"
      then have "(r_volatile_term ?r, i) \<in> c_elected s" using m by (simp add: member_inv_def Let_def)
      then have "majority ids (c_votes s) (r_volatile_term (n_raft ?n)) i" using inv by (auto simp: cluster_inv_def)
      then show "majority ids (c_votes (publish i ?n s)) (r_volatile_term (n_raft ?n)) i"
        using publish_votes_mono by (rule majority_mono)
    qed
  qed (use f in \<open>auto simp: node_log_def raft_sent_def\<close>)
qed

lemma init_inv:
  assumes "cluster_init ids s"
  shows "cluster_inv ids s"
proof -
  have "member_inv ids s i" if "i \<in> ids" for i
  proof -
    have "\<forall>i\<in>ids. \<exists>v q r. int (card ids) < 2 * q \<and> raft_boot i v q [] = Some r \<and>
        c_nodes s i = \<lparr>n_raft = r, n_pending = None, n_rows = []\<rparr>"
      using assms unfolding cluster_init_def by (elim conjE)
    from this[THEN bspec, OF that] obtain v q r where q: "int (card ids) < 2 * q" "raft_boot i v q [] = Some r"
      "c_nodes s i = \<lparr>n_raft = r, n_pending = None, n_rows = []\<rparr>"
      by (elim exE conjE)
    have pos: "q > 0" using q(1) by linarith
    have ne: "i \<noteq> 0" using q(2) by (auto simp: raft_boot_def raft_cfg_instance_id_def bind_c_assert split: if_splits)
    have r: "r_self r = i" "r_election_quorum r = q" "r_term r = 1" "r_vote r = 0" "r_state r = FOLLOWER" "raft_sent r = {}"
      using raft_boot_eq[of "[]" i q v] q(2) ne pos by (auto simp: raft_create_def raft_sent_def)
    have "raft_inv r" using raft_boot_inv[of "[]" i q v] q(2) ne pos by simp
    moreover have "c_net s = {}" "c_votes s i = {}" using assms by (simp_all add: cluster_init_def)
    ultimately show ?thesis
      unfolding member_inv_def Let_def q(3)
      using q(1) r by (simp add: node_inv_def node_log_def votes_inv_def)
  qed
  moreover have "c_elected s = {}" using assms unfolding cluster_init_def by (elim conjE)
  ultimately show ?thesis by (simp add: cluster_inv_def)
qed

lemma cluster_reach_inv:
  assumes "cluster_reach ids s" and "\<forall>j\<in>ids. j < 32"
  shows "cluster_inv ids s"
  using assms
proof (induction rule: cluster_reach.induct)
  case (cluster_reach_step s s')
  from cluster_reach_step.hyps(2) cluster_reach_step.IH[OF cluster_reach_step.prems] cluster_reach_step.prems show ?case
    by (cases rule: cluster_step.cases) (simp_all add: op_inv restart_inv apply_inv)
qed (rule init_inv)

lemma elected_majority: "cluster_inv ids s \<Longrightarrow> (t, i) \<in> c_elected s \<Longrightarrow> majority ids (c_votes s) t i"
  by (auto simp: cluster_inv_def)

lemma majorities_meet:
  assumes "A \<subseteq> ids" and "B \<subseteq> ids" and "card ids < 2 * card A" and "card ids < 2 * card B" and "finite ids"
  shows "A \<inter> B \<noteq> {}"
proof
  assume "A \<inter> B = {}"
  then have "card (A \<union> B) = card A + card B" using assms finite_subset by (intro card_Un_disjoint) blast+
  moreover have "card (A \<union> B) \<le> card ids" using assms by (intro card_mono) auto
  ultimately show False using assms(3,4) by linarith
qed

section \<open>Properties\<close>

text \<open>
  C1. Election safety.  In a replica set of instances with ids 1 to 31 whose configured election quorums
  are majorities, under any interleaving of timers, configuration changes, disk writes, deliveries of
  broadcast messages in any order and any number of times, and restarts from the log, no two
  different instances ever become the leader of the same term.
\<close>

theorem raft_election_safety:
  assumes "cluster_reach ids s" and "\<forall>j\<in>ids. j < 32"
    and "(t, i) \<in> c_elected s" and "(t, j) \<in> c_elected s"
  shows "i = j"
proof -
  have inv: "cluster_inv ids s" by (rule cluster_reach_inv[OF assms(1,2)])
  obtain A where A: "A \<subseteq> ids" "card ids < 2 * card A" "\<forall>k\<in>A. (t, i) \<in> c_votes s k"
    using elected_majority[OF inv assms(3)] unfolding majority_def by blast
  obtain B where B: "B \<subseteq> ids" "card ids < 2 * card B" "\<forall>k\<in>B. (t, j) \<in> c_votes s k"
    using elected_majority[OF inv assms(4)] unfolding majority_def by blast
  obtain k where k: "k \<in> A" "k \<in> B"
    using majorities_meet[OF A(1) B(1) A(2) B(2)] by auto
  then have "votes_inv (c_votes s k) (r_term (n_raft (c_nodes s k))) (r_vote (n_raft (c_nodes s k)))"
    using inv A(1) by (auto simp: cluster_inv_def member_inv_def Let_def)
  then show ?thesis using A(3) B(3) k unfolding votes_inv_def by blast
qed

subsection \<open>A complete election\<close>

lemma cluster_node_run:
  assumes "cluster_reach ids s" and "i \<in> ids" and "ops \<noteq> []" and "\<forall>op\<in>set ops. cluster_allows ids s op"
    and "node_run ops (c_nodes s i) = Some n"
  shows "\<exists>s'. cluster_reach ids s' \<and> c_nodes s' = (c_nodes s)(i := n) \<and> {i} \<times> raft_sent (n_raft n) \<subseteq> c_net s' \<and>
    (r_state (n_raft n) = LEADER \<longrightarrow> (r_volatile_term (n_raft n), i) \<in> c_elected s')"
  using assms
proof (induction ops arbitrary: s)
  case (Cons op ops)
  obtain n1 where n1: "node_ready op (c_nodes s i)" "node_exec op (c_nodes s i) = Some n1" "node_run ops n1 = Some n"
    using Cons.prems(5) by (auto split: if_split_asm bind_splits)
  let ?s = "publish i n1 s"
  have "cluster_step ids s ?s"
    using cluster_op[OF Cons.prems(2) _ n1(1,2)] Cons.prems(4) by simp
  then have reach: "cluster_reach ids ?s" by (rule cluster_reach_step[OF Cons.prems(1)])
  show ?case
  proof (cases "ops = []")
    case True
    then show ?thesis using n1(3) reach by (intro exI[of _ ?s]) auto
  next
    case False
    have "\<forall>op\<in>set ops. cluster_allows ids ?s op"
      using Cons.prems(4) by (auto simp: cluster_allows_def split: node_op.splits raft_call.splits)
    moreover have "node_run ops (c_nodes ?s i) = Some n" using n1(3) by simp
    ultimately show ?thesis using Cons.IH[OF reach Cons.prems(2) False] by (simp del: fun_upd_apply)
  qed
qed simp

definition demo_request :: raft_msg where
  "demo_request = \<lparr>m_term = 2, m_vote = 1, m_state = 2, m_vclock = Some zero_vclock\<rparr>"

definition demo_reply :: raft_msg where
  "demo_reply = \<lparr>m_term = 2, m_vote = 1, m_state = 1, m_vclock = None\<rparr>"

lemmas demo_eval = node_boot_eq raft_create_def raft_eval raft_can_vote_for_def vc_order0.cmp_refl mask_with_def
  demo_request_def demo_reply_def raft_sent_def raft_new_random_election_shift_def Let_def

lemma demo_candidate:
  "\<exists>n. node_run [Call (CallCandidate True), Call (CallEnabled True), Call CallTimer, WorkerIo 0, WriteDone 0, WorkerBroadcast]
       (node_boot 1 2) = Some n \<and> demo_request \<in> raft_sent (n_raft n) \<and>
     (\<exists>n'. node_run [Call (CallMsg demo_reply 2)] n = Some n' \<and> r_state (n_raft n') = LEADER \<and> r_volatile_term (n_raft n') = 2)"
  by (simp add: demo_eval) (simp add: word_le_nat_alt)

lemma demo_voter:
  "\<exists>n. node_run [Call (CallEnabled True), Call (CallMsg demo_request 1), WorkerIo 0, WriteDone 0, WorkerBroadcast]
       (node_boot 2 2) = Some n \<and> demo_reply \<in> raft_sent (n_raft n)"
  by (simp add: demo_eval)


lemma demo_cluster:
  "cluster_reach {1, 2} \<lparr>c_nodes = (\<lambda>i. node_boot i 2), c_net = {}, c_votes = (\<lambda>_. {}), c_elected = {}\<rparr>"
proof (rule cluster_reach_init)
  have "\<exists>v q r. int (card {1::u32, 2}) < 2 * q \<and> raft_boot i v q [] = Some r \<and>
      node_boot i 2 = \<lparr>n_raft = r, n_pending = None, n_rows = []\<rparr>" if "i \<in> {1, 2}" for i :: u32
    using that raft_boot_eq[of "[]" i 2 zero_vclock] unfolding node_boot_def
    by (intro exI[of _ zero_vclock] exI[of _ 2] exI[of _ "the (raft_boot i zero_vclock 2 [])"]) auto
  then show "cluster_init {1, 2} \<lparr>c_nodes = (\<lambda>i. node_boot i 2), c_net = {}, c_votes = (\<lambda>_. {}), c_elected = {}\<rparr>"
    by (simp add: cluster_init_def)
qed

theorem raft_election_safety_witness:
  "\<exists>s. cluster_reach {1, 2} s \<and> {i. (2, i) \<in> c_elected s} = {1}"
proof -
  obtain n1 n1' where n1: "node_run [Call (CallCandidate True), Call (CallEnabled True), Call CallTimer, WorkerIo 0,
        WriteDone 0, WorkerBroadcast] (node_boot 1 2) = Some n1" "demo_request \<in> raft_sent (n_raft n1)"
      "node_run [Call (CallMsg demo_reply 2)] n1 = Some n1'" "r_state (n_raft n1') = LEADER" "r_volatile_term (n_raft n1') = 2"
    using demo_candidate by blast
  obtain n2 where n2: "node_run [Call (CallEnabled True), Call (CallMsg demo_request 1), WorkerIo 0, WriteDone 0,
        WorkerBroadcast] (node_boot 2 2) = Some n2" "demo_reply \<in> raft_sent (n_raft n2)"
    using demo_voter by blast
  have "\<exists>s. cluster_reach {1, 2} s \<and> c_nodes s = (\<lambda>i. node_boot i 2)(1 := n1) \<and> {1} \<times> raft_sent (n_raft n1) \<subseteq> c_net s"
    using cluster_node_run[OF demo_cluster _ _ _, of 1 "[Call (CallCandidate True), Call (CallEnabled True), Call CallTimer,
      WorkerIo 0, WriteDone 0, WorkerBroadcast]" n1] n1(1)
    by (auto simp: cluster_allows_def simp del: node_run.simps fun_upd_apply)
  then obtain s1 where s1: "cluster_reach {1, 2} s1" "c_nodes s1 = (\<lambda>i. node_boot i 2)(1 := n1)" "(1, demo_request) \<in> c_net s1"
    using n1(2) by blast
  have "\<exists>s. cluster_reach {1, 2} s \<and> c_nodes s = (c_nodes s1)(2 := n2) \<and> {2} \<times> raft_sent (n_raft n2) \<subseteq> c_net s"
    using cluster_node_run[OF s1(1) _ _ _, of 2 "[Call (CallEnabled True), Call (CallMsg demo_request 1), WorkerIo 0,
      WriteDone 0, WorkerBroadcast]" n2] n2(1) s1(2,3)
    by (auto simp: cluster_allows_def simp del: node_run.simps)
  then obtain s2 where s2: "cluster_reach {1, 2} s2" "c_nodes s2 1 = n1" "(2, demo_reply) \<in> c_net s2"
    using n2(2) s1(2) by auto
  then obtain s3 where s3: "cluster_reach {1, 2} s3" "(2, 1) \<in> c_elected s3"
    using cluster_node_run[OF s2(1) _ _ _, of 1 "[Call (CallMsg demo_reply 2)]" n1'] n1(3-5)
    by (auto simp: cluster_allows_def simp del: node_run.simps)
  have "i = 1" if "(2, i) \<in> c_elected s3" for i
    using raft_election_safety[OF s3(1) _ that s3(2)] by (simp add: word_less_nat_alt)
  then show ?thesis using s3 by blast
qed

end
