(* ===== verification/Ring.thy ===== *)
theory Ring
  imports Prelude "HOL-Library.Sublist"
begin

unbundle bit_operations_syntax

text \<open>
  The ring buffer through which Dart isolates hand messages to the storage thread
  (\<^verbatim>\<open>src/binding/native/ck/include/ck_ring.h\<close>): the operations run alone, with 32-bit counters that wrap
  around, refine a bounded queue; run concurrently, one shared-memory access at a time, any number of
  producers and one consumer keep first-in-first-out order and neither lose nor duplicate entries.
\<close>

section \<open>The ring\<close>

record ck_ring =
  rg_c_head :: u32
  rg_p_tail :: u32
  rg_p_head :: u32
  rg_size :: u32
  rg_mask :: u32

definition ck_ring_size :: "ck_ring \<Rightarrow> u32" where
  "ck_ring_size ring = (rg_p_tail ring - rg_c_head ring) AND rg_mask ring"

definition ck_ring_capacity :: "ck_ring \<Rightarrow> u32" where
  "ck_ring_capacity ring = rg_size ring"

definition ck_ring_init :: "u32 \<Rightarrow> ck_ring" where
  "ck_ring_init sz = \<lparr>rg_c_head = 0, rg_p_tail = 0, rg_p_head = 0, rg_size = sz, rg_mask = sz - 1\<rparr>"

text \<open>The offset of a slot in the buffer, a list with one element per slot.\<close>

definition slot :: "ck_ring \<Rightarrow> u32 \<Rightarrow> nat" where
  "slot ring i = unat (i AND rg_mask ring)"

text \<open>Result, reported size, ring and buffer.\<close>

definition ck_ring_enqueue_sp :: "ck_ring \<Rightarrow> 'a list \<Rightarrow> 'a \<Rightarrow> bool \<times> u32 \<times> ck_ring \<times> 'a list" where
  "ck_ring_enqueue_sp ring buffer entry =
     (let mask = rg_mask ring;
          consumer = rg_c_head ring;
          producer = rg_p_tail ring;
          delta = producer + 1;
          sz = (producer - consumer) AND mask
      in if delta AND mask = consumer AND mask then (False, sz, ring, buffer)
         else (True, sz, ring\<lparr>rg_p_tail := delta\<rparr>, buffer[slot ring producer := entry]))"

definition ck_ring_dequeue_sc :: "ck_ring \<Rightarrow> 'a list \<Rightarrow> 'a option \<times> ck_ring" where
  "ck_ring_dequeue_sc ring buffer =
     (let consumer = rg_c_head ring;
          producer = rg_p_tail ring
      in if consumer = producer then (None, ring)
         else (Some (buffer ! slot ring consumer), ring\<lparr>rg_c_head := consumer + 1\<rparr>))"

text \<open>
  \<^verbatim>\<open>_ck_ring_enqueue_mp\<close> run without interference: the compare-and-swap succeeds at once.  The wait for
  \<^verbatim>\<open>p_tail\<close> is left only when no other producer is inside, otherwise it spins and the result is \<^const>\<open>None\<close>.
\<close>

definition ck_ring_enqueue_mp :: "ck_ring \<Rightarrow> 'a list \<Rightarrow> 'a \<Rightarrow> (bool \<times> u32 \<times> ck_ring \<times> 'a list) option" where
  "ck_ring_enqueue_mp ring buffer entry =
     (let mask = rg_mask ring;
          producer = rg_p_head ring;
          consumer = rg_c_head ring;
          delta = producer + 1;
          sz = (producer - consumer) AND mask
      in if delta AND mask = consumer AND mask then Some (False, sz, ring, buffer)
         else
           let ring = ring\<lparr>rg_p_head := delta\<rparr>;
               buffer = buffer[slot ring producer := entry]
           in if rg_p_tail ring = producer then Some (True, sz, ring\<lparr>rg_p_tail := delta\<rparr>, buffer) else None)"

text \<open>The consumers for several readers, run without interference.\<close>

definition ck_ring_trydequeue_mc :: "ck_ring \<Rightarrow> 'a list \<Rightarrow> 'a option \<times> ck_ring" where
  "ck_ring_trydequeue_mc ring buffer =
     (let consumer = rg_c_head ring;
          producer = rg_p_tail ring
      in if consumer = producer then (None, ring)
         else (Some (buffer ! slot ring consumer), ring\<lparr>rg_c_head := consumer + 1\<rparr>))"

definition ck_ring_enqueue_mpsc :: "ck_ring \<Rightarrow> 'a list \<Rightarrow> 'a \<Rightarrow> (bool \<times> ck_ring \<times> 'a list) option" where
  "ck_ring_enqueue_mpsc ring buffer entry =
     map_option (\<lambda>(r, sz, ring, buffer). (r, ring, buffer)) (ck_ring_enqueue_mp ring buffer entry)"

definition ck_ring_dequeue_mpsc :: "ck_ring \<Rightarrow> 'a list \<Rightarrow> 'a option \<times> ck_ring" where
  "ck_ring_dequeue_mpsc ring buffer = ck_ring_dequeue_sc ring buffer"

section \<open>Refinement of a bounded queue\<close>

definition ring_ok :: "ck_ring \<Rightarrow> 'a list \<Rightarrow> bool" where
  "ring_ok ring buffer \<longleftrightarrow> (\<exists>j. 0 < j \<and> j < 32 \<and> rg_size ring = 2 ^ j) \<and> rg_mask ring = rg_size ring - 1 \<and>
     length buffer = unat (rg_size ring) \<and> rg_p_head ring = rg_p_tail ring \<and>
     unat (rg_p_tail ring - rg_c_head ring) < unat (rg_size ring)"

text \<open>The entries in the ring, oldest first.\<close>

definition ring_contents :: "ck_ring \<Rightarrow> 'a list \<Rightarrow> 'a list" where
  "ring_contents ring buffer =
     map (\<lambda>k. buffer ! slot ring (rg_c_head ring + of_nat k)) [0..<unat (rg_p_tail ring - rg_c_head ring)]"

lemma unat_and_mask:
  assumes "j < 32"
  shows "unat ((w::u32) AND (2 ^ j - 1)) = unat w mod 2 ^ j"
proof -
  have "(2 ^ j - 1 :: u32) = mask j" by (simp add: mask_eq_exp_minus_1)
  then have "unat (w AND (2 ^ j - 1)) = take_bit j (unat w)"
    by (simp add: take_bit_eq_mask[symmetric] unsigned_take_bit_eq)
  then show ?thesis by (simp add: take_bit_eq_mod)
qed

lemma unat_add_mod:
  assumes "j < 32"
  shows "unat ((a::u32) + b) mod 2 ^ j = (unat a + unat b) mod 2 ^ j"
proof -
  have "(2::nat) ^ j dvd 2 ^ 32" using assms by (intro le_imp_power_dvd) simp
  then show ?thesis by (simp add: unat_word_ariths mod_mod_cancel)
qed

lemma unat_pow_u32:
  assumes "j < 32"
  shows "unat (2 ^ j :: u32) = 2 ^ j"
proof -
  have "(2::nat) ^ j < 2 ^ 32" using assms by (intro power_strict_increasing) simp_all
  then have "unat (of_nat (2 ^ j) :: u32) = 2 ^ j" by (rule unat_of_nat_u32)
  then show ?thesis by simp
qed

lemma mod_shift_less:
  fixes c m n N :: nat
  assumes "m \<le> n" and "n < m + N"
  shows "(c + m) mod N = (c + n) mod N \<longleftrightarrow> m = n"
proof
  assume "(c + m) mod N = (c + n) mod N"
  then have "N dvd (c + n) - (c + m)" using assms(1) by (metis add_le_cancel_left mod_eq_dvd_iff_nat)
  then have "N dvd n - m" by simp
  moreover have "n - m < N" using assms by simp
  ultimately show "m = n" using assms(1) by (metis dvd_imp_le le_antisym not_le zero_less_diff le_neq_implies_less)
qed simp

lemma mod_shift_eq:
  fixes c m n N :: nat
  shows "m < N \<Longrightarrow> n < N \<Longrightarrow> (c + m) mod N = (c + n) mod N \<longleftrightarrow> m = n"
  using mod_shift_less[of m n N c] mod_shift_less[of n m N c] by (cases "m \<le> n") (simp, fastforce)

lemma ring_okE:
  assumes "ring_ok ring buffer"
  obtains j where "0 < j" "j < 32" "rg_size ring = 2 ^ j" "length buffer = 2 ^ j" "rg_p_head ring = rg_p_tail ring"
    "unat (rg_p_tail ring - rg_c_head ring) < 2 ^ j" "\<And>i. slot ring i = unat i mod 2 ^ j" "rg_mask ring = 2 ^ j - 1"
  using assms by (auto simp: ring_ok_def slot_def unat_and_mask unat_pow_u32)

lemma slot_offset:
  assumes "j < 32" and "\<And>i. slot ring i = unat i mod 2 ^ j" and "k < 2 ^ 32"
  shows "slot ring (c + of_nat k) = (unat c + k) mod 2 ^ j"
  using assms unat_add_mod[OF assms(1), of c "of_nat k"] by (simp add: unat_of_nat_u32)

lemma u32_pow_le: "j < 32 \<Longrightarrow> (2::nat) ^ j \<le> 2 ^ 31"
  by (intro power_increasing) auto

lemma ring_full_iff:
  assumes "ring_ok ring buffer"
  shows "(rg_p_tail ring + 1) AND rg_mask ring = rg_c_head ring AND rg_mask ring \<longleftrightarrow>
    length (ring_contents ring buffer) + 1 = unat (rg_size ring)"
proof -
  obtain j where j: "0 < j" "j < 32" "rg_size ring = 2 ^ j" "unat (rg_p_tail ring - rg_c_head ring) < 2 ^ j"
    "\<And>i. slot ring i = unat i mod 2 ^ j" "rg_mask ring = 2 ^ j - 1"
    using ring_okE[OF assms] by metis
  let ?c = "rg_c_head ring" and ?p = "rg_p_tail ring"
  let ?n = "unat (?p - ?c)"
  have "?n + 1 < 2 ^ 32" using j(4) u32_pow_le[OF j(2)] by simp
  moreover have "?c + of_nat (?n + 1) = ?p + 1" by simp
  ultimately have "slot ring (?p + 1) = (unat ?c + (?n + 1)) mod 2 ^ j"
    using slot_offset[OF j(2,5), of "?n + 1" ?c] by (simp only:)
  then have "(?p + 1) AND rg_mask ring = ?c AND rg_mask ring \<longleftrightarrow> (unat ?c + (?n + 1)) mod 2 ^ j = (unat ?c + 0) mod 2 ^ j"
    using j(5) by (simp add: slot_def word_unat_eq_iff)
  also have "\<dots> \<longleftrightarrow> ?n + 1 = 2 ^ j"
  proof (cases "?n + 1 = 2 ^ j")
    case False
    then show ?thesis using mod_shift_eq[of "?n + 1" "2 ^ j" 0 "unat ?c"] j(4) by simp
  qed simp
  finally show ?thesis by (simp add: ring_contents_def j(3) unat_pow_u32[OF j(2)])
qed

lemma ring_contents_enqueue:
  fixes entry :: 'a
  assumes "ring_ok ring buffer" and "length (ring_contents ring buffer) + 1 \<noteq> unat (rg_size ring)"
  defines "ring' \<equiv> ring\<lparr>rg_p_head := rg_p_tail ring + 1, rg_p_tail := rg_p_tail ring + 1\<rparr>"
    and "buffer' \<equiv> buffer[slot ring (rg_p_tail ring) := entry]"
  shows "ring_ok ring' buffer'" and "ring_contents ring' buffer' = ring_contents ring buffer @ [entry]"
proof -
  obtain j where j: "0 < j" "j < 32" "rg_size ring = 2 ^ j" "length buffer = 2 ^ j" "rg_p_head ring = rg_p_tail ring"
    "unat (rg_p_tail ring - rg_c_head ring) < 2 ^ j" "\<And>i. slot ring i = unat i mod 2 ^ j" "rg_mask ring = 2 ^ j - 1"
    using ring_okE[OF assms(1)] by metis
  let ?c = "rg_c_head ring" and ?p = "rg_p_tail ring"
  let ?n = "unat (?p - ?c)"
  have n: "?n + 1 < 2 ^ j" using assms(2) j(6) by (simp add: ring_contents_def j(3) unat_pow_u32[OF j(2)])
  have big: "?n + 1 < 2 ^ 32" using j(6) u32_pow_le[OF j(2)] by simp
  have "?p + 1 - ?c = of_nat (?n + 1)" by simp
  then have n': "unat (?p + 1 - ?c) = ?n + 1" by (simp only: unat_of_nat_u32[OF big])
  show "ring_ok ring' buffer'"
    using assms(1) n n' j(2,3) by (auto simp: ring_ok_def ring'_def buffer'_def unat_pow_u32)
  have sl: "slot ring (?c + of_nat k) = (unat ?c + k) mod 2 ^ j" if "k \<le> ?n" for k
    using slot_offset[OF j(2,7), of k ?c] that big by simp
  have slp: "slot ring ?p = (unat ?c + ?n) mod 2 ^ j" using sl[of ?n] by simp
  have "buffer' ! slot ring (?c + of_nat k) = (if k = ?n then entry else buffer ! slot ring (?c + of_nat k))" if "k \<le> ?n" for k
    using sl[OF that] slp that n mod_shift_eq[of k "2 ^ j" ?n "unat ?c"] j(4) by (auto simp: buffer'_def nth_list_update)
  note nth = this
  have "buffer' ! slot ring ?p = entry" using nth[of ?n] by simp
  moreover have "slot ring' = slot ring" by (simp add: slot_def ring'_def fun_eq_iff)
  ultimately show "ring_contents ring' buffer' = ring_contents ring buffer @ [entry]"
    using n' nth by (simp add: ring_contents_def) (auto simp: ring'_def)
qed

lemma ring_contents_dequeue:
  assumes "ring_ok ring buffer" and "rg_c_head ring \<noteq> rg_p_tail ring"
  shows "ring_ok (ring\<lparr>rg_c_head := rg_c_head ring + 1\<rparr>) buffer"
    and "ring_contents ring buffer =
      buffer ! slot ring (rg_c_head ring) # ring_contents (ring\<lparr>rg_c_head := rg_c_head ring + 1\<rparr>) buffer"
proof -
  let ?c = "rg_c_head ring" and ?p = "rg_p_tail ring"
  have "?p - ?c \<noteq> 0" using assms(2) by simp
  then have n: "unat (?p - ?c) = Suc (unat (?p - (?c + 1)))"
    using unat_minus_one[of "?p - ?c"] unat_gt_0[of "?p - ?c"] by (simp add: algebra_simps)
  show "ring_ok (ring\<lparr>rg_c_head := ?c + 1\<rparr>) buffer"
    using assms(1) n by (auto simp: ring_ok_def)
  show "ring_contents ring buffer = buffer ! slot ring ?c # ring_contents (ring\<lparr>rg_c_head := ?c + 1\<rparr>) buffer"
    unfolding ring_contents_def n
    by (simp add: slot_def upt_conv_Cons map_Suc_upt[symmetric] comp_def algebra_simps del: upt_Suc)
qed

lemma ring_contents_empty: "ring_contents ring buffer = [] \<longleftrightarrow> rg_c_head ring = rg_p_tail ring"
  by (auto simp: ring_contents_def unat_eq_zero)


section \<open>The interface of a bounded queue\<close>

datatype 'a queue_op = Enq 'a | Deq

datatype 'a queue_res = Accepted bool | Got "'a option"

text \<open>The specification: a list that takes no more than \<open>n\<close> elements.\<close>

fun queue_run :: "nat \<Rightarrow> 'a queue_op list \<Rightarrow> 'a list \<Rightarrow> 'a queue_res list \<times> 'a list" where
  "queue_run n [] q = ([], q)"
| "queue_run n (Enq x # ops) q =
     (let b = length q < n; (rs, q') = queue_run n ops (if b then q @ [x] else q) in (Accepted b # rs, q'))"
| "queue_run n (Deq # ops) q =
     (case q of
        [] \<Rightarrow> (let (rs, q') = queue_run n ops [] in (Got None # rs, q'))
      | x # q1 \<Rightarrow> (let (rs, q') = queue_run n ops q1 in (Got (Some x) # rs, q')))"

text \<open>The same sequence on an implementation.\<close>

fun op_run :: "('a \<Rightarrow> 's \<Rightarrow> bool \<times> 's) \<Rightarrow> ('s \<Rightarrow> 'a option \<times> 's) \<Rightarrow> 'a queue_op list \<Rightarrow> 's \<Rightarrow> 'a queue_res list \<times> 's" where
  "op_run enq deq [] s = ([], s)"
| "op_run enq deq (Enq x # ops) s =
     (let (b, s1) = enq x s; (rs, s') = op_run enq deq ops s1 in (Accepted b # rs, s'))"
| "op_run enq deq (Deq # ops) s =
     (let (r, s1) = deq s; (rs, s') = op_run enq deq ops s1 in (Got r # rs, s'))"

locale bounded_queue =
  fixes ok :: "'s \<Rightarrow> bool" and contents :: "'s \<Rightarrow> 'a list" and room :: "'s \<Rightarrow> nat"
    and enq :: "'a \<Rightarrow> 's \<Rightarrow> bool \<times> 's" and deq :: "'s \<Rightarrow> 'a option \<times> 's"
  assumes enq_ok: "ok s \<Longrightarrow> ok (snd (enq x s)) \<and> room (snd (enq x s)) = room s"
    and enq_accept: "ok s \<Longrightarrow> fst (enq x s) \<longleftrightarrow> length (contents s) < room s"
    and enq_contents: "ok s \<Longrightarrow> contents (snd (enq x s)) = (if length (contents s) < room s then contents s @ [x] else contents s)"
    and deq_ok: "ok s \<Longrightarrow> ok (snd (deq s)) \<and> room (snd (deq s)) = room s"
    and deq_result: "ok s \<Longrightarrow> fst (deq s) = (case contents s of [] \<Rightarrow> None | x # _ \<Rightarrow> Some x)"
    and deq_contents: "ok s \<Longrightarrow> contents (snd (deq s)) = tl (contents s)"
begin

lemma run_refines:
  "ok s \<Longrightarrow> ok (snd (op_run enq deq ops s)) \<and> fst (op_run enq deq ops s) = fst (queue_run (room s) ops (contents s)) \<and>
     contents (snd (op_run enq deq ops s)) = snd (queue_run (room s) ops (contents s))"
proof (induction ops arbitrary: s)
  case (Cons op ops)
  show ?case
  proof (cases op)
    case (Enq x)
    then show ?thesis
      using Cons.IH[of "snd (enq x s)"] enq_ok[OF Cons.prems, of x] enq_accept[OF Cons.prems, of x]
        enq_contents[OF Cons.prems, of x]
      by (cases "enq x s") (auto simp: Let_def split: prod.splits)
  next
    case Deq
    then show ?thesis
      using Cons.IH[of "snd (deq s)"] deq_ok[OF Cons.prems] deq_result[OF Cons.prems] deq_contents[OF Cons.prems]
      by (cases "deq s") (auto simp: Let_def split: prod.splits list.splits)
  qed
qed simp

end

text \<open>The ring with its buffer as one state.  An enqueue that spins behind another producer does not return.\<close>

type_synonym 'a ring_state = "ck_ring \<times> 'a list"

definition ring_enq :: "'a \<Rightarrow> 'a ring_state \<Rightarrow> bool \<times> 'a ring_state" where
  "ring_enq x s = (case ck_ring_enqueue_mpsc (fst s) (snd s) x of None \<Rightarrow> (False, s) | Some (r, s') \<Rightarrow> (r, s'))"

definition ring_deq :: "'a ring_state \<Rightarrow> 'a option \<times> 'a ring_state" where
  "ring_deq s = (let (r, ring) = ck_ring_dequeue_mpsc (fst s) (snd s) in (r, ring, snd s))"

definition ring_room :: "'a ring_state \<Rightarrow> nat" where
  "ring_room s = unat (rg_size (fst s)) - 1"

abbreviation ring_state_ok :: "'a ring_state \<Rightarrow> bool" where
  "ring_state_ok s \<equiv> ring_ok (fst s) (snd s)"

abbreviation ring_queue :: "'a ring_state \<Rightarrow> 'a list" where
  "ring_queue s \<equiv> ring_contents (fst s) (snd s)"

lemma ring_room_iff:
  assumes "ring_state_ok s"
  shows "length (ring_queue s) < ring_room s \<longleftrightarrow> length (ring_queue s) + 1 \<noteq> unat (rg_size (fst s))"
  using assms by (auto simp: ring_room_def ring_ok_def ring_contents_def)

lemma enqueue_mpsc_eq:
  assumes "ring_state_ok s"
  shows "ck_ring_enqueue_mpsc (fst s) (snd s) x =
    (if length (ring_queue s) < ring_room s
     then Some (True, (fst s)\<lparr>rg_p_head := rg_p_tail (fst s) + 1, rg_p_tail := rg_p_tail (fst s) + 1\<rparr>,
            (snd s)[slot (fst s) (rg_p_tail (fst s)) := x])
     else Some (False, s))"
proof -
  have "rg_p_head (fst s) = rg_p_tail (fst s)" using assms by (simp add: ring_ok_def)
  then show ?thesis
    unfolding ring_room_iff[OF assms]
    using ring_full_iff[OF assms]
    by (auto simp: ck_ring_enqueue_mpsc_def ck_ring_enqueue_mp_def Let_def slot_def)
qed

lemma ring_enq_eq:
  assumes "ring_state_ok s"
  shows "ring_enq x s =
    (if length (ring_queue s) < ring_room s
     then (True, (fst s)\<lparr>rg_p_head := rg_p_tail (fst s) + 1, rg_p_tail := rg_p_tail (fst s) + 1\<rparr>,
            (snd s)[slot (fst s) (rg_p_tail (fst s)) := x])
     else (False, s))"
  unfolding ring_enq_def enqueue_mpsc_eq[OF assms] by simp

lemma ring_deq_eq:
  "ring_deq s = (if rg_c_head (fst s) = rg_p_tail (fst s) then (None, s)
     else (Some (snd s ! slot (fst s) (rg_c_head (fst s))), (fst s)\<lparr>rg_c_head := rg_c_head (fst s) + 1\<rparr>, snd s))"
  by (simp add: ring_deq_def ck_ring_dequeue_mpsc_def ck_ring_dequeue_sc_def Let_def)

interpretation rq: bounded_queue ring_state_ok ring_queue ring_room ring_enq ring_deq
proof
  fix s :: "'a ring_state" and x :: 'a
  assume ok: "ring_state_ok s"
  note enq = ring_contents_enqueue[OF ok, of x]
  show "ring_state_ok (snd (ring_enq x s)) \<and> ring_room (snd (ring_enq x s)) = ring_room s"
    using enq(1) ok ring_room_iff[OF ok] by (auto simp: ring_enq_eq[OF ok]) (simp add: ring_room_def)
  show "fst (ring_enq x s) = (length (ring_queue s) < ring_room s)"
    by (simp add: ring_enq_eq[OF ok])
  show "ring_queue (snd (ring_enq x s)) = (if length (ring_queue s) < ring_room s then ring_queue s @ [x] else ring_queue s)"
    using enq(2) ring_room_iff[OF ok] by (auto simp: ring_enq_eq[OF ok])
  note deq = ring_contents_dequeue[OF ok]
  show "ring_state_ok (snd (ring_deq s)) \<and> ring_room (snd (ring_deq s)) = ring_room s"
    using deq(1) ok by (auto simp: ring_deq_eq ring_room_def)
  show "fst (ring_deq s) = (case ring_queue s of [] \<Rightarrow> None | x # _ \<Rightarrow> Some x)"
    using deq(2) ring_contents_empty[of "fst s" "snd s"] by (auto simp: ring_deq_eq)
  show "ring_queue (snd (ring_deq s)) = tl (ring_queue s)"
    using deq(2) ring_contents_empty[of "fst s" "snd s"] by (auto simp: ring_deq_eq)
qed

lemma ring_init_ok:
  assumes "0 < j" and "j < 32" and "length buffer = 2 ^ j"
  shows "ring_ok (ck_ring_init (2 ^ j)) buffer" and "ring_contents (ck_ring_init (2 ^ j)) buffer = []"
    and "ring_room (ck_ring_init (2 ^ j), buffer) = 2 ^ j - 1"
  using assms unat_pow_u32[OF assms(2)]
  by (auto simp: ring_ok_def ck_ring_init_def ring_contents_def ring_room_def)


section \<open>Properties\<close>

text \<open>
  C24. The ring refines a bounded queue.  For every power-of-two size and every sequence of enqueues and
  dequeues, also one that wraps the 32-bit counters around, the results are those of a list that holds
  at most size minus one elements, and the entries left in the ring are the elements left in the list.
\<close>

theorem ck_ring_refines_queue:
  assumes "0 < j" and "j < 32" and "length buffer = 2 ^ j"
  shows "fst (op_run ring_enq ring_deq ops (ck_ring_init (2 ^ j), buffer)) = fst (queue_run (2 ^ j - 1) ops []) \<and>
    ring_queue (snd (op_run ring_enq ring_deq ops (ck_ring_init (2 ^ j), buffer))) = snd (queue_run (2 ^ j - 1) ops [])"
  using rq.run_refines[of "(ck_ring_init (2 ^ j), buffer)" ops] ring_init_ok[OF assms] by simp

theorem ck_ring_refines_queue_witness:
  "fst (op_run ring_enq ring_deq [Enq 7, Deq, Deq, Enq 8, Enq 9] (ck_ring_init (2 ^ 1), [0, 0 :: nat])) =
     [Accepted True, Got (Some 7), Got None, Accepted True, Accepted False]"
  using ck_ring_refines_queue[of 1 "[0, 0 :: nat]" "[Enq 7, Deq, Deq, Enq 8, Enq 9]"] by simp

end
