(* ===== verification/Ring_Concurrent.thy ===== *)
theory Ring_Concurrent
  imports Ring
begin

unbundle bit_operations_syntax

text \<open>
  \<^verbatim>\<open>_ck_ring_enqueue_mp\<close> and \<^verbatim>\<open>_ck_ring_dequeue_sc\<close> of \<^verbatim>\<open>src/binding/native/ck/include/ck_ring.h\<close> run
  concurrently by any number of producers and one consumer.  A step is one access to the shared ring or
  to the buffer; between two steps of a thread any other thread may run.
\<close>

section \<open>Threads\<close>

text \<open>
  Where a producer stands inside \<^verbatim>\<open>_ck_ring_enqueue_mp\<close>, with its local variables: the entry and the
  snapshot \<^verbatim>\<open>producer\<close>.  The natural number is the ticket that the snapshot stands for, the number of
  entries that had been claimed when it was taken; the code holds it modulo \<open>2 ^ 32\<close>.
\<close>

datatype 'a producer =
    PIdle
  | PLoaded 'a u32 nat
  | PChecked 'a u32 nat
  | PClaimed 'a u32 nat
  | PWritten 'a u32 nat
  | PTurn 'a u32 nat

datatype 'a consumer = CIdle | CSeen | CRead 'a

text \<open>
  \<open>q_log\<close> lists the entries in the order in which their slots were claimed, \<open>q_out\<close> the entries the
  consumer has returned, \<open>q_published\<close> counts the updates of \<^verbatim>\<open>p_tail\<close>, \<open>q_rejected\<close> lists the entries whose
  enqueue returned false.
\<close>

record 'a ring_sys =
  q_ring :: ck_ring
  q_buffer :: "'a list"
  q_producers :: "nat \<Rightarrow> 'a producer"
  q_consumer :: "'a consumer"
  q_log :: "'a list"
  q_published :: nat
  q_out :: "'a list"
  q_rejected :: "'a list"

inductive ring_step :: "'a ring_sys \<Rightarrow> 'a ring_sys \<Rightarrow> bool" where
  p_load: "q_producers s i = PIdle \<Longrightarrow>
    ring_step s (s\<lparr>q_producers := (q_producers s)(i := PLoaded x (rg_p_head (q_ring s)) (length (q_log s)))\<rparr>)"
| p_full: "q_producers s i = PLoaded x producer k \<Longrightarrow>
    (producer + 1) AND rg_mask (q_ring s) = rg_c_head (q_ring s) AND rg_mask (q_ring s) \<Longrightarrow>
    ring_step s (s\<lparr>q_producers := (q_producers s)(i := PIdle), q_rejected := q_rejected s @ [x]\<rparr>)"
| p_room: "q_producers s i = PLoaded x producer k \<Longrightarrow>
    (producer + 1) AND rg_mask (q_ring s) \<noteq> rg_c_head (q_ring s) AND rg_mask (q_ring s) \<Longrightarrow>
    ring_step s (s\<lparr>q_producers := (q_producers s)(i := PChecked x producer k)\<rparr>)"
| p_cas_fail: "q_producers s i = PChecked x producer k \<Longrightarrow> rg_p_head (q_ring s) \<noteq> producer \<Longrightarrow>
    ring_step s (s\<lparr>q_producers := (q_producers s)(i := PLoaded x (rg_p_head (q_ring s)) (length (q_log s)))\<rparr>)"
| p_cas: "q_producers s i = PChecked x producer k \<Longrightarrow> rg_p_head (q_ring s) = producer \<Longrightarrow>
    length (q_log s) < k + 2 ^ 32 \<Longrightarrow>
    ring_step s (s\<lparr>q_ring := (q_ring s)\<lparr>rg_p_head := producer + 1\<rparr>,
      q_producers := (q_producers s)(i := PClaimed x producer k), q_log := q_log s @ [x]\<rparr>)"
| p_write: "q_producers s i = PClaimed x producer k \<Longrightarrow>
    ring_step s (s\<lparr>q_buffer := (q_buffer s)[slot (q_ring s) producer := x],
      q_producers := (q_producers s)(i := PWritten x producer k)\<rparr>)"
| p_turn: "q_producers s i = PWritten x producer k \<Longrightarrow> rg_p_tail (q_ring s) = producer \<Longrightarrow>
    ring_step s (s\<lparr>q_producers := (q_producers s)(i := PTurn x producer k)\<rparr>)"
| p_publish: "q_producers s i = PTurn x producer k \<Longrightarrow>
    ring_step s (s\<lparr>q_ring := (q_ring s)\<lparr>rg_p_tail := producer + 1\<rparr>,
      q_producers := (q_producers s)(i := PIdle), q_published := q_published s + 1\<rparr>)"
| c_look: "q_consumer s = CIdle \<Longrightarrow> rg_c_head (q_ring s) \<noteq> rg_p_tail (q_ring s) \<Longrightarrow>
    ring_step s (s\<lparr>q_consumer := CSeen\<rparr>)"
| c_read: "q_consumer s = CSeen \<Longrightarrow>
    ring_step s (s\<lparr>q_consumer := CRead (q_buffer s ! slot (q_ring s) (rg_c_head (q_ring s)))\<rparr>)"
| c_advance: "q_consumer s = CRead x \<Longrightarrow>
    ring_step s (s\<lparr>q_ring := (q_ring s)\<lparr>rg_c_head := rg_c_head (q_ring s) + 1\<rparr>,
      q_consumer := CIdle, q_out := q_out s @ [x]\<rparr>)"

definition ring_start :: "nat \<Rightarrow> 'a list \<Rightarrow> 'a ring_sys" where
  "ring_start j buffer = \<lparr>q_ring = ck_ring_init (2 ^ j), q_buffer = buffer, q_producers = (\<lambda>_. PIdle),
     q_consumer = CIdle, q_log = [], q_published = 0, q_out = [], q_rejected = []\<rparr>"

inductive ring_reach :: "'a ring_sys \<Rightarrow> 'a ring_sys \<Rightarrow> bool" for s0 where
  ring_reach_start: "ring_reach s0 s0"
| ring_reach_step: "ring_reach s0 s \<Longrightarrow> ring_step s s' \<Longrightarrow> ring_reach s0 s'"

section \<open>The invariant\<close>

text \<open>A producer that owns a slot, and the ticket of that slot.\<close>

fun claimed :: "'a producer \<Rightarrow> nat option" where
  "claimed (PClaimed x p k) = Some k"
| "claimed (PWritten x p k) = Some k"
| "claimed (PTurn x p k) = Some k"
| "claimed _ = None"

text \<open>
  The invariant of one thread over the number of entries returned \<open>C\<close>, of entries published \<open>T\<close>, the log
  and the buffer.
\<close>

fun producer_inv :: "nat \<Rightarrow> nat \<Rightarrow> 'a list \<Rightarrow> 'a list \<Rightarrow> 'a producer \<Rightarrow> bool" where
  "producer_inv C T lg buf PIdle \<longleftrightarrow> True"
| "producer_inv C T lg buf (PLoaded x p k) \<longleftrightarrow> p = of_nat k \<and> k \<le> length lg"
| "producer_inv C T lg buf (PChecked x p k) \<longleftrightarrow> p = of_nat k \<and> k \<le> length lg \<and>
     (k = length lg \<longrightarrow> k + 1 < C + length buf)"
| "producer_inv C T lg buf (PClaimed x p k) \<longleftrightarrow> p = of_nat k \<and> T \<le> k \<and> k < length lg \<and> lg ! k = x"
| "producer_inv C T lg buf (PWritten x p k) \<longleftrightarrow> p = of_nat k \<and> T \<le> k \<and> k < length lg \<and> lg ! k = x \<and>
     buf ! (k mod length buf) = x"
| "producer_inv C T lg buf (PTurn x p k) \<longleftrightarrow> p = of_nat k \<and> k = T \<and> k < length lg \<and> lg ! k = x \<and>
     buf ! (k mod length buf) = x"

fun consumer_inv :: "nat \<Rightarrow> nat \<Rightarrow> 'a list \<Rightarrow> 'a consumer \<Rightarrow> bool" where
  "consumer_inv C T lg CIdle \<longleftrightarrow> True"
| "consumer_inv C T lg CSeen \<longleftrightarrow> C < T"
| "consumer_inv C T lg (CRead x) \<longleftrightarrow> C < T \<and> x = lg ! C"

definition counters_inv :: "nat \<Rightarrow> 'a ring_sys \<Rightarrow> bool" where
  "counters_inv j s \<longleftrightarrow> rg_mask (q_ring s) = 2 ^ j - 1 \<and> length (q_buffer s) = 2 ^ j \<and>
     rg_c_head (q_ring s) = of_nat (length (q_out s)) \<and> rg_p_tail (q_ring s) = of_nat (q_published s) \<and>
     rg_p_head (q_ring s) = of_nat (length (q_log s)) \<and>
     length (q_out s) \<le> q_published s \<and> q_published s \<le> length (q_log s) \<and> length (q_log s) < length (q_out s) + 2 ^ j"

definition slots_inv :: "nat \<Rightarrow> nat \<Rightarrow> 'a list \<Rightarrow> 'a list \<Rightarrow> bool" where
  "slots_inv C T lg buf \<longleftrightarrow> (\<forall>k. C \<le> k \<longrightarrow> k < T \<longrightarrow> buf ! (k mod length buf) = lg ! k)"

definition claims_inv :: "(nat \<Rightarrow> 'a producer) \<Rightarrow> bool" where
  "claims_inv ps \<longleftrightarrow> (\<forall>i i' k. claimed (ps i) = Some k \<longrightarrow> claimed (ps i') = Some k \<longrightarrow> i = i')"

text \<open>Every claimed slot that is not yet published has an owner.\<close>

definition owners_inv :: "nat \<Rightarrow> nat \<Rightarrow> (nat \<Rightarrow> 'a producer) \<Rightarrow> bool" where
  "owners_inv T H ps \<longleftrightarrow> (\<forall>k. T \<le> k \<longrightarrow> k < H \<longrightarrow> (\<exists>i. claimed (ps i) = Some k))"

definition ring_inv :: "nat \<Rightarrow> 'a ring_sys \<Rightarrow> bool" where
  "ring_inv j s \<longleftrightarrow> counters_inv j s \<and> q_out s = take (length (q_out s)) (q_log s) \<and>
     slots_inv (length (q_out s)) (q_published s) (q_log s) (q_buffer s) \<and>
     (\<forall>i. producer_inv (length (q_out s)) (q_published s) (q_log s) (q_buffer s) (q_producers s i)) \<and>
     consumer_inv (length (q_out s)) (q_published s) (q_log s) (q_consumer s) \<and> claims_inv (q_producers s) \<and>
     owners_inv (q_published s) (length (q_log s)) (q_producers s)"

section \<open>Every step keeps it\<close>

lemma of_nat_u32_eq:
  assumes "(of_nat a :: u32) = of_nat b" and "a \<le> b" and "b < a + 2 ^ 32"
  shows "a = b"
proof -
  have "a mod 2 ^ 32 = b mod 2 ^ 32"
    using arg_cong[OF assms(1), of unat] by (simp add: unsigned_of_nat take_bit_eq_mod)
  then show ?thesis using mod_shift_less[of a b "2 ^ 32" 0] assms(2,3) by simp
qed

lemma slot_of_nat:
  assumes "rg_mask ring = 2 ^ j - 1" and "j < 32"
  shows "slot ring (of_nat k) = k mod 2 ^ j"
proof -
  have "(2::nat) ^ j dvd 2 ^ 32" using assms(2) by (intro le_imp_power_dvd) simp
  then show ?thesis
    using assms by (simp add: slot_def unat_and_mask unsigned_of_nat take_bit_eq_mod mod_mod_cancel)
qed

lemma mask_eq_slot: "(a AND rg_mask ring = b AND rg_mask ring) = (slot ring a = slot ring b)"
  by (simp add: slot_def word_unat_eq_iff)

lemma mod_window:
  fixes a b c N :: nat
  assumes "c \<le> a" and "a < c + N" and "c \<le> b" and "b < c + N"
  shows "a mod N = b mod N \<longleftrightarrow> a = b"
  using mod_shift_less[of a b N 0] mod_shift_less[of b a N 0] assms by (cases "a \<le> b") auto

lemma producer_claim: "producer_inv C T lg buf p \<Longrightarrow> producer_inv C T (lg @ [x]) buf p"
  by (cases p) (auto simp: nth_append)

lemma producer_write:
  assumes "producer_inv C T lg buf p" and "claimed p \<noteq> Some k"
    and "C \<le> T" and "T \<le> k" and "k < length lg" and "length lg < C + length buf"
  shows "producer_inv C T lg (buf[k mod length buf := x]) p"
proof -
  have "buf[k mod length buf := x] ! (k' mod length buf) = buf ! (k' mod length buf)"
    if "T \<le> k'" "k' < length lg" "k' \<noteq> k" for k'
    using mod_window[of C k "length buf" k'] that assms(3-6) by (simp add: nth_list_update)
  then show ?thesis using assms(1,2) by (cases p) auto
qed

lemma producer_publish:
  "producer_inv C T lg buf p \<Longrightarrow> claimed p \<noteq> Some T \<Longrightarrow> producer_inv C (Suc T) lg buf p"
  by (cases p) auto

lemma producer_advance: "producer_inv C T lg buf p \<Longrightarrow> producer_inv (Suc C) T lg buf p"
  by (cases p) auto

lemma consumer_claim: "consumer_inv C T lg c \<Longrightarrow> T \<le> length lg \<Longrightarrow> consumer_inv C T (lg @ [x]) c"
  by (cases c) (auto simp: nth_append)

lemma consumer_publish: "consumer_inv C T lg c \<Longrightarrow> consumer_inv C (Suc T) lg c"
  by (cases c) auto

lemma claims_release: "claims_inv ps \<Longrightarrow> claimed p = None \<Longrightarrow> claims_inv (ps(i := p))"
  by (auto simp: claims_inv_def)

lemma claims_keep: "claims_inv ps \<Longrightarrow> claimed p = claimed (ps i) \<Longrightarrow> claims_inv (ps(i := p))"
  by (auto simp: claims_inv_def)

lemma claims_new: "claims_inv ps \<Longrightarrow> claimed p = Some k \<Longrightarrow> (\<forall>i'. claimed (ps i') \<noteq> Some k) \<Longrightarrow> claims_inv (ps(i := p))"
  by (auto simp: claims_inv_def)

lemma owners_keep: "owners_inv T H ps \<Longrightarrow> claimed p = claimed (ps i) \<Longrightarrow> owners_inv T H (ps(i := p))"
  unfolding owners_inv_def by (metis fun_upd_def)

lemma owners_new:
  assumes "owners_inv T H ps" and "claimed p = Some H" and "claimed (ps i) = None"
  shows "owners_inv T (Suc H) (ps(i := p))"
  using assms unfolding owners_inv_def by (metis fun_upd_apply less_Suc_eq option.distinct(1))

lemma owners_publish:
  assumes "owners_inv T H ps" and "claimed (ps i) = Some T"
  shows "owners_inv (Suc T) H (ps(i := p))"
  using assms unfolding owners_inv_def by (metis fun_upd_apply Suc_leD not_less_eq_eq option.inject order_refl)

lemma claimed_less: "producer_inv C T lg buf p \<Longrightarrow> claimed p = Some k \<Longrightarrow> k < length lg"
  by (cases p) auto

lemma pow_lt_u32: "j < 32 \<Longrightarrow> (2::nat) ^ j < 2 ^ 32"
  by (intro power_strict_increasing) simp_all

text \<open>A successful compare-and-swap finds the ring in the state the producer had seen.\<close>

lemma cas_fresh:
  assumes "ring_inv j s" and "q_producers s i = PChecked x p k" and "rg_p_head (q_ring s) = p"
    and "length (q_log s) < k + 2 ^ 32"
  shows "k = length (q_log s)" and "length (q_log s) + 1 < length (q_out s) + 2 ^ j"
proof -
  have "producer_inv (length (q_out s)) (q_published s) (q_log s) (q_buffer s) (PChecked x p k)"
    using assms(1,2) by (metis ring_inv_def)
  then have *: "p = of_nat k" "k \<le> length (q_log s)" "k = length (q_log s) \<longrightarrow> k + 1 < length (q_out s) + 2 ^ j"
    using assms(1) by (auto simp: ring_inv_def counters_inv_def)
  then show k: "k = length (q_log s)"
    using of_nat_u32_eq[of k "length (q_log s)"] assms by (simp add: ring_inv_def counters_inv_def)
  show "length (q_log s) + 1 < length (q_out s) + 2 ^ j" using * k by simp
qed


lemma ring_invD:
  assumes "ring_inv j s"
  shows "counters_inv j s" "q_out s = take (length (q_out s)) (q_log s)"
    "slots_inv (length (q_out s)) (q_published s) (q_log s) (q_buffer s)"
    "producer_inv (length (q_out s)) (q_published s) (q_log s) (q_buffer s) (q_producers s i)"
    "consumer_inv (length (q_out s)) (q_published s) (q_log s) (q_consumer s)" "claims_inv (q_producers s)"
    "owners_inv (q_published s) (length (q_log s)) (q_producers s)"
  using assms by (auto simp: ring_inv_def)

lemma countersD:
  assumes "counters_inv j s"
  shows "length (q_buffer s) = 2 ^ j" "length (q_out s) \<le> q_published s" "q_published s \<le> length (q_log s)"
    "length (q_log s) < length (q_out s) + 2 ^ j" "rg_c_head (q_ring s) = of_nat (length (q_out s))"
    "rg_p_tail (q_ring s) = of_nat (q_published s)" "rg_p_head (q_ring s) = of_nat (length (q_log s))"
    "j < 32 \<Longrightarrow> slot (q_ring s) (of_nat k) = k mod 2 ^ j"
  using assms by (auto simp: counters_inv_def intro: slot_of_nat)

text \<open>A step of one producer that touches nothing shared.\<close>

lemma local_step_inv:
  assumes "ring_inv j s" and "claimed p = claimed (q_producers s i)"
    and "producer_inv (length (q_out s)) (q_published s) (q_log s) (q_buffer s) p"
  shows "ring_inv j (s\<lparr>q_producers := (q_producers s)(i := p)\<rparr>)"
  using assms claims_keep[of "q_producers s" p i] owners_keep[of _ _ "q_producers s" p i]
  by (auto simp: ring_inv_def counters_inv_def)

lemma room_step:
  assumes inv: "ring_inv j s" and j: "j < 32" and p: "q_producers s i = PLoaded x p k"
    and room: "(p + 1) AND rg_mask (q_ring s) \<noteq> rg_c_head (q_ring s) AND rg_mask (q_ring s)"
  shows "ring_inv j (s\<lparr>q_producers := (q_producers s)(i := PChecked x p k)\<rparr>)"
proof (rule local_step_inv[OF inv])
  note c = countersD[OF ring_invD(1)[OF inv]]
  show "claimed (PChecked x p k) = claimed (q_producers s i)" using p by simp
  have k: "p = of_nat k" "k \<le> length (q_log s)" using ring_invD(4)[OF inv, of i] p by auto
  have "(k + 1) mod 2 ^ j \<noteq> length (q_out s) mod 2 ^ j"
    using room c(8)[OF j, of "k + 1"] c(8)[OF j, of "length (q_out s)"] unfolding mask_eq_slot k(1) c(5)
    by (simp add: add.commute)
  then have "k + 1 \<noteq> length (q_out s) + 2 ^ j" by (metis mod_add_self2)
  then show "producer_inv (length (q_out s)) (q_published s) (q_log s) (q_buffer s) (PChecked x p k)"
    using k c(1,4) by auto
qed

lemma cas_step:
  assumes inv: "ring_inv j s" and p: "q_producers s i = PChecked x p k" and head: "rg_p_head (q_ring s) = p"
    and lap: "length (q_log s) < k + 2 ^ 32"
  shows "ring_inv j (s\<lparr>q_ring := (q_ring s)\<lparr>rg_p_head := p + 1\<rparr>,
      q_producers := (q_producers s)(i := PClaimed x p k), q_log := q_log s @ [x]\<rparr>)"
proof -
  note f = cas_fresh[OF inv p head lap] and c = countersD[OF ring_invD(1)[OF inv]]
  have "claims_inv ((q_producers s)(i := PClaimed x p k))"
    using ring_invD(4)[OF inv, THEN claimed_less, of _ k] f(1) by (intro claims_new[OF ring_invD(6)[OF inv]]) auto
  moreover have "slots_inv (length (q_out s)) (q_published s) (q_log s @ [x]) (q_buffer s)"
    using ring_invD(3)[OF inv] c(3) by (auto simp: slots_inv_def nth_append)
  moreover have "q_out s = take (length (q_out s)) (q_log s @ [x])"
    using ring_invD(2)[OF inv] c(2,3) by simp
  ultimately show ?thesis
    using inv f c(3,7) head p owners_new[OF ring_invD(7)[OF inv], of "PClaimed x p k" i] producer_claim[OF ring_invD(4)[OF inv], of x] consumer_claim[OF ring_invD(5)[OF inv] c(3), of x]
    by (auto simp: ring_inv_def counters_inv_def add.commute)
qed

lemma write_step:
  assumes inv: "ring_inv j s" and j: "j < 32" and p: "q_producers s i = PClaimed x p k"
  shows "ring_inv j (s\<lparr>q_buffer := (q_buffer s)[slot (q_ring s) p := x],
      q_producers := (q_producers s)(i := PWritten x p k)\<rparr>)"
proof -
  note c = countersD[OF ring_invD(1)[OF inv]]
  have k: "p = of_nat k" "q_published s \<le> k" "k < length (q_log s)" "q_log s ! k = x"
    using ring_invD(4)[OF inv, of i] p by auto
  have sl: "slot (q_ring s) p = k mod length (q_buffer s)" using c(1) c(8)[OF j] k(1) by simp
  let ?b = "(q_buffer s)[k mod length (q_buffer s) := x]"
  have other: "claimed (q_producers s i') \<noteq> Some k" if "i' \<noteq> i" for i'
    using ring_invD(6)[OF inv] p that by (auto simp: claims_inv_def)
  have "producer_inv (length (q_out s)) (q_published s) (q_log s) ?b (q_producers s i')" if "i' \<noteq> i" for i'
    using producer_write[OF ring_invD(4)[OF inv] other[OF that] c(2) k(2,3), of x] c(1,4) by simp
  moreover have "slots_inv (length (q_out s)) (q_published s) (q_log s) ?b"
    using ring_invD(3)[OF inv] mod_window[of "length (q_out s)" k "2 ^ j"] c(1-4) k
    by (auto simp: slots_inv_def nth_list_update)
  moreover have "claims_inv ((q_producers s)(i := PWritten x p k))"
    using p by (intro claims_keep[OF ring_invD(6)[OF inv]]) simp
  moreover have "?b ! (k mod length ?b) = x" using c(1) by simp
  ultimately show ?thesis
    unfolding sl using inv k p owners_keep[OF ring_invD(7)[OF inv], of "PWritten x p k" i] by (auto simp: ring_inv_def counters_inv_def)
qed

lemma turn_step:
  assumes inv: "ring_inv j s" and j: "j < 32" and p: "q_producers s i = PWritten x p k"
    and tail: "rg_p_tail (q_ring s) = p"
  shows "ring_inv j (s\<lparr>q_producers := (q_producers s)(i := PTurn x p k)\<rparr>)"
proof (rule local_step_inv[OF inv])
  note c = countersD[OF ring_invD(1)[OF inv]]
  have k: "p = of_nat k" "q_published s \<le> k" "k < length (q_log s)" "q_log s ! k = x" "q_buffer s ! (k mod length (q_buffer s)) = x"
    using ring_invD(4)[OF inv, of i] p by auto
  have "k < q_published s + 2 ^ 32" using k(3) c(2,4) pow_lt_u32[OF j] by simp
  then have "q_published s = k" using of_nat_u32_eq[of "q_published s" k] tail c(6) k(1,2) by simp
  then show "producer_inv (length (q_out s)) (q_published s) (q_log s) (q_buffer s) (PTurn x p k)"
    using k by simp
  show "claimed (PTurn x p k) = claimed (q_producers s i)" using p by simp
qed

lemma publish_step:
  assumes inv: "ring_inv j s" and p: "q_producers s i = PTurn x p k"
  shows "ring_inv j (s\<lparr>q_ring := (q_ring s)\<lparr>rg_p_tail := p + 1\<rparr>,
      q_producers := (q_producers s)(i := PIdle), q_published := q_published s + 1\<rparr>)"
proof -
  note c = countersD[OF ring_invD(1)[OF inv]]
  have k: "p = of_nat k" "k = q_published s" "k < length (q_log s)" "q_log s ! k = x" "q_buffer s ! (k mod length (q_buffer s)) = x"
    using ring_invD(4)[OF inv, of i] p by auto
  have other: "claimed (q_producers s i') \<noteq> Some (q_published s)" if "i' \<noteq> i" for i'
    using ring_invD(6)[OF inv] p that k(2) by (auto simp: claims_inv_def)
  have "slots_inv (length (q_out s)) (Suc (q_published s)) (q_log s) (q_buffer s)"
    using ring_invD(3)[OF inv] k by (auto simp: slots_inv_def less_Suc_eq)
  moreover have "claims_inv ((q_producers s)(i := PIdle))"
    using ring_invD(6)[OF inv] by (simp add: claims_release)
  ultimately show ?thesis
    using inv k p owners_publish[OF ring_invD(7)[OF inv], of i PIdle] producer_publish[OF ring_invD(4)[OF inv] other] consumer_publish[OF ring_invD(5)[OF inv]]
    by (auto simp: ring_inv_def counters_inv_def add.commute)
qed

lemma look_step:
  assumes inv: "ring_inv j s" and "rg_c_head (q_ring s) \<noteq> rg_p_tail (q_ring s)"
  shows "ring_inv j (s\<lparr>q_consumer := CSeen\<rparr>)"
proof -
  note c = countersD[OF ring_invD(1)[OF inv]]
  have "length (q_out s) \<noteq> q_published s" using assms(2) c(5,6) by auto
  then show ?thesis using inv c(2) by (auto simp: ring_inv_def counters_inv_def)
qed

lemma read_step:
  assumes inv: "ring_inv j s" and j: "j < 32" and "q_consumer s = CSeen"
  shows "ring_inv j (s\<lparr>q_consumer := CRead (q_buffer s ! slot (q_ring s) (rg_c_head (q_ring s)))\<rparr>)"
proof -
  note c = countersD[OF ring_invD(1)[OF inv]]
  have lt: "length (q_out s) < q_published s" using ring_invD(5)[OF inv] assms(3) by simp
  then have "q_buffer s ! slot (q_ring s) (rg_c_head (q_ring s)) = q_log s ! length (q_out s)"
    using ring_invD(3)[OF inv] c(1,5) c(8)[OF j] by (simp add: slots_inv_def)
  then show ?thesis using inv lt by (auto simp: ring_inv_def counters_inv_def)
qed

lemma advance_step:
  assumes inv: "ring_inv j s" and p: "q_consumer s = CRead x"
  shows "ring_inv j (s\<lparr>q_ring := (q_ring s)\<lparr>rg_c_head := rg_c_head (q_ring s) + 1\<rparr>,
      q_consumer := CIdle, q_out := q_out s @ [x]\<rparr>)"
proof -
  note c = countersD[OF ring_invD(1)[OF inv]]
  have lt: "length (q_out s) < q_published s" and x: "x = q_log s ! length (q_out s)"
    using ring_invD(5)[OF inv] p by auto
  then have "q_out s @ [x] = take (length (q_out s @ [x])) (q_log s)"
    using ring_invD(2)[OF inv] c(3) by (simp add: take_Suc_conv_app_nth)
  moreover have "slots_inv (Suc (length (q_out s))) (q_published s) (q_log s) (q_buffer s)"
    using ring_invD(3)[OF inv] by (auto simp: slots_inv_def)
  ultimately show ?thesis
    using inv lt producer_advance[OF ring_invD(4)[OF inv]]
    by (auto simp: ring_inv_def counters_inv_def add.commute)
qed

lemma ring_step_inv:
  assumes "ring_step s s'" and "ring_inv j s" and "j < 32"
  shows "ring_inv j s'"
  using assms(1)
proof (cases rule: ring_step.cases)
  case (p_load i x)
  then show ?thesis
    using local_step_inv[OF assms(2), of _ i] countersD(7)[OF ring_invD(1)[OF assms(2)]]
    by simp
next
  case (p_full i x p k)
  have "ring_inv j (s\<lparr>q_producers := (q_producers s)(i := PIdle)\<rparr>)"
    using local_step_inv[OF assms(2), of _ i] p_full(2) by simp
  then show ?thesis using p_full(1) by (simp add: ring_inv_def counters_inv_def)
next
  case (p_cas_fail i x p k)
  then show ?thesis
    using local_step_inv[OF assms(2), of _ i] countersD(7)[OF ring_invD(1)[OF assms(2)]]
    by simp
qed (use assms room_step cas_step write_step turn_step publish_step look_step read_step advance_step in simp_all)

lemma ring_start_inv:
  assumes "length buffer = 2 ^ j"
  shows "ring_inv j (ring_start j buffer)"
  using assms by (simp add: ring_inv_def ring_start_def counters_inv_def ck_ring_init_def slots_inv_def claims_inv_def owners_inv_def)

lemma ring_reach_inv: "ring_reach s0 s \<Longrightarrow> ring_inv j s0 \<Longrightarrow> j < 32 \<Longrightarrow> ring_inv j s"
  by (induction rule: ring_reach.induct) (auto intro: ring_step_inv)


section \<open>Properties\<close>

lemma ring_quiescent:
  assumes "ring_inv j s" and "j < 32" and "\<forall>i. q_producers s i = PIdle"
  shows "ring_contents (q_ring s) (q_buffer s) = drop (length (q_out s)) (q_log s)"
proof -
  note c = countersD[OF ring_invD(1)[OF assms(1)]]
  have T: "q_published s = length (q_log s)"
    using ring_invD(7)[OF assms(1)] assms(3) c(3) by (auto simp: owners_inv_def)
  have "rg_p_tail (q_ring s) - rg_c_head (q_ring s) = of_nat (q_published s - length (q_out s))"
    using c(2,5,6) by simp
  then have n: "unat (rg_p_tail (q_ring s) - rg_c_head (q_ring s)) = q_published s - length (q_out s)"
    using unat_of_nat_u32[of "q_published s - length (q_out s)"] c(3,4) pow_lt_u32[OF assms(2)] by simp
  have "q_buffer s ! slot (q_ring s) (rg_c_head (q_ring s) + of_nat k) = q_log s ! (length (q_out s) + k)"
    if "k < q_published s - length (q_out s)" for k
    using that ring_invD(3)[OF assms(1)] c(1,5) c(8)[OF assms(2), of "length (q_out s) + k"] by (simp add: slots_inv_def)
  then show ?thesis
    unfolding ring_contents_def n T[symmetric] by (intro nth_equalityI) (auto simp: T)
qed

text \<open>
  C6. First in, first out, with many producers.  However the threads interleave, the entries the consumer has
  returned are an initial part of the entries in the order in which producers claimed their slots: nothing
  is lost, duplicated, reordered or read before it was written, and no more than size minus one
  entries are outstanding.  When no producer is inside, the rest is exactly what the ring holds.
  (A producer is assumed not to be overtaken by \<open>2 ^ 32\<close> others between its load of \<^verbatim>\<open>p_head\<close> and its
  compare-and-swap.)
\<close>

theorem ck_ring_concurrent_fifo:
  assumes "j < 32" and "length buffer = 2 ^ j" and "ring_reach (ring_start j buffer) s"
  shows "prefix (q_out s) (q_log s) \<and> length (q_log s) < length (q_out s) + 2 ^ j \<and>
    ((\<forall>i. q_producers s i = PIdle) \<longrightarrow> ring_contents (q_ring s) (q_buffer s) = drop (length (q_out s)) (q_log s))"
proof -
  have inv: "ring_inv j s" using ring_reach_inv[OF assms(3) ring_start_inv[OF assms(2)] assms(1)] .
  have "prefix (q_out s) (q_log s)" using ring_invD(2)[OF inv] by (metis take_is_prefix)
  then show ?thesis
    using ring_quiescent[OF inv assms(1)] countersD(4)[OF ring_invD(1)[OF inv]] by blast
qed

text \<open>Two producers on a ring of eight slots, as an example.\<close>

definition duo :: "u32 \<Rightarrow> u32 \<Rightarrow> u32 \<Rightarrow> nat list \<Rightarrow> nat producer \<Rightarrow> nat producer \<Rightarrow> nat consumer \<Rightarrow> nat list \<Rightarrow> nat \<Rightarrow>
    nat list \<Rightarrow> nat ring_sys" where
  "duo c t h buf p0 p1 cs lg n out =
     \<lparr>q_ring = \<lparr>rg_c_head = c, rg_p_tail = t, rg_p_head = h, rg_size = 8, rg_mask = 7\<rparr>, q_buffer = buf,
      q_producers = ((\<lambda>_. PIdle)(0 := p0))(1 := p1), q_consumer = cs, q_log = lg, q_published = n, q_out = out,
      q_rejected = []\<rparr>"

abbreviation blank :: "nat list" where
  "blank \<equiv> [0, 0, 0, 0, 0, 0, 0, 0]"

abbreviation late :: "nat producer" where
  "late \<equiv> PLoaded 7 0 0"

definition one_passed :: "nat ring_sys" where
  "one_passed = duo 1 1 1 [5, 0, 0, 0, 0, 0, 0, 0] late PIdle CIdle [5] 1 [5]"

lemma upd_first: "(f(Suc 0 := b))(0 := x) = (f(0 := x))(Suc 0 := b)"
  by (auto simp: fun_eq_iff)

lemmas duo_simps = duo_def upd_first slot_def ring_start_def ck_ring_init_def

lemma duo_start: "ring_start 3 blank = duo 0 0 0 blank PIdle PIdle CIdle [] 0 []"
  by (simp add: duo_simps fun_eq_iff)

lemma duo_claimed: "ring_reach (ring_start 3 blank) (duo 0 0 1 blank late (PClaimed 5 0 0) CIdle [5] 0 [])"
proof -
  have "ring_step (duo 0 0 0 blank PIdle PIdle CIdle [] 0 []) (duo 0 0 0 blank late PIdle CIdle [] 0 [])"
    using p_load[of "duo 0 0 0 blank PIdle PIdle CIdle [] 0 []" 0 7] by (simp add: duo_simps)
  moreover have "ring_step (duo 0 0 0 blank late PIdle CIdle [] 0 []) (duo 0 0 0 blank late (PLoaded 5 0 0) CIdle [] 0 [])"
    using p_load[of "duo 0 0 0 blank late PIdle CIdle [] 0 []" 1 5] by (simp add: duo_simps)
  moreover have "ring_step (duo 0 0 0 blank late (PLoaded 5 0 0) CIdle [] 0 []) (duo 0 0 0 blank late (PChecked 5 0 0) CIdle [] 0 [])"
    using p_room[of "duo 0 0 0 blank late (PLoaded 5 0 0) CIdle [] 0 []" 1] by (simp add: duo_simps)
  moreover have "ring_step (duo 0 0 0 blank late (PChecked 5 0 0) CIdle [] 0 []) (duo 0 0 1 blank late (PClaimed 5 0 0) CIdle [5] 0 [])"
    using p_cas[of "duo 0 0 0 blank late (PChecked 5 0 0) CIdle [] 0 []" 1] by (simp add: duo_simps)
  ultimately show ?thesis
    unfolding duo_start by (rule ring_reach_step[OF ring_reach_step[OF ring_reach_step[OF ring_reach_step[OF ring_reach_start]]]])
qed

lemma duo_written: "ring_reach (ring_start 3 blank) (duo 0 0 1 (5 # tl blank) late (PWritten 5 0 0) CIdle [5] 0 [])"
proof -
  have "ring_step (duo 0 0 1 blank late (PClaimed 5 0 0) CIdle [5] 0 []) (duo 0 0 1 (5 # tl blank) late (PWritten 5 0 0) CIdle [5] 0 [])"
    using p_write[of "duo 0 0 1 blank late (PClaimed 5 0 0) CIdle [5] 0 []" 1] by (simp add: duo_simps)
  then show ?thesis by (rule ring_reach_step[OF duo_claimed])
qed

lemma one_passed_reach: "ring_reach (ring_start 3 blank) one_passed"
proof -
  let ?b = "5 # tl blank"
  have "ring_step (duo 0 0 1 ?b late (PWritten 5 0 0) CIdle [5] 0 []) (duo 0 0 1 ?b late (PTurn 5 0 0) CIdle [5] 0 [])"
    using p_turn[of "duo 0 0 1 ?b late (PWritten 5 0 0) CIdle [5] 0 []" 1] by (simp add: duo_simps)
  moreover have "ring_step (duo 0 0 1 ?b late (PTurn 5 0 0) CIdle [5] 0 []) (duo 0 1 1 ?b late PIdle CIdle [5] 1 [])"
    using p_publish[of "duo 0 0 1 ?b late (PTurn 5 0 0) CIdle [5] 0 []" 1] by (simp add: duo_simps)
  moreover have "ring_step (duo 0 1 1 ?b late PIdle CIdle [5] 1 []) (duo 0 1 1 ?b late PIdle CSeen [5] 1 [])"
    using c_look[of "duo 0 1 1 ?b late PIdle CIdle [5] 1 []"] by (simp add: duo_simps)
  moreover have "ring_step (duo 0 1 1 ?b late PIdle CSeen [5] 1 []) (duo 0 1 1 ?b late PIdle (CRead 5) [5] 1 [])"
    using c_read[of "duo 0 1 1 ?b late PIdle CSeen [5] 1 []"] by (simp add: duo_simps)
  moreover have "ring_step (duo 0 1 1 ?b late PIdle (CRead 5) [5] 1 []) one_passed"
    using c_advance[of "duo 0 1 1 ?b late PIdle (CRead 5) [5] 1 []"] by (simp add: duo_simps one_passed_def)
  ultimately show ?thesis
    by (rule ring_reach_step[OF ring_reach_step[OF ring_reach_step[OF ring_reach_step[OF ring_reach_step[OF duo_written]]]]])
qed

theorem ck_ring_concurrent_fifo_witness:
  "prefix (q_out one_passed) (q_log one_passed) \<and> q_log one_passed = [5]"
  using ck_ring_concurrent_fifo[of 3 blank one_passed] one_passed_reach by (simp add: one_passed_def duo_def)

subsection \<open>Waiting for the turn\<close>

text \<open>A step of the producer that owns the slot at \<^verbatim>\<open>p_tail\<close>: it writes the slot, sees its turn or publishes.\<close>

definition owner_step :: "'a ring_sys \<Rightarrow> 'a ring_sys \<Rightarrow> bool" where
  "owner_step s s' \<longleftrightarrow> ring_step s s' \<and> (\<exists>i. claimed (q_producers s i) = Some (q_published s) \<and>
     q_producers s' i \<noteq> q_producers s i \<and> (\<forall>i'. i' \<noteq> i \<longrightarrow> q_producers s' i' = q_producers s i'))"

text \<open>The steps that the owners have still to make until the slot \<open>k\<close> is published.\<close>

definition stage :: "nat \<Rightarrow> (nat \<Rightarrow> 'a producer) \<Rightarrow> nat" where
  "stage T ps = (if \<exists>i x p. ps i = PTurn x p T then 2 else if \<exists>i x p. ps i = PWritten x p T then 1 else 0)"

definition lag :: "nat \<Rightarrow> 'a ring_sys \<Rightarrow> nat" where
  "lag k s = 3 * (k + 1 - q_published s) - stage (q_published s) (q_producers s)"

lemma stage_le: "stage T ps \<le> 2"
  by (simp add: stage_def)

lemma stage_owner:
  assumes "claims_inv ps" and "claimed (ps i) = Some T"
  shows "stage T ps = (case ps i of PTurn x p k \<Rightarrow> 2 | PWritten x p k \<Rightarrow> 1 | _ \<Rightarrow> 0)"
proof -
  have "i' = i" if "ps i' = PTurn x p T \<or> ps i' = PWritten x p T" for i' x p
    using assms that unfolding claims_inv_def by (metis claimed.simps(2,3))
  then have "(\<exists>i' x p. ps i' = PTurn x p T) \<longleftrightarrow> (\<exists>x p. ps i = PTurn x p T)"
    "(\<exists>i' x p. ps i' = PWritten x p T) \<longleftrightarrow> (\<exists>x p. ps i = PWritten x p T)" by metis+
  then show ?thesis using assms(2) by (cases "ps i") (simp_all add: stage_def)
qed

lemma stage_other:
  assumes "claimed (ps i) \<noteq> Some T" and "claimed p \<noteq> Some T"
  shows "stage T (ps(i := p)) = stage T ps"
proof -
  have "(ps(i := p)) i' = q \<longleftrightarrow> ps i' = q" if "claimed q = Some T" for i' q
    using assms that by (cases "i' = i") auto
  then show ?thesis by (simp add: stage_def)
qed

lemma lag_owner:
  assumes "q_published s \<le> k" and "q_published s' = q_published s" and
    "stage (q_published s) (q_producers s) < stage (q_published s) (q_producers s')"
  shows "lag k s' < lag k s"
  using assms stage_le[of "q_published s" "q_producers s'"] by (simp add: lag_def)

lemma lag_publish: "q_published s \<le> k \<Longrightarrow> q_published s' = Suc (q_published s) \<Longrightarrow> lag k s' < lag k s"
  using stage_le[of "q_published s" "q_producers s"] by (simp add: lag_def)

lemma lag_step:
  assumes inv: "ring_inv j s" and k: "q_published s \<le> k" and step: "ring_step s s'"
  shows "lag k s' \<le> lag k s \<and> (owner_step s s' \<longrightarrow> lag k s' < lag k s)"
  using step
proof (cases rule: ring_step.cases)
  case (p_cas i x p k')
  note f = cas_fresh[OF inv p_cas(2-4)] and c = countersD[OF ring_invD(1)[OF inv]]
  have "stage (q_published s) (q_producers s') = stage (q_published s) (q_producers s)"
    if "k' \<noteq> q_published s" using p_cas(1,2) that by (simp add: stage_other)
  moreover have "stage (q_published s) (q_producers s') = stage (q_published s) (q_producers s)"
    if "k' = q_published s"
  proof -
    have "claimed (q_producers s i') \<noteq> Some k'" for i'
      using ring_invD(4)[OF inv, THEN claimed_less] f(1) by fastforce
    then have "\<nexists>i' x p. q_producers s i' = PTurn x p k'" "\<nexists>i' x p. q_producers s i' = PWritten x p k'"
      by (metis claimed.simps(3)) (metis \<open>\<And>i'. claimed (q_producers s i') \<noteq> Some k'\<close> claimed.simps(2))
    then show ?thesis using p_cas(1) that by (auto simp: stage_def)
  qed
  ultimately have "lag k s' = lag k s" using p_cas(1) by (cases "k' = q_published s") (simp_all add: lag_def)
  moreover have "\<not> owner_step s s'" using p_cas(1,2) by (auto simp: owner_step_def)
  ultimately show ?thesis by simp
next
  case (p_write i x p k')
  show ?thesis
  proof (cases "k' = q_published s")
    case True
    have "claims_inv (q_producers s')"
      using claims_keep[OF ring_invD(6)[OF inv], of "PWritten x p k'" i] p_write by simp
    then have "lag k s' < lag k s"
      using stage_owner[OF ring_invD(6)[OF inv], of i] stage_owner[of "q_producers s'" i "q_published s"] True p_write
      by (intro lag_owner[OF k]) simp_all
    then show ?thesis by simp
  next
    case False
    then have "lag k s' = lag k s" using p_write by (simp add: lag_def stage_other)
    moreover have "\<not> owner_step s s'" using p_write False by (auto simp: owner_step_def)
    ultimately show ?thesis by simp
  qed
next
  case (p_turn i x p k')
  show ?thesis
  proof (cases "k' = q_published s")
    case True
    have "claims_inv (q_producers s')"
      using claims_keep[OF ring_invD(6)[OF inv], of "PTurn x p k'" i] p_turn by simp
    then have "lag k s' < lag k s"
      using stage_owner[OF ring_invD(6)[OF inv], of i] stage_owner[of "q_producers s'" i "q_published s"] True p_turn
      by (intro lag_owner[OF k]) simp_all
    then show ?thesis by simp
  next
    case False
    then have "lag k s' = lag k s" using p_turn by (simp add: lag_def stage_other)
    moreover have "\<not> owner_step s s'" using p_turn False by (auto simp: owner_step_def)
    ultimately show ?thesis by simp
  qed
next
  case (p_publish i x p k')
  then show ?thesis using lag_publish[OF k, of s'] by simp
qed (auto simp: lag_def stage_other owner_step_def)

lemma owner_next:
  assumes inv: "ring_inv j s" and "q_published s < length (q_log s)"
  shows "\<exists>i s'. claimed (q_producers s i) = Some (q_published s) \<and> owner_step s s' \<and>
     (\<forall>i'. i' \<noteq> i \<longrightarrow> q_producers s' i' = q_producers s i') \<and>
     (q_published s' = q_published s \<and> claimed (q_producers s' i) = Some (q_published s) \<or>
      q_published s' = Suc (q_published s) \<and> q_producers s' i = PIdle)"
proof -
  note c = countersD[OF ring_invD(1)[OF inv]]
  obtain i where i: "claimed (q_producers s i) = Some (q_published s)"
    using ring_invD(7)[OF inv] assms(2) by (auto simp: owners_inv_def)
  have step: ?thesis if "ring_step s s'" "q_producers s' = (q_producers s)(i := p)" "p \<noteq> q_producers s i"
      "q_published s' = q_published s \<and> claimed p = Some (q_published s) \<or> q_published s' = Suc (q_published s) \<and> p = PIdle" for s' p
    using that i by (intro exI[of _ i] exI[of _ s']) (auto simp: owner_step_def intro!: exI[of _ i])
  show ?thesis
  proof (cases "q_producers s i")
    case (PClaimed y p' k')
    show ?thesis by (rule step[OF p_write[OF PClaimed], where p = "PWritten y p' k'"]) (use i PClaimed in simp_all)
  next
    case (PWritten y p' k')
    then have "rg_p_tail (q_ring s) = p'" using i ring_invD(4)[OF inv, of i] c(6) by auto
    from p_turn[OF PWritten this] show ?thesis by (rule step[where p = "PTurn y p' k'"]) (use i PWritten in simp_all)
  next
    case (PTurn y p' k')
    show ?thesis by (rule step[OF p_publish[OF PTurn], where p = PIdle]) (use PTurn in simp_all)
  qed (use i in simp_all)
qed

lemma owners_run:
  assumes "ring_inv j s" and "j < 32" and "claimed (q_producers s i) = Some k"
  shows "\<exists>n s'. n \<le> lag k s \<and> (owner_step ^^ n) s s' \<and> q_published s' = k + 1 \<and> q_producers s' i = PIdle"
  using assms
proof (induction "lag k s" arbitrary: s rule: less_induct)
  case less
  have le: "q_published s \<le> k" "k < length (q_log s)"
    using ring_invD(4)[OF less.prems(1), of i] less.prems(3) by (cases "q_producers s i"; auto)+
  obtain i' s1 where s1: "claimed (q_producers s i') = Some (q_published s)" "owner_step s s1"
      "\<forall>i''. i'' \<noteq> i' \<longrightarrow> q_producers s1 i'' = q_producers s i''"
      "q_published s1 = q_published s \<and> claimed (q_producers s1 i') = Some (q_published s) \<or>
       q_published s1 = Suc (q_published s) \<and> q_producers s1 i' = PIdle"
    using owner_next[OF less.prems(1)] le by fastforce
  have step: "ring_step s s1" using s1(2) by (simp add: owner_step_def)
  have lt: "lag k s1 < lag k s" using lag_step[OF less.prems(1) le(1) step] s1(2) by simp
  have inv1: "ring_inv j s1" by (rule ring_step_inv[OF step less.prems(1,2)])
  show ?case
  proof (cases "claimed (q_producers s1 i) = Some k")
    case True
    then obtain n s' where n: "n \<le> lag k s1" "(owner_step ^^ n) s1 s'" "q_published s' = k + 1" "q_producers s' i = PIdle"
      using less.hyps[OF lt inv1 less.prems(2)] by blast
    have "(owner_step ^^ Suc n) s s'" using relpowp_Suc_I2[OF s1(2) n(2)] .
    then show ?thesis using n lt by (intro exI[of _ "Suc n"] exI[of _ s']) simp
  next
    case False
    then have "i = i'" using s1(3) less.prems(3) by metis
    then have "q_published s = k" "q_published s1 = k + 1" "q_producers s1 i = PIdle"
      using s1(1,4) less.prems(3) False by auto
    moreover have "(owner_step ^^ 1) s s1" unfolding relpowp_1 by (rule s1(2))
    moreover have "1 \<le> lag k s" using lt by simp
    ultimately show ?thesis by blast
  qed
qed

text \<open>
  C26. No producer waits for ever.  Take any state that the threads can reach and any producer that has claimed
  a slot, in particular one that spins until \<^verbatim>\<open>p_tail\<close> reaches its slot.  The producer that owns the slot at
  \<^verbatim>\<open>p_tail\<close> can take its next step; no step of any thread increases the number of steps that owners have still
  to make before the slot is published, every step of the owner decreases it; and at most
  three steps of owners for each slot that is still ahead publish the slot and let the producer return.
  (As in C6, a producer is not overtaken by \<open>2 ^ 32\<close> others inside its compare-and-swap loop.)
\<close>

theorem ck_ring_turn_progress:
  assumes "j < 32" and "length buffer = 2 ^ j" and "ring_reach (ring_start j buffer) s"
    and "claimed (q_producers s i) = Some k"
  shows "(\<exists>s'. owner_step s s') \<and>
    (\<forall>s'. ring_step s s' \<longrightarrow> lag k s' \<le> lag k s \<and> (owner_step s s' \<longrightarrow> lag k s' < lag k s)) \<and>
    (\<exists>n s'. n \<le> 3 * (k + 1 - q_published s) \<and> (owner_step ^^ n) s s' \<and> q_published s' = k + 1 \<and> q_producers s' i = PIdle)"
proof -
  have inv: "ring_inv j s" using ring_reach_inv[OF assms(3) ring_start_inv[OF assms(2)] assms(1)] .
  have le: "q_published s \<le> k" "k < length (q_log s)"
    using ring_invD(4)[OF inv, of i] assms(4) by (cases "q_producers s i"; auto)+
  have "\<exists>n s'. n \<le> lag k s \<and> (owner_step ^^ n) s s' \<and> q_published s' = k + 1 \<and> q_producers s' i = PIdle"
    by (rule owners_run[OF inv assms(1,4)])
  moreover have "lag k s \<le> 3 * (k + 1 - q_published s)" by (simp add: lag_def)
  moreover have "\<exists>s'. owner_step s s'" using owner_next[OF inv] le by fastforce
  ultimately show ?thesis using lag_step[OF inv le(1)] by (meson order_trans)
qed

theorem ck_ring_turn_progress_witness:
  "\<exists>s n s'. ring_reach (ring_start 3 blank) s \<and> q_producers s 1 = PWritten 5 0 0 \<and>
     n \<le> 3 \<and> (owner_step ^^ n) s s' \<and> q_published s' = 1 \<and> q_producers s' 1 = PIdle"
proof -
  let ?s = "duo 0 0 1 (5 # tl blank) late (PWritten 5 0 0) CIdle [5] 0 []"
  have s: "q_producers ?s 1 = PWritten 5 0 0" "q_published ?s = 0" "claimed (q_producers ?s 1) = Some 0"
    by (simp_all add: duo_def)
  show ?thesis using ck_ring_turn_progress[OF _ _ duo_written s(3)] duo_written s(1,2) by fastforce
qed

text \<open>
  C38. A spurious refusal.  \<^verbatim>\<open>_ck_ring_enqueue_mp\<close> may report a full ring that is empty: the producer
  compares the consumer's position with its own older snapshot of \<^verbatim>\<open>p_head\<close>, and one entry that
  passed through the ring in between makes the two look one lap apart.
\<close>

theorem ck_ring_spurious_full:
  "\<exists>s s'. ring_reach (ring_start 3 blank) s \<and> ring_contents (q_ring s) (q_buffer s) = [] \<and>
     rg_p_head (q_ring s) = rg_c_head (q_ring s) \<and> ring_step s s' \<and> q_rejected s' = [7]"
proof -
  have "ring_step one_passed (one_passed\<lparr>q_producers := (q_producers one_passed)(0 := PIdle), q_rejected := q_rejected one_passed @ [7]\<rparr>)"
    by (rule p_full[of _ _ _ 0 0]) (simp_all add: one_passed_def duo_def)
  moreover have "ring_contents (q_ring one_passed) (q_buffer one_passed) = []"
    "rg_p_head (q_ring one_passed) = rg_c_head (q_ring one_passed)" "q_rejected one_passed = []"
    by (simp_all add: one_passed_def ring_contents_empty duo_def)
  ultimately show ?thesis
    using one_passed_reach by (intro exI[of _ one_passed] exI conjI) (assumption | simp)+
qed

end
