(* ===== verification/Executor.thy ===== *)
theory Executor
  imports Ring "HOL-Library.Multiset"
begin

text \<open>
  The message executor of the Dart binding (\<^verbatim>\<open>src/binding/native/src/binding_executor.c\<close>): messages of
  many isolates arrive through the ring, the storage thread runs them one by one, holds back the messages
  of other owners while a transaction is open, and posts every message back to the port of its sender.
\<close>

section \<open>Messages\<close>

datatype tarantool_message_type =
    TARANTOOL_MESSAGE_CALL
  | TARANTOOL_MESSAGE_BATCH
  | TARANTOOL_MESSAGE_STOP
  | TARANTOOL_MESSAGE_BEGIN
  | TARANTOOL_MESSAGE_COMMIT
  | TARANTOOL_MESSAGE_ROLLBACK

datatype tarantool_error_type = TARANTOOL_ERROR_LIMIT | TARANTOOL_ERROR_INTERNAL

text \<open>Functions are \<open>'f\<close>, their arguments and results \<open>'v\<close>; an absent error is a null pointer.\<close>

record ('f, 'v) tarantool_message_batch_element_t =
  be_function :: 'f
  be_input :: 'v
  be_output :: 'v
  be_error :: "string option"
  be_error_type :: tarantool_error_type

record ('f, 'v) tarantool_message_t =
  tm_type :: tarantool_message_type
  tm_function :: 'f
  tm_input :: 'v
  tm_output :: 'v
  tm_callback_send_port :: int
  tm_callback_handle :: nat
  tm_batch :: "('f, 'v) tarantool_message_batch_element_t list"
  tm_error :: "string option"
  tm_error_type :: tarantool_error_type
  tm_owner :: u32

text \<open>
  What the executor calls in the storage, over the storage's state \<open>'w\<close>: the functions of the messages,
  the transaction control of \<^verbatim>\<open>binding_box.c\<close>, whose results are ignored, and the diagnostics area.
\<close>

record ('f, 'v, 'w) box_env =
  call_function :: "'f \<Rightarrow> 'v \<Rightarrow> 'w \<Rightarrow> 'v \<times> 'w"
  in_txn :: "'w \<Rightarrow> bool"
  tarantool_begin :: "'w \<Rightarrow> 'w"
  tarantool_commit :: "'w \<Rightarrow> 'w"
  tarantool_rollback :: "'w \<Rightarrow> 'w"
  diag_last_error :: "'w \<Rightarrow> string option"
  diag_clear :: "'w \<Rightarrow> 'w"

section \<open>The executor\<close>

record ('f, 'v, 'w) executor =
  x_ring :: "('f, 'v) tarantool_message_t ring_state"
  x_active :: bool
  x_transaction_owner :: u32
  x_ring_retry_max_count :: int
  x_world :: 'w
  x_posts :: "('f, 'v) tarantool_message_t list"

definition MESSAGE_SEND_ERROR :: string where
  "MESSAGE_SEND_ERROR = ''Failed to resend message into the ring during transaction''"

definition dart_post_pointer :: "('f, 'v) tarantool_message_t \<Rightarrow> ('f, 'v, 'w) executor \<Rightarrow> ('f, 'v, 'w) executor" where
  "dart_post_pointer m x = x\<lparr>x_posts := x_posts x @ [m]\<rparr>"

definition tarantool_message_handle_call ::
    "('f, 'v, 'w) box_env \<Rightarrow> ('f, 'v) tarantool_message_t \<Rightarrow> 'w \<Rightarrow> ('f, 'v) tarantool_message_t \<times> 'w" where
  "tarantool_message_handle_call env m w =
     (let (out, w) = call_function env (tm_function m) (tm_input m) w;
          m = m\<lparr>tm_output := out\<rparr>
      in case diag_last_error env w of
           None \<Rightarrow> (m, w)
         | Some e \<Rightarrow> (m\<lparr>tm_error := Some e, tm_error_type := TARANTOOL_ERROR_INTERNAL\<rparr>, diag_clear env w))"

fun handle_batch_loop ::
    "('f, 'v, 'w) box_env \<Rightarrow> ('f, 'v) tarantool_message_batch_element_t list \<Rightarrow> 'w \<Rightarrow>
     ('f, 'v) tarantool_message_batch_element_t list \<times> 'w" where
  "handle_batch_loop env [] w = ([], w)"
| "handle_batch_loop env (el # els) w =
     (let (out, w) = call_function env (be_function el) (be_input el) w;
          el = el\<lparr>be_output := out\<rparr>;
          (el, w) = (case diag_last_error env w of
                       None \<Rightarrow> (el, w)
                     | Some e \<Rightarrow> (el\<lparr>be_error := Some e, be_error_type := TARANTOOL_ERROR_INTERNAL\<rparr>, diag_clear env w));
          (els, w) = handle_batch_loop env els w
      in (el # els, w))"

definition tarantool_message_handle_batch ::
    "('f, 'v, 'w) box_env \<Rightarrow> ('f, 'v) tarantool_message_t \<Rightarrow> 'w \<Rightarrow> ('f, 'v) tarantool_message_t \<times> 'w" where
  "tarantool_message_handle_batch env m w =
     (let (els, w) = handle_batch_loop env (tm_batch m) w in (m\<lparr>tm_batch := els\<rparr>, w))"

text \<open>
  The retry loop around \<^verbatim>\<open>ck_ring_enqueue_mpsc\<close>, which gives up after the configured number of failed
  attempts and makes at least one.
\<close>

fun enqueue_attempts :: "nat \<Rightarrow> 'a \<Rightarrow> 'a ring_state \<Rightarrow> bool \<times> 'a ring_state" where
  "enqueue_attempts 0 m s = (False, s)"
| "enqueue_attempts (Suc n) m s = (let (r, s) = ring_enq m s in if r then (True, s) else enqueue_attempts n m s)"

definition enqueue_retry :: "int \<Rightarrow> 'a \<Rightarrow> 'a ring_state \<Rightarrow> bool \<times> 'a ring_state" where
  "enqueue_retry retry_max m s = enqueue_attempts (nat (max 1 retry_max)) m s"

definition tarantool_message_handle ::
    "('f, 'v, 'w) box_env \<Rightarrow> ('f, 'v) tarantool_message_t \<Rightarrow> ('f, 'v, 'w) executor \<Rightarrow> ('f, 'v, 'w) executor" where
  "tarantool_message_handle env m x =
     (if in_txn env (x_world x) \<and> tm_owner m \<noteq> x_transaction_owner x then
        let (r, ring) = enqueue_retry (x_ring_retry_max_count x) m (x_ring x);
            x = x\<lparr>x_ring := ring\<rparr>
        in if r then x
           else dart_post_pointer (m\<lparr>tm_error := Some MESSAGE_SEND_ERROR, tm_error_type := TARANTOOL_ERROR_LIMIT\<rparr>) x
      else
        case tm_type m of
          TARANTOOL_MESSAGE_CALL \<Rightarrow>
            (let (m, w) = tarantool_message_handle_call env m (x_world x)
             in dart_post_pointer m (x\<lparr>x_world := w\<rparr>))
        | TARANTOOL_MESSAGE_BATCH \<Rightarrow>
            (let (m, w) = tarantool_message_handle_batch env m (x_world x)
             in dart_post_pointer m (x\<lparr>x_world := w\<rparr>))
        | TARANTOOL_MESSAGE_BEGIN \<Rightarrow>
            dart_post_pointer m (x\<lparr>x_transaction_owner := tm_owner m, x_world := tarantool_begin env (x_world x)\<rparr>)
        | TARANTOOL_MESSAGE_ROLLBACK \<Rightarrow>
            dart_post_pointer m (x\<lparr>x_world := tarantool_rollback env (x_world x)\<rparr>)
        | TARANTOOL_MESSAGE_COMMIT \<Rightarrow>
            dart_post_pointer m (x\<lparr>x_world := tarantool_commit env (x_world x)\<rparr>)
        | TARANTOOL_MESSAGE_STOP \<Rightarrow> x)"

record loop_configuration =
  message_loop_max_sleep_seconds :: real
  message_loop_regular_sleep_seconds :: real
  message_loop_max_empty_cycles :: int
  message_loop_empty_cycles_multiplier :: int
  message_loop_initial_empty_cycles :: int
  message_loop_ring_size :: u64
  message_loop_ring_retry_max_count :: u64

text \<open>
  The memory that \<^verbatim>\<open>malloc\<close> returns is a parameter, \<^const>\<open>None\<close> when it fails.  The ring takes an
  \<^verbatim>\<open>unsigned int\<close> and the retry counter is an \<^verbatim>\<open>int\<close>, so both settings are truncated.
\<close>

definition tarantool_message_loop_initialize ::
    "loop_configuration \<Rightarrow> ('f, 'v) tarantool_message_t list option \<Rightarrow> ('f, 'v, 'w) executor \<Rightarrow> ('f, 'v, 'w) executor" where
  "tarantool_message_loop_initialize cfg memory x =
     (case memory of
        None \<Rightarrow> x
      | Some buffer \<Rightarrow> x\<lparr>x_ring := (ck_ring_init (ucast (message_loop_ring_size cfg)), buffer),
          x_ring_retry_max_count := sint (ucast (message_loop_ring_retry_max_count cfg) :: u32), x_active := True\<rparr>)"

text \<open>The loop that empties the ring after a stop message; the fuel counts its turns.\<close>

fun drain_loop :: "nat \<Rightarrow> ('f, 'v, 'w) box_env \<Rightarrow> ('f, 'v, 'w) executor \<Rightarrow> ('f, 'v, 'w) executor option" where
  "drain_loop 0 env x = None"
| "drain_loop (Suc fuel) env x =
     (case ring_deq (x_ring x) of
        (None, ring) \<Rightarrow> Some (x\<lparr>x_ring := ring\<rparr>)
      | (Some m, ring) \<Rightarrow> drain_loop fuel env (tarantool_message_handle env m (x\<lparr>x_ring := ring\<rparr>)))"

text \<open>
  The counters of \<^verbatim>\<open>tarantool_message_loop_start\<close>, and what one turn of the loop does with them: the sleep
  it makes, if any.  They are of type \<^verbatim>\<open>int\<close>; overflow is \<^const>\<open>None\<close>.
\<close>

record idle_counters =
  current_empty_cycles :: int
  current_empty_cycles_limit :: int

definition idle_start :: "loop_configuration \<Rightarrow> idle_counters" where
  "idle_start cfg = \<lparr>current_empty_cycles = 0, current_empty_cycles_limit = message_loop_initial_empty_cycles cfg\<rparr>"

definition idle_turn :: "loop_configuration \<Rightarrow> idle_counters \<Rightarrow> (real option \<times> idle_counters) option" where
  "idle_turn cfg c = do {
     cycles \<leftarrow> c_int (current_empty_cycles c + 1);
     let c = c\<lparr>current_empty_cycles := cycles\<rparr>;
     if current_empty_cycles c \<ge> message_loop_max_empty_cycles cfg
     then Some (Some (message_loop_max_sleep_seconds cfg), c)
     else if current_empty_cycles c \<ge> current_empty_cycles_limit c
     then do {
       limit \<leftarrow> c_int (current_empty_cycles_limit c * message_loop_empty_cycles_multiplier cfg);
       Some (Some (message_loop_regular_sleep_seconds cfg), c\<lparr>current_empty_cycles_limit := limit\<rparr>)
     }
     else Some (None, c)
   }"

text \<open>
  The storage thread stands in the main loop, in the loop that drains the ring after a stop, between the last
  look into the empty ring and \<^verbatim>\<open>free(tarantool_message_buffer)\<close>, or after it.  A sender that has passed
  the test of \<^verbatim>\<open>active\<close> holds its message and the number of its failed attempts.
\<close>

datatype loop_phase = Loop_Running | Loop_Draining | Loop_Emptied | Loop_Over

record ('f, 'v, 'w) session =
  ss_accepted :: "('f, 'v) tarantool_message_t list"
  ss_late :: "('f, 'v) tarantool_message_t list"
  ss_senders :: "nat \<Rightarrow> (('f, 'v) tarantool_message_t \<times> int) option"
  ss_counters :: idle_counters
  ss_hand :: "('f, 'v) tarantool_message_t option"
  ss_phase :: loop_phase
  ss_executor :: "('f, 'v, 'w) executor"

text \<open>
  One step of the storage thread inside \<^verbatim>\<open>tarantool_message_loop_start\<close>: it takes a message out of the ring,
  handles the message in hand, notices that the ring is empty, or frees the buffer.  Between two steps senders may run.
\<close>

definition loop_turn ::
    "loop_configuration \<Rightarrow> ('f, 'v, 'w) box_env \<Rightarrow> ('f, 'v, 'w) session \<Rightarrow> ('f, 'v, 'w) session option" where
  "loop_turn cfg env s =
     (let x = ss_executor s in
      case ss_phase s of
        Loop_Over \<Rightarrow> Some s
      | Loop_Emptied \<Rightarrow> Some (s\<lparr>ss_phase := Loop_Over\<rparr>)
      | Loop_Draining \<Rightarrow>
          (case ss_hand s of
             Some m \<Rightarrow> Some (s\<lparr>ss_hand := None, ss_executor := tarantool_message_handle env m x\<rparr>)
           | None \<Rightarrow>
               (case ring_deq (x_ring x) of
                  (Some m, ring) \<Rightarrow> Some (s\<lparr>ss_hand := Some m, ss_executor := x\<lparr>x_ring := ring\<rparr>\<rparr>)
                | (None, ring) \<Rightarrow> Some (s\<lparr>ss_phase := Loop_Emptied, ss_executor := x\<lparr>x_ring := ring\<rparr>\<rparr>)))
      | Loop_Running \<Rightarrow>
          (case ss_hand s of
             Some m \<Rightarrow> Some (s\<lparr>ss_hand := None, ss_executor := tarantool_message_handle env m x\<rparr>)
           | None \<Rightarrow>
               (case ring_deq (x_ring x) of
                  (Some m, ring) \<Rightarrow>
                    (let s = s\<lparr>ss_counters := idle_start cfg\<rparr>; x = x\<lparr>x_ring := ring\<rparr>
                     in if tm_type m \<noteq> TARANTOOL_MESSAGE_STOP then Some (s\<lparr>ss_hand := Some m, ss_executor := x\<rparr>)
                        else Some (s\<lparr>ss_phase := Loop_Draining, ss_executor := x\<lparr>x_active := False\<rparr>\<rparr>))
                | (None, ring) \<Rightarrow>
                    (let s = s\<lparr>ss_executor := x\<lparr>x_ring := ring\<rparr>\<rparr>
                     in if in_txn env (x_world x) then Some s
                        else map_option (\<lambda>(sleep, c). s\<lparr>ss_counters := c\<rparr>) (idle_turn cfg (ss_counters s))))))"

text \<open>
  \<^verbatim>\<open>tarantool_send_message\<close>, first the test of \<^verbatim>\<open>active\<close>, then one attempt to enqueue.  \<open>handle\<close> is the
  fresh persistent handle made from the callback.  \<open>spurious\<close> attempts are refused by the ring although it has room.
\<close>

definition tarantool_send_message_enter ::
    "nat \<Rightarrow> ('f, 'v) tarantool_message_t \<Rightarrow> ('f, 'v, 'w) executor \<Rightarrow> (('f, 'v) tarantool_message_t \<times> int) option" where
  "tarantool_send_message_enter handle m x =
     (if \<not> x_active x then None else Some (m\<lparr>tm_callback_handle := handle\<rparr>, 0))"

datatype send_result = Sent | Not_Sent | Send_Again int

definition tarantool_send_message_attempt ::
    "bool \<Rightarrow> ('f, 'v) tarantool_message_t \<Rightarrow> int \<Rightarrow> ('f, 'v, 'w) executor \<Rightarrow> send_result \<times> ('f, 'v, 'w) executor" where
  "tarantool_send_message_attempt spurious m attempts x =
     (let (r, ring) = (if spurious then (False, x_ring x) else ring_enq m (x_ring x));
          x = x\<lparr>x_ring := ring\<rparr>
      in if r then (Sent, x)
         else if attempts + 1 \<ge> x_ring_retry_max_count x then (Not_Sent, x)
         else (Send_Again (attempts + 1), x))"

text \<open>\<open>fresh\<close> is the memory of the new message; only its type is set.\<close>

definition tarantool_message_loop_stop ::
    "('f, 'v) tarantool_message_t \<Rightarrow> ('f, 'v, 'w) executor \<Rightarrow> ('f, 'v, 'w) executor" where
  "tarantool_message_loop_stop fresh x =
     x\<lparr>x_ring := snd (ring_enq (fresh\<lparr>tm_type := TARANTOOL_MESSAGE_STOP\<rparr>) (x_ring x))\<rparr>"

definition tarantool_message_loop_active :: "('f, 'v, 'w) executor \<Rightarrow> bool" where
  "tarantool_message_loop_active x = x_active x"


section \<open>Runs\<close>

text \<open>
  The isolates send messages and ask for a stop, the storage thread takes its turns, in any order.  An isolate has
  one call of \<^verbatim>\<open>tarantool_send_message\<close> under way at a time.  \<open>ss_accepted\<close> records the messages for which it returned
  true, in the order in which they entered the ring, \<open>ss_late\<close> those of them that entered it after the
  last look of the drain.  A step that touches the buffer after it was freed is \<^const>\<open>None\<close>.
\<close>

datatype ('f, 'v) exec_op =
    OpSend nat nat "('f, 'v) tarantool_message_t"
  | OpAttempt nat bool
  | OpStop "('f, 'v) tarantool_message_t"
  | OpTurn

fun session_exec ::
    "loop_configuration \<Rightarrow> ('f, 'v, 'w) box_env \<Rightarrow> ('f, 'v) exec_op \<Rightarrow> ('f, 'v, 'w) session \<Rightarrow> ('f, 'v, 'w) session option" where
  "session_exec cfg env (OpSend i h m) s =
     (if ss_senders s i \<noteq> None then Some s
      else Some (s\<lparr>ss_senders := (ss_senders s)(i := tarantool_send_message_enter h m (ss_executor s))\<rparr>))"
| "session_exec cfg env (OpAttempt i spurious) s =
     (case ss_senders s i of
        None \<Rightarrow> Some s
      | Some (m, attempts) \<Rightarrow>
          if ss_phase s = Loop_Over then None
          else (case tarantool_send_message_attempt spurious m attempts (ss_executor s) of
              (Sent, x) \<Rightarrow> Some (s\<lparr>ss_executor := x, ss_senders := (ss_senders s)(i := None), ss_accepted := ss_accepted s @ [m],
                  ss_late := ss_late s @ (if ss_phase s = Loop_Emptied then [m] else [])\<rparr>)
            | (Not_Sent, x) \<Rightarrow> Some (s\<lparr>ss_executor := x, ss_senders := (ss_senders s)(i := None)\<rparr>)
            | (Send_Again attempts, x) \<Rightarrow> Some (s\<lparr>ss_executor := x, ss_senders := (ss_senders s)(i := Some (m, attempts))\<rparr>)))"
| "session_exec cfg env (OpStop fresh) s =
     (if ss_phase s = Loop_Over then None
      else Some (s\<lparr>ss_executor := tarantool_message_loop_stop fresh (ss_executor s)\<rparr>))"
| "session_exec cfg env OpTurn s = loop_turn cfg env s"

fun session_run ::
    "loop_configuration \<Rightarrow> ('f, 'v, 'w) box_env \<Rightarrow> ('f, 'v) exec_op list \<Rightarrow> ('f, 'v, 'w) session \<Rightarrow> ('f, 'v, 'w) session option" where
  "session_run cfg env [] s = Some s"
| "session_run cfg env (op # ops) s = session_exec cfg env op s \<bind> session_run cfg env ops"

definition session_start :: "loop_configuration \<Rightarrow> ('f, 'v) tarantool_message_t list \<Rightarrow> 'w \<Rightarrow> ('f, 'v, 'w) session" where
  "session_start cfg buffer w =
     \<lparr>ss_accepted = [], ss_late = [], ss_senders = (\<lambda>_. None), ss_counters = idle_start cfg, ss_hand = None,
      ss_phase = Loop_Running,
      ss_executor = tarantool_message_loop_initialize cfg (Some buffer)
        \<lparr>x_ring = (ck_ring_init 0, []), x_active = False, x_transaction_owner = - 1,
         x_ring_retry_max_count = 3, x_world = w, x_posts = []\<rparr>\<rparr>"

abbreviation waiting :: "('f, 'v, 'w) executor \<Rightarrow> ('f, 'v) tarantool_message_t list" where
  "waiting x \<equiv> ring_queue (x_ring x)"

abbreviation executor_ok :: "('f, 'v, 'w) executor \<Rightarrow> bool" where
  "executor_ok x \<equiv> ring_state_ok (x_ring x)"

text \<open>The identities of the requests in a list: the callback handles, stop messages apart.\<close>

definition requests :: "('f, 'v) tarantool_message_t list \<Rightarrow> nat list" where
  "requests ms = map tm_callback_handle (filter (\<lambda>m. tm_type m \<noteq> TARANTOOL_MESSAGE_STOP) ms)"

section \<open>Lemmas\<close>

lemma requests_simps [simp]:
  "requests [] = []"
  "requests (m # ms) = (if tm_type m = TARANTOOL_MESSAGE_STOP then requests ms else tm_callback_handle m # requests ms)"
  "requests (ms @ ms') = requests ms @ requests ms'"
  by (auto simp: requests_def)

text \<open>Retrying does not help: only this thread takes messages out.\<close>

lemma enqueue_attempts_eq: "ring_state_ok s \<Longrightarrow> 0 < n \<Longrightarrow> enqueue_attempts n m s = ring_enq m s"
proof (induction n)
  case (Suc n)
  then show ?case by (cases "n = 0") (auto simp: ring_enq_eq)
qed simp

lemma enqueue_retry_eq: "ring_state_ok s \<Longrightarrow> enqueue_retry k m s = ring_enq m s"
  by (simp add: enqueue_retry_def enqueue_attempts_eq)

lemma handle_call_keeps:
  "tm_type (fst (tarantool_message_handle_call env m w)) = tm_type m \<and>
   tm_callback_handle (fst (tarantool_message_handle_call env m w)) = tm_callback_handle m"
  by (simp add: tarantool_message_handle_call_def Let_def split: prod.splits option.splits)

lemma handle_batch_keeps:
  "tm_type (fst (tarantool_message_handle_batch env m w)) = tm_type m \<and>
   tm_callback_handle (fst (tarantool_message_handle_batch env m w)) = tm_callback_handle m"
  by (simp add: tarantool_message_handle_batch_def Let_def split: prod.splits)

text \<open>The three fates of a message.\<close>

lemma handle_cases:
  assumes "executor_ok x"
  obtains (deferred) "in_txn env (x_world x)" "tm_owner m \<noteq> x_transaction_owner x" "length (waiting x) < ring_room (x_ring x)"
      "tarantool_message_handle env m x = x\<lparr>x_ring := snd (ring_enq m (x_ring x))\<rparr>"
  | (refused) "in_txn env (x_world x)" "tm_owner m \<noteq> x_transaction_owner x" "length (waiting x) = ring_room (x_ring x)"
      "tarantool_message_handle env m x =
        dart_post_pointer (m\<lparr>tm_error := Some MESSAGE_SEND_ERROR, tm_error_type := TARANTOOL_ERROR_LIMIT\<rparr>) x"
  | (dropped) "tm_type m = TARANTOOL_MESSAGE_STOP" "tarantool_message_handle env m x = x"
      "\<not> (in_txn env (x_world x) \<and> tm_owner m \<noteq> x_transaction_owner x)"
  | (answered) m' w o' where "\<not> (in_txn env (x_world x) \<and> tm_owner m \<noteq> x_transaction_owner x)"
      "tm_type m \<noteq> TARANTOOL_MESSAGE_STOP"
      "tarantool_message_handle env m x = dart_post_pointer m' (x\<lparr>x_transaction_owner := o', x_world := w\<rparr>)"
      "tm_type m' = tm_type m" "tm_callback_handle m' = tm_callback_handle m"
proof (cases "in_txn env (x_world x) \<and> tm_owner m \<noteq> x_transaction_owner x")
  case True
  have "length (waiting x) \<le> ring_room (x_ring x)"
    using assms by (auto simp: ring_ok_def ring_room_def ring_contents_def)
  then consider "length (waiting x) < ring_room (x_ring x)" | "length (waiting x) = ring_room (x_ring x)" by linarith
  then show ?thesis
    using True that(1,2) assms
    by cases (auto simp: tarantool_message_handle_def enqueue_retry_eq ring_enq_eq)
next
  case False
  have base: "x = x\<lparr>x_transaction_owner := x_transaction_owner x, x_world := x_world x\<rparr>" by simp
  show ?thesis
  proof (cases "tm_type m")
    case TARANTOOL_MESSAGE_CALL
    then show ?thesis
      using False handle_call_keeps[of env m "x_world x"]
      by (intro that(4)[of "fst (tarantool_message_handle_call env m (x_world x))"
            "snd (tarantool_message_handle_call env m (x_world x))" "x_transaction_owner x"])
        (auto simp: tarantool_message_handle_def split: prod.splits)
  next
    case TARANTOOL_MESSAGE_BATCH
    then show ?thesis
      using False handle_batch_keeps[of env m "x_world x"]
      by (intro that(4)[of "fst (tarantool_message_handle_batch env m (x_world x))"
            "snd (tarantool_message_handle_batch env m (x_world x))" "x_transaction_owner x"])
        (auto simp: tarantool_message_handle_def split: prod.splits)
  next
    case TARANTOOL_MESSAGE_STOP
    then show ?thesis using False by (intro that(3)) (auto simp: tarantool_message_handle_def)
  next
    case TARANTOOL_MESSAGE_BEGIN
    then show ?thesis
      using False by (intro that(4)[of m "tarantool_begin env (x_world x)" "tm_owner m"]) (auto simp: tarantool_message_handle_def)
  next
    case TARANTOOL_MESSAGE_COMMIT
    then show ?thesis
      using False by (intro that(4)[of m "tarantool_commit env (x_world x)" "x_transaction_owner x"])
        (auto simp: tarantool_message_handle_def)
  next
    case TARANTOOL_MESSAGE_ROLLBACK
    then show ?thesis
      using False by (intro that(4)[of m "tarantool_rollback env (x_world x)" "x_transaction_owner x"])
        (auto simp: tarantool_message_handle_def)
  qed
qed


text \<open>The requests a session holds: those it has answered, the one in hand, then those that wait.\<close>

abbreviation in_hand :: "('f, 'v, 'w) session \<Rightarrow> ('f, 'v) tarantool_message_t list" where
  "in_hand s \<equiv> (case ss_hand s of None \<Rightarrow> [] | Some m \<Rightarrow> [m])"

definition held :: "('f, 'v, 'w) session \<Rightarrow> nat list" where
  "held s = requests (x_posts (ss_executor s) @ in_hand s @ waiting (ss_executor s))"

lemma handle_keeps:
  assumes "executor_ok x"
  shows "executor_ok (tarantool_message_handle env m x)"
    and "ring_room (x_ring (tarantool_message_handle env m x)) = ring_room (x_ring x)"
    and "x_active (tarantool_message_handle env m x) = x_active x"
  using assms rq.enq_ok[of "x_ring x" m]
  by (cases rule: handle_cases[OF assms, of env m]; simp add: dart_post_pointer_def)+

lemma handle_held:
  assumes "executor_ok x"
  shows "mset (requests (x_posts (tarantool_message_handle env m x) @ waiting (tarantool_message_handle env m x))) =
    mset (requests (x_posts x @ waiting x)) + mset (requests [m])"
  using assms rq.enq_contents[of "x_ring x" m]
  by (cases rule: handle_cases[OF assms, of env m]) (simp_all add: dart_post_pointer_def)

text \<open>A message is let through unless a transaction of another owner is open.\<close>

definition admitted :: "('f, 'v, 'w) box_env \<Rightarrow> ('f, 'v, 'w) executor \<Rightarrow> ('f, 'v) tarantool_message_t \<Rightarrow> bool" where
  "admitted env x m \<longleftrightarrow> \<not> (in_txn env (x_world x) \<and> tm_owner m \<noteq> x_transaction_owner x)"

lemma handle_admitted:
  assumes "executor_ok x" and "admitted env x m"
  shows "waiting (tarantool_message_handle env m x) = waiting x"
    and "requests (x_posts (tarantool_message_handle env m x)) = requests (x_posts x) @ requests [m]"
  using assms(2) by (cases rule: handle_cases[OF assms(1), of env m]; simp add: admitted_def dart_post_pointer_def)+

lemma handle_admitted_ring:
  "admitted env x m \<Longrightarrow> tarantool_message_handle env m (x\<lparr>x_ring := r\<rparr>) = (tarantool_message_handle env m x)\<lparr>x_ring := r\<rparr>"
  by (cases "tm_type m") (auto simp: admitted_def tarantool_message_handle_def dart_post_pointer_def split: prod.split)

lemma ring_deq_cases:
  assumes "ring_state_ok s"
  obtains (empty) s' where "ring_queue s = []" "ring_deq s = (None, s')" "ring_queue s' = []" "ring_state_ok s'" "ring_room s' = ring_room s"
  | (front) m s' where "ring_queue s = m # ring_queue s'" "ring_deq s = (Some m, s')" "ring_state_ok s'" "ring_room s' = ring_room s"
  using assms rq.deq_ok[OF assms] rq.deq_result[OF assms] rq.deq_contents[OF assms]
  by (cases "ring_queue s"; cases "ring_deq s") auto

subsection \<open>What a step does\<close>

lemma loop_turn_empty:
  assumes "ss_phase s = Loop_Running \<or> ss_phase s = Loop_Draining" and "ss_hand s = None"
    and "ring_deq (x_ring (ss_executor s)) = (None, r)" and "loop_turn cfg env s = Some s'"
  shows "\<exists>c ph. s' = s\<lparr>ss_counters := c, ss_phase := ph, ss_executor := (ss_executor s)\<lparr>x_ring := r\<rparr>\<rparr> \<and>
    (ss_phase s = Loop_Running \<and> ph = Loop_Running \<or> ss_phase s = Loop_Draining \<and> ph = Loop_Emptied)"
proof (cases "ss_phase s = Loop_Draining")
  case True
  then show ?thesis
    using assms by (intro exI[of _ "ss_counters s"] exI[of _ Loop_Emptied]) (simp add: loop_turn_def)
next
  case False
  then have run: "ss_phase s = Loop_Running" using assms(1) by simp
  show ?thesis
  proof (cases "in_txn env (x_world (ss_executor s))")
    case True
    then have "s' = s\<lparr>ss_executor := (ss_executor s)\<lparr>x_ring := r\<rparr>\<rparr>"
      using assms run by (simp add: loop_turn_def Let_def)
    then show ?thesis
      using run by (intro exI[of _ "ss_counters s"] exI[of _ "ss_phase s"]) simp
  next
    case False
    then have "map_option (\<lambda>(sleep, c). s\<lparr>ss_executor := (ss_executor s)\<lparr>x_ring := r\<rparr>, ss_counters := c\<rparr>)
        (idle_turn cfg (ss_counters s)) = Some s'"
      using assms run by (simp add: loop_turn_def Let_def)
    then obtain sleep c where "s' = s\<lparr>ss_executor := (ss_executor s)\<lparr>x_ring := r\<rparr>, ss_counters := c\<rparr>" by auto
    then show ?thesis using run by (intro exI[of _ c] exI[of _ "ss_phase s"]) simp
  qed
qed

lemma turn_cases:
  assumes "executor_ok (ss_executor s)" and "loop_turn cfg env s = Some s'"
  obtains (idle) r c ph where "ss_hand s = None" "waiting (ss_executor s) = []" "ring_queue r = []" "ring_state_ok r"
      "s' = s\<lparr>ss_counters := c, ss_phase := ph, ss_executor := (ss_executor s)\<lparr>x_ring := r\<rparr>\<rparr>"
      "ss_phase s = Loop_Running \<and> ph = Loop_Running \<or> ss_phase s = Loop_Draining \<and> ph = Loop_Emptied"
  | (over) "ss_phase s = Loop_Emptied \<or> ss_phase s = Loop_Over" "s' = s\<lparr>ss_phase := Loop_Over\<rparr>"
  | (take) m r c where "ss_phase s = Loop_Running \<or> ss_phase s = Loop_Draining" "ss_hand s = None"
      "waiting (ss_executor s) = m # ring_queue r" "ring_state_ok r" "ring_room r = ring_room (x_ring (ss_executor s))"
      "s' = s\<lparr>ss_counters := c, ss_hand := Some m, ss_executor := (ss_executor s)\<lparr>x_ring := r\<rparr>\<rparr>"
  | (stop) m r c where "ss_phase s = Loop_Running" "ss_hand s = None" "tm_type m = TARANTOOL_MESSAGE_STOP"
      "waiting (ss_executor s) = m # ring_queue r" "ring_state_ok r" "ring_room r = ring_room (x_ring (ss_executor s))"
      "s' = s\<lparr>ss_counters := c, ss_phase := Loop_Draining, ss_executor := (ss_executor s)\<lparr>x_ring := r, x_active := False\<rparr>\<rparr>"
  | (handle) m where "ss_phase s = Loop_Running \<or> ss_phase s = Loop_Draining" "ss_hand s = Some m"
      "s' = s\<lparr>ss_hand := None, ss_executor := tarantool_message_handle env m (ss_executor s)\<rparr>"
proof -
  show thesis
  proof (cases "ss_phase s = Loop_Emptied \<or> ss_phase s = Loop_Over")
    case True
    have "s' = s\<lparr>ss_phase := Loop_Over\<rparr>"
      using True assms(2) by (cases s) (auto simp: loop_turn_def Let_def)
    then show ?thesis by (rule over[OF True])
  next
    case False
    then have ph: "ss_phase s = Loop_Running \<or> ss_phase s = Loop_Draining" by (cases "ss_phase s") auto
    show ?thesis
    proof (cases "ss_hand s")
      case (Some m)
      then show ?thesis using handle[OF ph Some] ph assms(2) by (auto simp: loop_turn_def Let_def)
    next
      case None
      from assms(1) show ?thesis
      proof (cases rule: ring_deq_cases)
        case (empty r)
        from loop_turn_empty[OF ph None empty(2) assms(2)]
        show ?thesis using idle[OF None empty(1,3,4)] by blast
      next
        case (front m r)
        show ?thesis
        proof (cases "ss_phase s = Loop_Running \<and> tm_type m = TARANTOOL_MESSAGE_STOP")
          case True
          then show ?thesis using stop[of m r "idle_start cfg"] None front assms(2) by (simp add: loop_turn_def Let_def)
        next
          case False
          then have "\<exists>c. s' = s\<lparr>ss_counters := c, ss_hand := Some m, ss_executor := (ss_executor s)\<lparr>x_ring := r\<rparr>\<rparr>"
            using ph None front assms(2)
            by (intro exI[of _ "if ss_phase s = Loop_Running then idle_start cfg else ss_counters s"]) (auto simp: loop_turn_def Let_def)
          then show ?thesis using take[OF ph None front(1,3,4)] by blast
        qed
      qed
    qed
  qed
qed

lemma attempt_cases:
  assumes "executor_ok x" and "tarantool_send_message_attempt spurious m attempts x = (res, x')"
  obtains (sent) r where "res = Sent" "x' = x\<lparr>x_ring := r\<rparr>" "ring_state_ok r" "ring_queue r = waiting x @ [m]"
      "ring_room r = ring_room (x_ring x)"
  | (refused) "res \<noteq> Sent" "x' = x"
proof (cases "spurious \<or> \<not> length (waiting x) < ring_room (x_ring x)")
  case True
  then show ?thesis
    using refused assms by (auto simp: tarantool_send_message_attempt_def ring_enq_eq split: if_splits)
next
  case False
  then show ?thesis
    using sent[of "snd (ring_enq m (x_ring x))"] assms rq.enq_ok[OF assms(1), of m] rq.enq_contents[OF assms(1), of m]
    by (auto simp: tarantool_send_message_attempt_def ring_enq_eq)
qed

lemma stop_request:
  assumes "executor_ok x"
  shows "\<exists>r. tarantool_message_loop_stop fresh x = x\<lparr>x_ring := r\<rparr> \<and> ring_state_ok r \<and> ring_room r = ring_room (x_ring x) \<and>
    requests (ring_queue r) = requests (waiting x) \<and> set (ring_queue r) \<subseteq> set (waiting x) \<union> {fresh\<lparr>tm_type := TARANTOOL_MESSAGE_STOP\<rparr>}"
  using assms rq.enq_ok[of "x_ring x" "fresh\<lparr>tm_type := TARANTOOL_MESSAGE_STOP\<rparr>"]
    rq.enq_contents[of "x_ring x" "fresh\<lparr>tm_type := TARANTOOL_MESSAGE_STOP\<rparr>"]
  by (intro exI[of _ "snd (ring_enq (fresh\<lparr>tm_type := TARANTOOL_MESSAGE_STOP\<rparr>) (x_ring x))"])
    (auto simp: tarantool_message_loop_stop_def)

text \<open>Every step, by what it does to the executor and to what the senders hold.\<close>

lemma exec_cases:
  assumes "executor_ok (ss_executor s)" and "session_exec cfg env op s = Some s'"
  obtains (enter) i sender h m where "op = OpSend i h m" "s' = s\<lparr>ss_senders := (ss_senders s)(i := sender)\<rparr>"
      "\<And>m' n'. sender = Some (m', n') \<Longrightarrow> (\<exists>n. ss_senders s i = Some (m', n)) \<or> m' = m\<lparr>tm_callback_handle := h\<rparr>"
  | (send) i sp m n r where "op = OpAttempt i sp" "ss_senders s i = Some (m, n)" "ss_phase s \<noteq> Loop_Over"
      "ring_state_ok r" "ring_queue r = waiting (ss_executor s) @ [m]"
      "s' = s\<lparr>ss_executor := (ss_executor s)\<lparr>x_ring := r\<rparr>, ss_senders := (ss_senders s)(i := None), ss_accepted := ss_accepted s @ [m],
          ss_late := ss_late s @ (if ss_phase s = Loop_Emptied then [m] else [])\<rparr>"
  | (no_send) i sp sender where "op = OpAttempt i sp" "s' = s\<lparr>ss_senders := (ss_senders s)(i := sender)\<rparr>"
      "\<And>m' n'. sender = Some (m', n') \<Longrightarrow> \<exists>n. ss_senders s i = Some (m', n)"
  | (stop) fresh r where "op = OpStop fresh" "ss_phase s \<noteq> Loop_Over" "ring_state_ok r"
      "requests (ring_queue r) = requests (waiting (ss_executor s))"
      "set (ring_queue r) \<subseteq> set (waiting (ss_executor s)) \<union> {fresh\<lparr>tm_type := TARANTOOL_MESSAGE_STOP\<rparr>}"
      "s' = s\<lparr>ss_executor := (ss_executor s)\<lparr>x_ring := r\<rparr>\<rparr>"
  | (turn) "op = OpTurn" "loop_turn cfg env s = Some s'"
proof (cases op)
  case (OpSend i h m)
  have id: "s = s\<lparr>ss_senders := (ss_senders s)(i := ss_senders s i)\<rparr>" by simp
  show ?thesis
  proof (cases "ss_senders s i")
    case None
    then show ?thesis
      using enter[OF OpSend, of "tarantool_send_message_enter h m (ss_executor s)"] OpSend assms(2)
      by (simp add: tarantool_send_message_enter_def split: if_split_asm)
  next
    case (Some a)
    then have "s' = s" using OpSend assms(2) by simp
    then show ?thesis using enter[OF OpSend, of "ss_senders s i"] id by simp
  qed
next
  case (OpAttempt i sp)
  have id: "s = s\<lparr>ss_senders := (ss_senders s)(i := ss_senders s i)\<rparr>" by simp
  show ?thesis
  proof (cases "ss_senders s i")
    case None
    then have "s' = s" using OpAttempt assms(2) by simp
    then show ?thesis using no_send[OF OpAttempt, of "ss_senders s i"] id by simp
  next
    case (Some a)
    then obtain m n where a: "ss_senders s i = Some (m, n)" by (cases a) auto
    then have ph: "ss_phase s \<noteq> Loop_Over" using assms(2) OpAttempt by auto
    obtain res x' where res: "tarantool_send_message_attempt sp m n (ss_executor s) = (res, x')" by fastforce
    from assms(1) res show ?thesis
    proof (cases rule: attempt_cases)
      case (sent r)
      then show ?thesis using send[OF OpAttempt a ph sent(3,4)] OpAttempt assms(2) a ph res by simp
    next
      case refused
      then show ?thesis
        using no_send[OF OpAttempt, of None] no_send[OF OpAttempt, of "Some (m, k)" for k] OpAttempt assms(2) a ph res
        by (cases res) auto
    qed
  qed
next
  case (OpStop fresh)
  then show ?thesis using stop[OF OpStop] stop_request[OF assms(1), of fresh] assms(2) by (auto split: if_split_asm)
next
  case OpTurn
  then show ?thesis using turn assms(2) by simp
qed

subsection \<open>The invariant of a session\<close>

definition session_ok :: "('f, 'v, 'w) session \<Rightarrow> bool" where
  "session_ok s \<longleftrightarrow> executor_ok (ss_executor s) \<and>
     (if ss_phase s = Loop_Running \<or> ss_phase s = Loop_Draining then ss_late s = []
      else ss_hand s = None \<and> requests (waiting (ss_executor s)) = requests (ss_late s)) \<and>
     (x_active (ss_executor s) \<longleftrightarrow> ss_phase s = Loop_Running)"

lemma turn_ok:
  assumes "session_ok s" and "loop_turn cfg env s = Some s'"
  shows "session_ok s'" and "mset (held s') = mset (held s)" and "ss_accepted s' = ss_accepted s"
proof -
  have ok: "executor_ok (ss_executor s)" using assms(1) by (simp add: session_ok_def)
  from ok assms(2) show "session_ok s'"
    by (cases rule: turn_cases)
      (use assms(1) handle_keeps[OF ok, of env] in \<open>auto simp: session_ok_def split: if_splits\<close>)
  from ok assms(2) show "mset (held s') = mset (held s)"
    by (cases rule: turn_cases) (use handle_held[OF ok, of env] in \<open>auto simp: held_def\<close>)
  from ok assms(2) show "ss_accepted s' = ss_accepted s"
    by (cases rule: turn_cases) auto
qed

lemma session_step:
  assumes "session_exec cfg env op s = Some s'" and "session_ok s"
  shows "session_ok s' \<and>
    (mset (requests (ss_accepted s)) = mset (held s) \<longrightarrow> mset (requests (ss_accepted s')) = mset (held s'))"
proof -
  have ok: "executor_ok (ss_executor s)" using assms(2) by (simp add: session_ok_def)
  from ok assms(1) show ?thesis
  proof (cases rule: exec_cases)
    case turn
    then show ?thesis using turn_ok[OF assms(2)] by simp
  next
    case (send i sp m n r)
    then show ?thesis using assms(2) by (cases "ss_phase s") (auto simp: session_ok_def held_def split: if_splits)
  qed (use assms(2) in \<open>auto simp: session_ok_def held_def split: if_splits\<close>)
qed

lemma session_run_ok:
  "session_run cfg env ops s = Some s' \<Longrightarrow> session_ok s \<Longrightarrow> mset (requests (ss_accepted s)) = mset (held s) \<Longrightarrow>
   session_ok s' \<and> mset (requests (ss_accepted s')) = mset (held s')"
  by (induction ops arbitrary: s) (auto simp: bind_eq_Some_conv dest: session_step)

subsection \<open>What can go wrong\<close>

text \<open>A step into the freed buffer, and a turn whose idle counter overflows.\<close>

fun freed_access :: "('f, 'v) exec_op \<Rightarrow> ('f, 'v, 'w) session \<Rightarrow> bool" where
  "freed_access (OpAttempt i spurious) s \<longleftrightarrow> ss_phase s = Loop_Over \<and> ss_senders s i \<noteq> None"
| "freed_access (OpStop fresh) s \<longleftrightarrow> ss_phase s = Loop_Over"
| "freed_access _ s \<longleftrightarrow> False"

definition idle_overflow :: "loop_configuration \<Rightarrow> ('f, 'v, 'w) box_env \<Rightarrow> ('f, 'v) exec_op \<Rightarrow> ('f, 'v, 'w) session \<Rightarrow> bool" where
  "idle_overflow cfg env op s \<longleftrightarrow> op = OpTurn \<and> ss_phase s = Loop_Running \<and> ss_hand s = None \<and>
     waiting (ss_executor s) = [] \<and> \<not> in_txn env (x_world (ss_executor s)) \<and> idle_turn cfg (ss_counters s) = None"

lemma session_exec_None:
  assumes "session_ok s"
  shows "session_exec cfg env op s = None \<longleftrightarrow> freed_access op s \<or> idle_overflow cfg env op s"
proof (cases op)
  case (OpSend i h m)
  then show ?thesis by (simp add: idle_overflow_def)
next
  case (OpAttempt i sp)
  then show ?thesis
    by (auto simp: idle_overflow_def split: option.splits prod.splits send_result.splits)
next
  case (OpStop fresh)
  then show ?thesis by (simp add: idle_overflow_def)
next
  case OpTurn
  have "executor_ok (ss_executor s)" using assms by (simp add: session_ok_def)
  then show ?thesis
    by (cases rule: ring_deq_cases; cases "ss_phase s"; cases "ss_hand s")
      (auto simp: OpTurn idle_overflow_def loop_turn_def Let_def)
qed

subsection \<open>Order\<close>

text \<open>A run in which no message has to be held back for a transaction of another owner.\<close>

definition unhindered :: "('f, 'v, 'w) box_env \<Rightarrow> ('f, 'v) exec_op \<Rightarrow> ('f, 'v, 'w) session \<Rightarrow> bool" where
  "unhindered env op s \<longleftrightarrow> (op = OpTurn \<longrightarrow> list_all (admitted env (ss_executor s)) (in_hand s))"

fun unhindered_run ::
    "loop_configuration \<Rightarrow> ('f, 'v, 'w) box_env \<Rightarrow> ('f, 'v) exec_op list \<Rightarrow> ('f, 'v, 'w) session \<Rightarrow> bool" where
  "unhindered_run cfg env [] s = True"
| "unhindered_run cfg env (op # ops) s =
     (unhindered env op s \<and> (case session_exec cfg env op s of None \<Rightarrow> True | Some s' \<Rightarrow> unhindered_run cfg env ops s'))"

lemma session_step_order:
  assumes "session_exec cfg env op s = Some s'" and "session_ok s" and "unhindered env op s"
    and "requests (ss_accepted s) = held s"
  shows "requests (ss_accepted s') = held s'"
proof -
  have ok: "executor_ok (ss_executor s)" using assms(2) by (simp add: session_ok_def)
  from ok assms(1) show ?thesis
  proof (cases rule: exec_cases)
    case (send i sp m n r)
    then show ?thesis using assms(2,4) by (auto simp: session_ok_def held_def split: if_splits)
  next
    case turn
    from ok turn(2) show ?thesis
      by (cases rule: turn_cases)
        (use assms(3,4) turn(1) handle_admitted[OF ok, of env] in \<open>auto simp: held_def unhindered_def\<close>)
  qed (use assms(4) in \<open>auto simp: held_def\<close>)
qed

lemma session_run_order:
  "session_run cfg env ops s = Some s' \<Longrightarrow> session_ok s \<Longrightarrow> unhindered_run cfg env ops s \<Longrightarrow>
   requests (ss_accepted s) = held s \<Longrightarrow> requests (ss_accepted s') = held s'"
proof (induction ops arbitrary: s)
  case (Cons op ops)
  from Cons.prems(1) obtain t where t: "session_exec cfg env op s = Some t" "session_run cfg env ops t = Some s'"
    by (auto simp: bind_eq_Some_conv)
  then show ?case
    using Cons.IH[OF t(2)] Cons.prems session_step[OF t(1)] session_step_order[OF t(1)] by simp
qed simp

subsection \<open>An open transaction\<close>

text \<open>The messages that an open transaction of another owner holds back; a stop message does nothing.\<close>

definition outsider :: "u32 \<Rightarrow> ('f, 'v) tarantool_message_t \<Rightarrow> bool" where
  "outsider ow m \<longleftrightarrow> tm_owner m \<noteq> ow \<or> tm_type m = TARANTOOL_MESSAGE_STOP"

definition refusal :: "('f, 'v) tarantool_message_t \<Rightarrow> bool" where
  "refusal m \<longleftrightarrow> tm_error m = Some MESSAGE_SEND_ERROR \<and> tm_error_type m = TARANTOOL_ERROR_LIMIT"

text \<open>Everything on its way to the executor is of other owners: in the ring, in hand, and with the senders.\<close>

definition only_outsiders :: "u32 \<Rightarrow> ('f, 'v, 'w) session \<Rightarrow> bool" where
  "only_outsiders ow s \<longleftrightarrow> (\<forall>m\<in>set (ring_queue (x_ring (ss_executor s))). outsider ow m) \<and>
     (\<forall>m. ss_hand s = Some m \<longrightarrow> outsider ow m) \<and> (\<forall>i m n. ss_senders s i = Some (m, n) \<longrightarrow> outsider ow m)"

fun outsider_op :: "u32 \<Rightarrow> ('f, 'v) exec_op \<Rightarrow> bool" where
  "outsider_op ow (OpSend i h m) \<longleftrightarrow> tm_owner m \<noteq> ow"
| "outsider_op ow _ \<longleftrightarrow> True"

definition locked :: "('f, 'v, 'w) session \<Rightarrow> ('f, 'v, 'w) session \<Rightarrow> bool" where
  "locked s s' \<longleftrightarrow> x_world (ss_executor s') = x_world (ss_executor s) \<and>
     x_transaction_owner (ss_executor s') = x_transaction_owner (ss_executor s) \<and>
     only_outsiders (x_transaction_owner (ss_executor s)) s' \<and>
     (\<exists>ms. x_posts (ss_executor s') = x_posts (ss_executor s) @ ms \<and> list_all refusal ms)"

lemma locked_refl: "only_outsiders (x_transaction_owner (ss_executor s)) s \<Longrightarrow> locked s s"
  by (simp add: locked_def)

lemma locked_trans:
  assumes "locked s t" and "locked t u"
  shows "locked s u"
proof -
  obtain ms ms' where "x_posts (ss_executor t) = x_posts (ss_executor s) @ ms" "list_all refusal ms"
    "x_posts (ss_executor u) = x_posts (ss_executor t) @ ms'" "list_all refusal ms'"
    using assms unfolding locked_def by blast
  then have "x_posts (ss_executor u) = x_posts (ss_executor s) @ (ms @ ms') \<and> list_all refusal (ms @ ms')" by simp
  then show ?thesis using assms unfolding locked_def by simp
qed

lemma handle_outsider:
  assumes "executor_ok x" and "in_txn env (x_world x)" and "outsider (x_transaction_owner x) m"
  shows "x_world (tarantool_message_handle env m x) = x_world x \<and>
    x_transaction_owner (tarantool_message_handle env m x) = x_transaction_owner x \<and>
    set (waiting (tarantool_message_handle env m x)) \<subseteq> insert m (set (waiting x)) \<and>
    (\<exists>ms. x_posts (tarantool_message_handle env m x) = x_posts x @ ms \<and> list_all refusal ms)"
  using assms rq.enq_contents[of "x_ring x" m]
  by (cases rule: handle_cases[OF assms(1), of env m])
    (auto simp: outsider_def refusal_def dart_post_pointer_def)

lemma turn_outsiders:
  assumes "session_ok s" and "loop_turn cfg env s = Some s'" and "in_txn env (x_world (ss_executor s))"
    and "only_outsiders (x_transaction_owner (ss_executor s)) s"
  shows "locked s s'"
proof -
  have ok: "executor_ok (ss_executor s)" using assms(1) by (simp add: session_ok_def)
  from ok assms(2) show ?thesis
  proof (cases rule: turn_cases)
    case (handle m)
    then have "outsider (x_transaction_owner (ss_executor s)) m" using assms(4) by (simp add: only_outsiders_def)
    note h = this handle_outsider[OF ok assms(3) this]
    have "\<forall>m'\<in>set (waiting (tarantool_message_handle env m (ss_executor s))). outsider (x_transaction_owner (ss_executor s)) m'"
      using h assms(4) unfolding only_outsiders_def by blast
    with h handle(3) show ?thesis
      using assms(4) by (simp add: locked_def only_outsiders_def)
  qed (use assms(4) in \<open>auto simp: locked_def only_outsiders_def\<close>)
qed

lemma session_step_outsiders:
  assumes "session_exec cfg env op s = Some s'" and "session_ok s" and "in_txn env (x_world (ss_executor s))"
    and "only_outsiders (x_transaction_owner (ss_executor s)) s" and "outsider_op (x_transaction_owner (ss_executor s)) op"
  shows "locked s s'"
proof -
  have ok: "executor_ok (ss_executor s)" using assms(2) by (simp add: session_ok_def)
  from ok assms(1) show ?thesis
  proof (cases rule: exec_cases)
    case (enter i sender h m)
    have "outsider (x_transaction_owner (ss_executor s)) m'" if "sender = Some (m', n)" for m' n
      using enter(3)[OF that]
    proof
      assume "\<exists>n. ss_senders s i = Some (m', n)"
      then show ?thesis using assms(4) unfolding only_outsiders_def by blast
    qed (use assms(5) enter(1) in \<open>simp add: outsider_def\<close>)
    then show ?thesis using enter(2) assms(4) by (auto simp: locked_def only_outsiders_def)
  next
    case (send i sp m n r)
    have "outsider (x_transaction_owner (ss_executor s)) m"
      using send(2) assms(4) unfolding only_outsiders_def by blast
    then have "\<forall>m'\<in>set (ring_queue r). outsider (x_transaction_owner (ss_executor s)) m'"
      using assms(4) unfolding send(5) only_outsiders_def by simp
    then show ?thesis using assms(4) unfolding send(6) locked_def only_outsiders_def by simp
  next
    case (no_send i sp sender)
    have "outsider (x_transaction_owner (ss_executor s)) m'" if "sender = Some (m', n)" for m' n
      using no_send(3)[OF that] assms(4) unfolding only_outsiders_def by blast
    then show ?thesis using no_send(2) assms(4) by (auto simp: locked_def only_outsiders_def)
  next
    case (stop fresh r)
    have "outsider ow (fresh\<lparr>tm_type := TARANTOOL_MESSAGE_STOP\<rparr>)" for ow by (simp add: outsider_def)
    then have "\<forall>m'\<in>set (ring_queue r). outsider (x_transaction_owner (ss_executor s)) m'"
      using stop(5) assms(4) unfolding only_outsiders_def by blast
    then show ?thesis using assms(4) unfolding stop(6) locked_def only_outsiders_def by simp
  next
    case turn
    then show ?thesis using turn_outsiders[OF assms(2) _ assms(3,4)] by blast
  qed
qed

lemma session_run_outsiders:
  "session_run cfg env ops s = Some s' \<Longrightarrow> session_ok s \<Longrightarrow> in_txn env (x_world (ss_executor s)) \<Longrightarrow>
   only_outsiders (x_transaction_owner (ss_executor s)) s \<Longrightarrow>
   \<forall>op\<in>set ops. outsider_op (x_transaction_owner (ss_executor s)) op \<Longrightarrow> locked s s' \<and> session_ok s'"
proof (induction ops arbitrary: s)
  case (Cons op ops)
  from Cons.prems(1) obtain t where t: "session_exec cfg env op s = Some t" "session_run cfg env ops t = Some s'"
    by (auto simp: bind_eq_Some_conv)
  have st: "locked s t" using session_step_outsiders[OF t(1)] Cons.prems by simp
  have "session_ok t" using session_step[OF t(1)] Cons.prems by simp
  then have "locked t s' \<and> session_ok s'"
    using Cons.IH[OF t(2)] Cons.prems st by (simp add: locked_def)
  then show ?case using locked_trans[OF st] by blast
qed (simp add: locked_refl)

text \<open>The message in hand left a free slot, so holding it back never fails.\<close>

lemma handle_outsider_defers:
  assumes "ring_state_ok s" and "waiting x = m # ring_queue s" and "ring_room s = ring_room (x_ring x)" and "executor_ok x"
    and "in_txn env (x_world x)" and "tm_owner m \<noteq> x_transaction_owner x"
  shows "tarantool_message_handle env m (x\<lparr>x_ring := s\<rparr>) = x\<lparr>x_ring := snd (ring_enq m s)\<rparr> \<and>
    ring_queue (snd (ring_enq m s)) = ring_queue s @ [m]"
proof -
  have "length (waiting x) \<le> ring_room (x_ring x)"
    using assms(4) by (auto simp: ring_ok_def ring_room_def ring_contents_def)
  then have "length (ring_queue s) < ring_room s" using assms(2,3) by simp
  then show ?thesis
    using assms rq.enq_contents[OF assms(1), of m]
    by (auto simp: tarantool_message_handle_def enqueue_retry_eq ring_enq_eq)
qed

subsection \<open>The drain\<close>

text \<open>The messages meet no transaction of another owner when they are handled one after the other.\<close>

fun all_admitted :: "('f, 'v, 'w) box_env \<Rightarrow> ('f, 'v) tarantool_message_t list \<Rightarrow> ('f, 'v, 'w) executor \<Rightarrow> bool" where
  "all_admitted env [] x \<longleftrightarrow> True"
| "all_admitted env (m # ms) x \<longleftrightarrow> admitted env x m \<and> all_admitted env ms (tarantool_message_handle env m x)"

lemma all_admitted_ring: "all_admitted env ms (x\<lparr>x_ring := r\<rparr>) = all_admitted env ms x"
proof (induction ms arbitrary: x)
  case (Cons m ms)
  have a: "admitted env (x\<lparr>x_ring := r\<rparr>) m = admitted env x m" by (simp add: admitted_def)
  show ?case
  proof (cases "admitted env x m")
    case True
    then show ?thesis using a by (simp add: handle_admitted_ring Cons.IH)
  qed (use a in simp)
qed simp

lemma drain_ends:
  assumes "executor_ok x" and "length (waiting x) = n" and "all_admitted env (waiting x) x"
  shows "\<exists>x'. drain_loop (Suc n) env x = Some x' \<and> executor_ok x' \<and> waiting x' = [] \<and>
    requests (x_posts x') = requests (x_posts x) @ requests (waiting x) \<and>
    (\<forall>cfg s. ss_phase s = Loop_Draining \<longrightarrow> ss_hand s = None \<longrightarrow> ss_executor s = x \<longrightarrow>
       session_run cfg env (replicate (Suc (Suc (2 * n))) OpTurn) s = Some (s\<lparr>ss_phase := Loop_Over, ss_executor := x'\<rparr>))"
  using assms
proof (induction n arbitrary: x)
  case 0
  from 0(1) show ?case
  proof (cases rule: ring_deq_cases)
    case (empty r)
    then show ?thesis by (intro exI[of _ "x\<lparr>x_ring := r\<rparr>"]) (simp add: loop_turn_def)
  qed (use 0 in simp)
next
  case (Suc n)
  from Suc.prems(1) show ?case
  proof (cases rule: ring_deq_cases)
    case (front m r)
    let ?x = "x\<lparr>x_ring := r\<rparr>"
    let ?y = "tarantool_message_handle env m ?x"
    have x: "executor_ok ?x" "admitted env ?x m"
      using front Suc.prems(3) by (simp_all add: admitted_def)
    have y: "executor_ok ?y" "waiting ?y = ring_queue r" "requests (x_posts ?y) = requests (x_posts x) @ requests [m]"
      using handle_keeps(1)[OF x(1)] handle_admitted[OF x] by simp_all
    have "all_admitted env (waiting ?y) ?y"
      using Suc.prems(3) front(1) y(2) handle_admitted_ring[of env x m r] by (simp add: all_admitted_ring)
    then obtain x' where x': "drain_loop (Suc n) env ?y = Some x'" "executor_ok x'" "waiting x' = []"
      "requests (x_posts x') = requests (x_posts ?y) @ requests (waiting ?y)"
      and run: "\<And>cfg s. ss_phase s = Loop_Draining \<Longrightarrow> ss_hand s = None \<Longrightarrow> ss_executor s = ?y \<Longrightarrow>
        session_run cfg env (replicate (Suc (Suc (2 * n))) OpTurn) s = Some (s\<lparr>ss_phase := Loop_Over, ss_executor := x'\<rparr>)"
      using Suc.IH[OF y(1)] y(2) front(1) Suc.prems(2) by auto
    have "session_run cfg env (replicate (Suc (Suc (2 * Suc n))) OpTurn) s = Some (s\<lparr>ss_phase := Loop_Over, ss_executor := x'\<rparr>)"
      if s: "ss_phase s = Loop_Draining" "ss_hand s = None" "ss_executor s = x" for cfg s
    proof -
      have "session_exec cfg env OpTurn s = Some (s\<lparr>ss_hand := Some m, ss_executor := ?x\<rparr>)"
        "session_exec cfg env OpTurn (s\<lparr>ss_hand := Some m, ss_executor := ?x\<rparr>) = Some (s\<lparr>ss_hand := None, ss_executor := ?y\<rparr>)"
        using s front by (simp_all add: loop_turn_def)
      moreover have "s\<lparr>ss_hand := None, ss_executor := ?y, ss_phase := Loop_Over\<rparr> = s\<lparr>ss_executor := ?y, ss_phase := Loop_Over\<rparr>"
        using s(2) by (cases s) simp
      ultimately show ?thesis
        using run[of "s\<lparr>ss_hand := None, ss_executor := ?y\<rparr>" cfg] s
        by (cases s) (simp del: session_exec.simps)
    qed
    then show ?thesis using x' y(2,3) front by (intro exI[of _ x']) simp
  qed (use Suc.prems in simp)
qed

subsection \<open>Idle turns\<close>

text \<open>Consecutive turns of the loop that find the ring empty.\<close>

fun idle_run :: "nat \<Rightarrow> loop_configuration \<Rightarrow> idle_counters \<Rightarrow> idle_counters option" where
  "idle_run 0 cfg c = Some c"
| "idle_run (Suc n) cfg c = idle_run n cfg c \<bind> (\<lambda>c. map_option snd (idle_turn cfg c))"

abbreviation backoff_limit :: "loop_configuration \<Rightarrow> int" where
  "backoff_limit cfg \<equiv> max (message_loop_initial_empty_cycles cfg)
     (message_loop_max_empty_cycles cfg * message_loop_empty_cycles_multiplier cfg)"

lemma idle_step:
  assumes "0 \<le> message_loop_empty_cycles_multiplier cfg" and "backoff_limit cfg \<le> INT_MAX"
    and "0 \<le> current_empty_cycles c" and "current_empty_cycles c < INT_MAX"
    and "0 \<le> current_empty_cycles_limit c" and "current_empty_cycles_limit c \<le> backoff_limit cfg"
  shows "succeeds (\<lambda>(sleep, c'). current_empty_cycles c' = current_empty_cycles c + 1 \<and>
      0 \<le> current_empty_cycles_limit c' \<and> current_empty_cycles_limit c' \<le> backoff_limit cfg \<and>
      (message_loop_max_empty_cycles cfg \<le> current_empty_cycles c + 1 \<longrightarrow> sleep = Some (message_loop_max_sleep_seconds cfg)))
    (idle_turn cfg c)"
proof -
  have "current_empty_cycles_limit c * message_loop_empty_cycles_multiplier cfg
      \<le> message_loop_max_empty_cycles cfg * message_loop_empty_cycles_multiplier cfg"
    if "current_empty_cycles_limit c \<le> current_empty_cycles c + 1" "current_empty_cycles c + 1 < message_loop_max_empty_cycles cfg"
    using assms(1) that by (intro mult_right_mono) auto
  moreover have "0 \<le> current_empty_cycles_limit c * message_loop_empty_cycles_multiplier cfg"
    using assms(1,5) by simp
  ultimately show ?thesis
    using assms c_int_nonneg[of "current_empty_cycles c + 1"]
      c_int_nonneg[of "current_empty_cycles_limit c * message_loop_empty_cycles_multiplier cfg"]
    by (auto simp: idle_turn_def Let_def)
qed

lemma idle_run_ok:
  assumes "0 \<le> message_loop_empty_cycles_multiplier cfg" and "backoff_limit cfg \<le> INT_MAX"
    and "0 \<le> message_loop_initial_empty_cycles cfg" and "int n \<le> INT_MAX"
  shows "succeeds (\<lambda>c. current_empty_cycles c = int n \<and> 0 \<le> current_empty_cycles_limit c \<and>
    current_empty_cycles_limit c \<le> backoff_limit cfg) (idle_run n cfg (idle_start cfg))"
  using assms(4)
proof (induction n)
  case (Suc n)
  have lt: "int n < INT_MAX" using Suc.prems by simp
  then have "succeeds (\<lambda>c. current_empty_cycles c = int n \<and> 0 \<le> current_empty_cycles_limit c \<and>
      current_empty_cycles_limit c \<le> backoff_limit cfg) (idle_run n cfg (idle_start cfg))" by (intro Suc.IH) simp
  then obtain c where c: "idle_run n cfg (idle_start cfg) = Some c" "current_empty_cycles c = int n"
      "0 \<le> current_empty_cycles_limit c" "current_empty_cycles_limit c \<le> backoff_limit cfg"
    by (auto elim: succeedsE)
  then obtain sleep c' where "idle_turn cfg c = Some (sleep, c')" "current_empty_cycles c' = int n + 1"
      "0 \<le> current_empty_cycles_limit c'" "current_empty_cycles_limit c' \<le> backoff_limit cfg"
    using idle_step[OF assms(1,2), of c] lt by (auto elim: succeedsE)
  then show ?case using c(1) by simp
qed (use assms(3) in \<open>simp add: idle_start_def\<close>)

lemma idle_run_overflow:
  assumes "0 \<le> message_loop_empty_cycles_multiplier cfg" and "backoff_limit cfg \<le> INT_MAX"
    and "0 \<le> message_loop_initial_empty_cycles cfg" and "INT_MAX < int n"
  shows "idle_run n cfg (idle_start cfg) = None"
  using assms(4)
proof (induction n)
  case (Suc n)
  show ?case
  proof (cases "INT_MAX < int n")
    case False
    then have "int n = INT_MAX" using Suc.prems by simp
    then obtain c where "idle_run n cfg (idle_start cfg) = Some c" "current_empty_cycles c = INT_MAX"
      using idle_run_ok[OF assms(1-3), of n] by (auto elim!: succeedsE)
    then show ?thesis by (simp add: idle_turn_def c_int_def)
  qed (use Suc.IH in simp)
qed (simp add: INT_MAX_def)

lemma ucast_pow_u64: "j < 32 \<Longrightarrow> ucast (2 ^ j :: u64) = (2 ^ j :: u32)"
  by (rule bit_word_eqI) (auto simp: bit_simps)

lemma session_start_ok:
  assumes "0 < j" and "j < 32" and "message_loop_ring_size cfg = 2 ^ j" and "length buffer = 2 ^ j"
  shows "session_ok (session_start cfg buffer w)" and "requests (ss_accepted (session_start cfg buffer w)) = []"
    and "held (session_start cfg buffer w) = []"
  using assms ring_init_ok[of j buffer] ucast_pow_u64[of j]
  by (simp_all add: session_start_def session_ok_def tarantool_message_loop_initialize_def held_def)

text \<open>A storage of the kind the executor serves: a transaction flag and a diagnostics area; its commits fail.\<close>

definition sample_env :: "(nat, nat, bool \<times> string option) box_env" where
  "sample_env = \<lparr>call_function = (\<lambda>f i w. (f + i, w)), in_txn = fst, tarantool_begin = (\<lambda>w. (True, snd w)),
     tarantool_commit = (\<lambda>w. (False, Some ''conflict'')), tarantool_rollback = (\<lambda>w. (False, snd w)),
     diag_last_error = snd, diag_clear = (\<lambda>w. (fst w, None))\<rparr>"

definition sample_config :: loop_configuration where
  "sample_config = \<lparr>message_loop_max_sleep_seconds = 1, message_loop_regular_sleep_seconds = 1 / 2,
     message_loop_max_empty_cycles = 1000, message_loop_empty_cycles_multiplier = 2, message_loop_initial_empty_cycles = 10,
     message_loop_ring_size = 4, message_loop_ring_retry_max_count = 3\<rparr>"

definition sample_message :: "tarantool_message_type \<Rightarrow> u32 \<Rightarrow> (nat, nat) tarantool_message_t" where
  "sample_message ty ow = \<lparr>tm_type = ty, tm_function = 1, tm_input = 2, tm_output = 0, tm_callback_send_port = 0,
     tm_callback_handle = 0, tm_batch = [], tm_error = None, tm_error_type = TARANTOOL_ERROR_LIMIT, tm_owner = ow\<rparr>"

abbreviation sample_buffer :: "(nat, nat) tarantool_message_t list" where
  "sample_buffer \<equiv> replicate 4 (sample_message TARANTOOL_MESSAGE_STOP 0)"

lemma sample_size:
  "0 < (2 :: nat)" "2 < (32 :: nat)" "message_loop_ring_size sample_config = 2 ^ 2" "length sample_buffer = 2 ^ 2"
  by (simp_all add: sample_config_def)

section \<open>Properties\<close>

text \<open>
  C7. Every accepted request is answered exactly once.  From a started loop, after any interleaving of the steps of
  senders, stop requests and the storage thread, the requests for which \<^verbatim>\<open>tarantool_send_message\<close> returned true are, as a
  multiset of callback handles, the ones posted back, the one in hand and the ones that wait in the ring.  Once the
  drain after a stop has found the ring empty, the requests that are not posted back are exactly the late ones, those
  whose sender had passed the test of \<^verbatim>\<open>active\<close> before the stop and enqueued after that last look.
  No step is undefined but an enqueue after the buffer was freed and the overflow of the idle counters.
\<close>

theorem executor_replies_exactly_once:
  assumes "0 < j" and "j < 32" and "message_loop_ring_size cfg = 2 ^ j" and "length buffer = 2 ^ j"
    and "session_run cfg env ops (session_start cfg buffer w) = Some s"
  shows "mset (requests (ss_accepted s)) = mset (requests (x_posts (ss_executor s))) + mset (requests (in_hand s)) +
      mset (requests (ring_queue (x_ring (ss_executor s)))) \<and>
    (ss_phase s = Loop_Emptied \<or> ss_phase s = Loop_Over \<longrightarrow>
      mset (requests (ss_accepted s)) = mset (requests (x_posts (ss_executor s))) + mset (requests (ss_late s))) \<and>
    (\<forall>op. session_exec cfg env op s = None \<longleftrightarrow> freed_access op s \<or> idle_overflow cfg env op s)"
proof -
  have ok: "session_ok s" and h: "mset (requests (ss_accepted s)) = mset (held s)"
    using session_run_ok[OF assms(5)] session_start_ok[OF assms(1-4), of w] by simp_all
  have "requests (in_hand s) = [] \<and> requests (waiting (ss_executor s)) = requests (ss_late s)"
    if "ss_phase s = Loop_Emptied \<or> ss_phase s = Loop_Over"
    using ok that by (auto simp: session_ok_def)
  then show ?thesis
    using h session_exec_None[OF ok, of cfg env] by (auto simp: held_def)
qed

abbreviation sample_run :: "(nat, nat, bool \<times> string option) session option" where
  "sample_run \<equiv> session_run sample_config sample_env
     [OpSend 0 7 (sample_message TARANTOOL_MESSAGE_CALL 1), OpAttempt 0 False,
      OpSend 1 8 (sample_message TARANTOOL_MESSAGE_BEGIN 1), OpAttempt 1 False, OpTurn, OpTurn, OpTurn, OpTurn,
      OpSend 0 9 (sample_message TARANTOOL_MESSAGE_CALL 2), OpAttempt 0 True, OpAttempt 0 False, OpTurn]
     (session_start sample_config sample_buffer (False, None))"

theorem executor_replies_exactly_once_witness:
  "\<exists>s. sample_run = Some s \<and> requests (ss_accepted s) = [7, 8, 9] \<and> requests (x_posts (ss_executor s)) = [7, 8] \<and>
     requests (in_hand s) @ requests (ring_queue (x_ring (ss_executor s))) = [9]"
proof -
  have "map_option (\<lambda>s. (requests (ss_accepted s), requests (x_posts (ss_executor s)))) sample_run = Some ([7, 8, 9], [7, 8])"
    by code_simp
  then obtain s where s: "sample_run = Some s" "requests (ss_accepted s) = [7, 8, 9]" "requests (x_posts (ss_executor s)) = [7, 8]"
    by auto
  have "mset (requests (ss_accepted s)) = mset (requests (x_posts (ss_executor s))) + mset (requests (in_hand s)) +
      mset (requests (ring_queue (x_ring (ss_executor s))))"
    using executor_replies_exactly_once[OF sample_size s(1)] by (rule conjunct1)
  then have "mset (requests (in_hand s) @ requests (ring_queue (x_ring (ss_executor s)))) = {#9#}"
    unfolding s(2,3) by simp
  then have "requests (in_hand s) @ requests (ring_queue (x_ring (ss_executor s))) = [9]"
    by (simp only: mset_single_iff)
  then show ?thesis using s by blast
qed

text \<open>
  C36. A request that loses the race with a stop is never answered.  Once the drain has found the ring empty, no further
  step of any thread posts anything, so the requests that are accepted late, with true as the result of
  \<^verbatim>\<open>tarantool_send_message\<close>, stay without an answer.
\<close>

theorem executor_late_request_lost:
  assumes "session_ok s" and "ss_phase s = Loop_Emptied \<or> ss_phase s = Loop_Over"
    and "session_run cfg env ops s = Some s'"
  shows "x_posts (ss_executor s') = x_posts (ss_executor s) \<and> prefix (ss_late s) (ss_late s') \<and>
    requests (ring_queue (x_ring (ss_executor s'))) = requests (ss_late s')"
proof -
  have step: "(ss_phase t' = Loop_Emptied \<or> ss_phase t' = Loop_Over) \<and> session_ok t' \<and>
      x_posts (ss_executor t') = x_posts (ss_executor t) \<and> prefix (ss_late t) (ss_late t')"
    if t: "session_exec cfg env op t = Some t'" "session_ok t" "ss_phase t = Loop_Emptied \<or> ss_phase t = Loop_Over" for op t t'
  proof -
    have ok: "executor_ok (ss_executor t)" using t(2) by (simp add: session_ok_def)
    have "(ss_phase t' = Loop_Emptied \<or> ss_phase t' = Loop_Over) \<and>
        x_posts (ss_executor t') = x_posts (ss_executor t) \<and> prefix (ss_late t) (ss_late t')"
      using ok t(1)
    proof (cases rule: exec_cases)
      case turn
      from ok turn(2) show ?thesis by (cases rule: turn_cases) (use t(3) in auto)
    qed (use t(3) in auto)
    then show ?thesis using session_step[OF t(1,2)] by blast
  qed
  have "x_posts (ss_executor s') = x_posts (ss_executor s) \<and> prefix (ss_late s) (ss_late s') \<and> session_ok s' \<and>
      (ss_phase s' = Loop_Emptied \<or> ss_phase s' = Loop_Over)"
    using assms
  proof (induction ops arbitrary: s)
    case (Cons op ops)
    from Cons.prems(3) obtain t where "session_exec cfg env op s = Some t" "session_run cfg env ops t = Some s'"
      by (auto simp: bind_eq_Some_conv)
    with step[OF this(1) Cons.prems(1,2)] Cons.IH[of t] show ?case
      by (auto intro: prefix_order.trans)
  qed simp
  then show ?thesis by (auto simp: session_ok_def)
qed

abbreviation late_run :: "(nat, nat, bool \<times> string option) session option" where
  "late_run \<equiv> session_run sample_config sample_env
     [OpSend 0 7 (sample_message TARANTOOL_MESSAGE_CALL 1), OpStop (sample_message TARANTOOL_MESSAGE_CALL 0),
      OpTurn, OpTurn, OpAttempt 0 False]
     (session_start sample_config sample_buffer (False, None))"

theorem executor_late_request_lost_witness:
  "\<exists>s s'. late_run = Some s \<and> requests (ss_accepted s) = [7] \<and> ss_phase s = Loop_Emptied \<and>
     session_run sample_config sample_env [OpTurn, OpTurn] s = Some s' \<and> ss_phase s' = Loop_Over \<and>
     x_posts (ss_executor s') = [] \<and> session_exec sample_config sample_env (OpStop (sample_message TARANTOOL_MESSAGE_CALL 0)) s' = None"
proof -
  let ?two = "\<lambda>s. session_run sample_config sample_env [OpTurn, OpTurn] s"
  have "map_option (\<lambda>s. (requests (ss_accepted s), ss_phase s, x_posts (ss_executor s))) late_run = Some ([7], Loop_Emptied, [])"
    "map_option ss_phase (late_run \<bind> ?two) = Some Loop_Over"
    by code_simp+
  then obtain s s' where s: "late_run = Some s" "requests (ss_accepted s) = [7]" "ss_phase s = Loop_Emptied"
      "x_posts (ss_executor s) = []" "?two s = Some s'" "ss_phase s' = Loop_Over"
    by (auto simp: bind_eq_Some_conv)
  have "session_ok s"
    using session_run_ok[OF s(1) session_start_ok(1)[OF sample_size]] unfolding session_start_ok(2,3)[OF sample_size] by simp
  then have "x_posts (ss_executor s') = []"
    using executor_late_request_lost[OF _ _ s(5)] s(3,4) by simp
  then show ?thesis using s by auto
qed

text \<open>
  C25. First in, first out.  As long as no message has to be held back, because no transaction of another owner is
  open when it is handled, the accepted requests, in the order in which they entered the ring, are the
  answered ones in the order of the answers, followed by the one in hand and by those that wait.
\<close>

theorem executor_fifo_outside_transactions:
  assumes "0 < j" and "j < 32" and "message_loop_ring_size cfg = 2 ^ j" and "length buffer = 2 ^ j"
    and "session_run cfg env ops (session_start cfg buffer w) = Some s"
    and "unhindered_run cfg env ops (session_start cfg buffer w)"
  shows "requests (ss_accepted s) =
    requests (x_posts (ss_executor s)) @ requests (in_hand s) @ requests (ring_queue (x_ring (ss_executor s)))"
  using session_run_order[OF assms(5) _ assms(6)] session_start_ok[OF assms(1-4), of w] by (simp add: held_def)

abbreviation fifo_ops :: "(nat, nat) exec_op list" where
  "fifo_ops \<equiv> [OpSend 0 7 (sample_message TARANTOOL_MESSAGE_BEGIN 1), OpAttempt 0 False, OpTurn, OpTurn,
      OpSend 0 8 (sample_message TARANTOOL_MESSAGE_ROLLBACK 1), OpAttempt 0 False,
      OpSend 1 9 (sample_message TARANTOOL_MESSAGE_CALL 2), OpAttempt 1 False, OpTurn, OpTurn]"

theorem executor_fifo_outside_transactions_witness:
  "map_option (\<lambda>s. requests (x_posts (ss_executor s)) @ requests (in_hand s) @ requests (ring_queue (x_ring (ss_executor s))))
     (session_run sample_config sample_env fifo_ops (session_start sample_config sample_buffer (False, None))) = Some [7, 8, 9]"
  (is "map_option _ ?run = _")
proof -
  have u: "unhindered_run sample_config sample_env fifo_ops (session_start sample_config sample_buffer (False, None))"
    by code_simp
  have "map_option (\<lambda>s. requests (ss_accepted s)) ?run = Some [7, 8, 9]" by code_simp
  then obtain s where s: "?run = Some s" "requests (ss_accepted s) = [7, 8, 9]" by auto
  show ?thesis
    unfolding s(1) using executor_fifo_outside_transactions[OF sample_size s(1) u] s(2) by simp
qed

text \<open>
  C12. An open transaction is isolated from other owners.  While a transaction is open and every message in the ring, in
  hand or with a sender is of another owner (or a stop), no interleaving of sends of other owners, stops and turns changes
  the storage or the owner of the transaction, and the only answers posted are refusals with \<^verbatim>\<open>TARANTOOL_ERROR_LIMIT\<close>.
  The only undefined step then is an enqueue into the freed buffer.
\<close>

theorem executor_transaction_isolation:
  assumes "session_ok s" and "in_txn env (x_world (ss_executor s))"
    and "only_outsiders (x_transaction_owner (ss_executor s)) s"
    and "\<forall>op\<in>set ops. outsider_op (x_transaction_owner (ss_executor s)) op"
    and "session_run cfg env ops s = Some s'"
  shows "x_world (ss_executor s') = x_world (ss_executor s) \<and>
    x_transaction_owner (ss_executor s') = x_transaction_owner (ss_executor s) \<and>
    (\<exists>ms. x_posts (ss_executor s') = x_posts (ss_executor s) @ ms \<and> list_all refusal ms) \<and>
    (\<forall>op. session_exec cfg env op s' = None \<longleftrightarrow> freed_access op s')"
proof -
  have l: "locked s s'" "session_ok s'" using session_run_outsiders[OF assms(5,1,2,3,4)] by simp_all
  then have "\<not> idle_overflow cfg env op s'" for op using assms(2) by (simp add: locked_def idle_overflow_def)
  then show ?thesis using l session_exec_None[OF l(2)] by (simp add: locked_def)
qed

abbreviation crowd :: "(nat, nat) exec_op list" where
  "crowd \<equiv> [OpSend 1 7 (sample_message TARANTOOL_MESSAGE_COMMIT 2), OpAttempt 1 False,
      OpSend 2 8 (sample_message TARANTOOL_MESSAGE_CALL 3), OpAttempt 2 False,
      OpSend 3 9 (sample_message TARANTOOL_MESSAGE_CALL 4), OpAttempt 3 False, OpTurn,
      OpSend 4 10 (sample_message TARANTOOL_MESSAGE_CALL 5), OpAttempt 4 False, OpTurn]"

theorem executor_transaction_isolation_witness:
  "map_option (\<lambda>s. (x_world (ss_executor s), requests (x_posts (ss_executor s))))
     (session_run sample_config sample_env crowd (session_start sample_config sample_buffer (True, None))) = Some ((True, None), [7])"
  (is "map_option _ (session_run _ _ _ ?start) = _")
proof -
  have "map_option (\<lambda>s. requests (x_posts (ss_executor s))) (session_run sample_config sample_env crowd ?start) = Some [7]"
    by code_simp
  then obtain s where s: "session_run sample_config sample_env crowd ?start = Some s" "requests (x_posts (ss_executor s)) = [7]"
    by auto
  have ok: "session_ok ?start" by (rule session_start_ok(1)[OF sample_size])
  have start: "x_world (ss_executor ?start) = (True, None)" "x_transaction_owner (ss_executor ?start) = - 1"
    "waiting (ss_executor ?start) = []" "ss_hand ?start = None" "ss_senders ?start = (\<lambda>_. None)"
    using ring_init_ok(2)[of 2 sample_buffer]
    by (simp_all add: session_start_def tarantool_message_loop_initialize_def sample_config_def)
  have "only_outsiders (x_transaction_owner (ss_executor ?start)) ?start" unfolding only_outsiders_def start by simp
  moreover have "\<forall>op\<in>set crowd. outsider_op (x_transaction_owner (ss_executor ?start)) op"
    unfolding start by (simp add: sample_message_def)
  moreover have "in_txn sample_env (x_world (ss_executor ?start))" unfolding start by (simp add: sample_env_def)
  ultimately have "x_world (ss_executor s) = x_world (ss_executor ?start)"
    using executor_transaction_isolation[OF ok _ _ _ s(1)] by blast
  then show ?thesis unfolding s(1) start using s(2) by simp
qed

text \<open>
  C27. A stop ends the loop.  When no sender is under way and the waiting messages, handled one after the other, meet
  no open transaction of another owner, the drain returns: the storage thread gets through it in two steps for every
  waiting message and two more, has then freed the buffer, and has answered the waiting requests in order.
\<close>

theorem executor_drain_ends:
  assumes "session_ok s" and "ss_phase s = Loop_Draining" and "ss_hand s = None"
    and "all_admitted env (ring_queue (x_ring (ss_executor s))) (ss_executor s)"
  shows "\<exists>x'. session_run cfg env (replicate (2 * length (ring_queue (x_ring (ss_executor s))) + 2) OpTurn) s =
      Some (s\<lparr>ss_phase := Loop_Over, ss_executor := x'\<rparr>) \<and>
    drain_loop (length (ring_queue (x_ring (ss_executor s))) + 1) env (ss_executor s) = Some x' \<and> ring_queue (x_ring x') = [] \<and>
    requests (x_posts x') = requests (x_posts (ss_executor s)) @ requests (ring_queue (x_ring (ss_executor s)))"
proof -
  have ok: "executor_ok (ss_executor s)" using assms(1) by (simp add: session_ok_def)
  from drain_ends[OF this refl assms(4)] assms(2,3) show ?thesis
    by (simp del: drain_loop.simps session_run.simps replicate.simps) blast
qed

abbreviation busy_stop :: "(nat, nat, bool \<times> string option) session option" where
  "busy_stop \<equiv> session_run sample_config sample_env
     [OpSend 0 7 (sample_message TARANTOOL_MESSAGE_BEGIN 1), OpSend 1 8 (sample_message TARANTOOL_MESSAGE_ROLLBACK 1),
      OpStop (sample_message TARANTOOL_MESSAGE_CALL 0), OpAttempt 0 False, OpAttempt 1 False, OpTurn]
     (session_start sample_config sample_buffer (False, None))"

theorem executor_drain_ends_witness:
  "\<exists>s s'. busy_stop = Some s \<and> session_run sample_config sample_env (replicate 6 OpTurn) s = Some s' \<and>
     ss_phase s' = Loop_Over \<and> requests (x_posts (ss_executor s')) = [7, 8]"
proof -
  have "map_option (\<lambda>s. (ss_phase s, ss_hand s, requests (x_posts (ss_executor s)), requests (ring_queue (x_ring (ss_executor s))),
        length (ring_queue (x_ring (ss_executor s))), all_admitted sample_env (ring_queue (x_ring (ss_executor s))) (ss_executor s))) busy_stop =
      Some (Loop_Draining, None, [], [7, 8], 2, True)"
    by code_simp
  then obtain s where s: "busy_stop = Some s" "ss_phase s = Loop_Draining" "ss_hand s = None" "requests (x_posts (ss_executor s)) = []"
      "requests (ring_queue (x_ring (ss_executor s))) = [7, 8]" "length (ring_queue (x_ring (ss_executor s))) = 2"
      "all_admitted sample_env (ring_queue (x_ring (ss_executor s))) (ss_executor s)"
    by auto
  have ok: "session_ok s"
    using session_run_ok[OF s(1) session_start_ok(1)[OF sample_size]] unfolding session_start_ok(2,3)[OF sample_size] by simp
  obtain x' where x': "session_run sample_config sample_env (replicate (2 * 2 + 2) OpTurn) s = Some (s\<lparr>ss_phase := Loop_Over, ss_executor := x'\<rparr>)"
      "requests (x_posts x') = [7, 8]"
    using executor_drain_ends[OF ok s(2,3,7), of sample_config] unfolding s(4-6) by auto
  have "(2 * 2 + 2 :: nat) = 6" by simp
  with x' s(1) show ?thesis
    by (intro exI[of _ s] exI[of _ "s\<lparr>ss_phase := Loop_Over, ss_executor := x'\<rparr>"]) simp
qed

text \<open>
  C35. A stop inside a transaction never ends.  When a transaction is open and a message of another owner
  waits in the ring, with none of the owner, the drain takes it out and puts it back for ever: no number of turns is enough.
\<close>

theorem executor_drain_hangs_in_transaction:
  assumes "ring_state_ok (x_ring x)" and "in_txn env (x_world x)" and "ring_queue (x_ring x) \<noteq> []"
    and "\<forall>m\<in>set (ring_queue (x_ring x)). tm_owner m \<noteq> x_transaction_owner x"
  shows "drain_loop fuel env x = None"
  using assms
proof (induction fuel arbitrary: x)
  case (Suc fuel)
  from Suc.prems(1) show ?case
  proof (cases rule: ring_deq_cases)
    case (front m s)
    let ?x = "x\<lparr>x_ring := snd (ring_enq m s)\<rparr>"
    have "tarantool_message_handle env m (x\<lparr>x_ring := s\<rparr>) = ?x" "waiting ?x = ring_queue s @ [m]"
      using handle_outsider_defers[of s x m env] front Suc.prems by simp_all
    moreover have "executor_ok ?x" using rq.enq_ok[OF front(3), of m] by simp
    ultimately show ?thesis using Suc.IH[of ?x] Suc.prems front by simp
  qed (use Suc.prems in auto)
qed simp

theorem executor_drain_hangs_in_transaction_witness:
  "drain_loop 1000 sample_env
     \<lparr>x_ring = (\<lparr>rg_c_head = 0, rg_p_tail = 1, rg_p_head = 1, rg_size = 4, rg_mask = 3\<rparr>,
        replicate 4 (sample_message TARANTOOL_MESSAGE_CALL 2)),
      x_active = False, x_transaction_owner = 1, x_ring_retry_max_count = 3, x_world = (True, None), x_posts = []\<rparr> = None"
  (is "drain_loop _ _ ?x = _")
proof -
  have "executor_ok ?x" by (auto simp: ring_ok_def intro!: exI[of _ 2])
  moreover have "waiting ?x = [sample_message TARANTOOL_MESSAGE_CALL 2]"
    by (simp add: ring_contents_def slot_def)
  ultimately show ?thesis
    by (intro executor_drain_hangs_in_transaction) (simp_all add: sample_env_def sample_message_def)
qed

text \<open>
  C37. A failed commit is answered as a success and its error goes to the next request.  The answer to a commit carries
  no error whatever \<^verbatim>\<open>tarantool_commit\<close> did; the error it left in the diagnostics area is attached to
  the next call, even one whose function leaves the diagnostics as they are.
\<close>

theorem executor_commit_error_misattributed:
  assumes "tm_type m = TARANTOOL_MESSAGE_COMMIT" and "tm_error m = None"
    and "\<not> in_txn env (x_world x) \<or> tm_owner m = x_transaction_owner x"
    and "diag_last_error env (tarantool_commit env (x_world x)) = Some e"
    and "\<not> in_txn env (tarantool_commit env (x_world x))" and "tm_type m' = TARANTOOL_MESSAGE_CALL"
    and "call_function env (tm_function m') (tm_input m') (tarantool_commit env (x_world x)) = (r, w)"
    and "diag_last_error env w = diag_last_error env (tarantool_commit env (x_world x))"
  shows "\<exists>p p'. x_posts (tarantool_message_handle env m' (tarantool_message_handle env m x)) = x_posts x @ [p, p'] \<and>
    tm_error p = None \<and> tm_error p' = Some e"
  using assms by (auto simp: tarantool_message_handle_def tarantool_message_handle_call_def dart_post_pointer_def)

theorem executor_commit_error_misattributed_witness:
  "\<exists>p p'. x_posts (tarantool_message_handle sample_env (sample_message TARANTOOL_MESSAGE_CALL 2)
      (tarantool_message_handle sample_env (sample_message TARANTOOL_MESSAGE_COMMIT 1)
        \<lparr>x_ring = (ck_ring_init 4, sample_buffer), x_active = True, x_transaction_owner = 1, x_ring_retry_max_count = 3,
         x_world = (True, None), x_posts = []\<rparr>)) = [p, p'] \<and> tm_error p = None \<and> tm_error p' = Some ''conflict''"
  using executor_commit_error_misattributed[of "sample_message TARANTOOL_MESSAGE_COMMIT 1" sample_env
      "\<lparr>x_ring = (ck_ring_init 4, sample_buffer), x_active = True, x_transaction_owner = 1, x_ring_retry_max_count = 3,
         x_world = (True, None), x_posts = []\<rparr>" "''conflict''" "sample_message TARANTOOL_MESSAGE_CALL 2" 3 "(False, Some ''conflict'')"]
  by (simp add: sample_env_def sample_message_def)

text \<open>
  C39. The idle backoff.  For settings that are not negative and whose product fits an \<^verbatim>\<open>int\<close>, the first \<^verbatim>\<open>INT_MAX\<close>
  consecutive turns that find the ring empty compute without overflow: the limit on empty cycles stays within the larger of its
  initial value and the product of the two other settings, and from the configured number of empty cycles on every
  turn makes the long sleep.  The turn after them overflows the counter of empty cycles, which is never reset while idle.
\<close>

theorem executor_idle_backoff_bounded:
  assumes "0 \<le> message_loop_empty_cycles_multiplier cfg" and "0 \<le> message_loop_initial_empty_cycles cfg"
    and "message_loop_initial_empty_cycles cfg \<le> INT_MAX"
    and "message_loop_max_empty_cycles cfg * message_loop_empty_cycles_multiplier cfg \<le> INT_MAX"
  shows "(int n < INT_MAX \<longrightarrow> (\<exists>c sleep c'. idle_run n cfg (idle_start cfg) = Some c \<and> idle_turn cfg c = Some (sleep, c') \<and>
      current_empty_cycles_limit c' \<le> max (message_loop_initial_empty_cycles cfg)
        (message_loop_max_empty_cycles cfg * message_loop_empty_cycles_multiplier cfg) \<and>
      (message_loop_max_empty_cycles cfg \<le> int n + 1 \<longrightarrow> sleep = Some (message_loop_max_sleep_seconds cfg)))) \<and>
    (INT_MAX < int n \<longrightarrow> idle_run n cfg (idle_start cfg) = None)"
proof -
  have lim: "backoff_limit cfg \<le> INT_MAX" using assms(3,4) by simp
  have "\<exists>c sleep c'. idle_run n cfg (idle_start cfg) = Some c \<and> idle_turn cfg c = Some (sleep, c') \<and>
      current_empty_cycles_limit c' \<le> backoff_limit cfg \<and>
      (message_loop_max_empty_cycles cfg \<le> int n + 1 \<longrightarrow> sleep = Some (message_loop_max_sleep_seconds cfg))" if n: "int n < INT_MAX"
  proof -
    obtain c where c: "idle_run n cfg (idle_start cfg) = Some c" "current_empty_cycles c = int n"
        "0 \<le> current_empty_cycles_limit c" "current_empty_cycles_limit c \<le> backoff_limit cfg"
      using idle_run_ok[OF assms(1) lim assms(2), of n] n by (auto elim: succeedsE)
    then show ?thesis using idle_step[OF assms(1) lim, of c] n by (auto elim!: succeedsE)
  qed
  then show ?thesis using idle_run_overflow[OF assms(1) lim assms(2), of n] by blast
qed

theorem executor_idle_backoff_bounded_witness:
  "\<exists>c c'. idle_run 5000 sample_config (idle_start sample_config) = Some c \<and> idle_turn sample_config c = Some (Some 1, c') \<and>
     current_empty_cycles_limit c' \<le> 2000"
  using executor_idle_backoff_bounded[of sample_config 5000] by (simp add: sample_config_def INT_MAX_def)

end
