(* ===== verification/Limbo.thy ===== *)
theory Limbo
  imports Vclock
begin

text \<open>
  The queue of synchronous transactions, \<^verbatim>\<open>src/src/box/txn_limbo.h\<close> and \<^verbatim>\<open>txn_limbo.c\<close>, with the
  parts of \<^verbatim>\<open>txn.c\<close> that complete a transaction.  Entries and transactions are kept in stores and named by
  numbers, so that the queue, the waiting fibers and the journal can refer to the same entry; a null
  \<^verbatim>\<open>e->txn\<close> is \<^const>\<open>None\<close>.  A function that fails an assertion (or follows a null pointer) is \<^const>\<open>None\<close>.
  A function that writes to the journal is cut at the write, where the source yields: the \<open>_begin\<close> part
  records the request in \<open>lb_log\<close>, the rest runs when the write has succeeded.  A failed write panics in the source.
\<close>

section \<open>Transactions\<close>

datatype txn_status = TXN_INPROGRESS | TXN_PREPARED | TXN_CONFLICTED | TXN_IN_READ_VIEW | TXN_COMMITTED | TXN_ABORTED

definition JOURNAL_ENTRY_ERR_UNKNOWN :: i64 where
  "JOURNAL_ENTRY_ERR_UNKNOWN = - 1"

definition JOURNAL_ENTRY_ERR_MIN :: i64 where
  "JOURNAL_ENTRY_ERR_MIN = - 100"

definition TXN_SIGNATURE_UNKNOWN :: i64 where
  "TXN_SIGNATURE_UNKNOWN = JOURNAL_ENTRY_ERR_UNKNOWN"

definition TXN_SIGNATURE_QUORUM_TIMEOUT :: i64 where
  "TXN_SIGNATURE_QUORUM_TIMEOUT = JOURNAL_ENTRY_ERR_MIN - 2"

definition TXN_SIGNATURE_SYNC_ROLLBACK :: i64 where
  "TXN_SIGNATURE_SYNC_ROLLBACK = JOURNAL_ENTRY_ERR_MIN - 3"

text \<open>The fields that matter here; the flags of \<^verbatim>\<open>enum txn_flag\<close> are separate fields.\<close>

record txn =
  tx_is_done :: bool
  tx_wait_sync :: bool
  tx_wait_ack :: bool
  tx_signature :: i64
  tx_status :: txn_status
  tx_fiber :: bool

section \<open>Limbo\<close>

record txn_limbo_entry =
  le_txn :: "nat option"
  le_lsn :: i64
  le_ack_count :: int
  le_is_commit :: bool
  le_is_rollback :: bool

definition txn_limbo_entry_is_complete :: "txn_limbo_entry \<Rightarrow> bool" where
  "txn_limbo_entry_is_complete e \<longleftrightarrow> le_is_commit e \<or> le_is_rollback e"

datatype synchro_type = IPROTO_CONFIRM | IPROTO_ROLLBACK | IPROTO_PROMOTE | IPROTO_DEMOTE

definition iproto_type_is_promote_request :: "synchro_type \<Rightarrow> bool" where
  "iproto_type_is_promote_request ty \<longleftrightarrow> ty = IPROTO_PROMOTE \<or> ty = IPROTO_DEMOTE"

record synchro_request =
  sr_type :: synchro_type
  sr_replica_id :: u32
  sr_origin_id :: u32
  sr_lsn :: i64
  sr_term :: u64

text \<open>What the limbo does to the rest of the instance, oldest first.\<close>

datatype limbo_event =
    EvWrite synchro_request
  | EvCommit nat
  | EvAbort nat
  | EvPlain nat
  | EvWakeup nat
  | EvBroadcast
  | EvRoSummary

datatype limbo_error =
    ER_SYNC_ROLLBACK
  | ER_SYNC_QUEUE_UNCLAIMED
  | ER_SYNC_QUEUE_FOREIGN u32
  | ER_UNCOMMITTED_FOREIGN_SYNC_TXNS u32
  | ER_SYNC_QUORUM_TIMEOUT
  | ER_TIMEOUT
  | OutOfMemory

record limbo =
  lb_queue :: "nat list"
  lb_len :: i64
  lb_owner_id :: u32
  lb_vclock :: vclock
  lb_promote_term_map :: vclock
  lb_promote_greatest_term :: u64
  lb_confirmed_lsn :: i64
  lb_rollback_count :: i64
  lb_is_in_rollback :: bool
  lb_entries :: "nat \<Rightarrow> txn_limbo_entry"
  lb_txns :: "nat \<Rightarrow> txn"
  lb_log :: "limbo_event list"

text \<open>The settings of the instance that the limbo reads.\<close>

record limbo_cfg =
  instance_id :: u32
  replication_synchro_quorum :: int

definition REPLICA_ID_NIL :: u32 where
  "REPLICA_ID_NIL = 0"

definition emit :: "limbo_event \<Rightarrow> limbo \<Rightarrow> limbo" where
  "emit ev l = l\<lparr>lb_log := lb_log l @ [ev]\<rparr>"

definition upd_entry :: "nat \<Rightarrow> (txn_limbo_entry \<Rightarrow> txn_limbo_entry) \<Rightarrow> limbo \<Rightarrow> limbo" where
  "upd_entry e f l = l\<lparr>lb_entries := (lb_entries l)(e := f (lb_entries l e))\<rparr>"

definition upd_txn :: "nat \<Rightarrow> (txn \<Rightarrow> txn) \<Rightarrow> limbo \<Rightarrow> limbo" where
  "upd_txn t f l = l\<lparr>lb_txns := (lb_txns l)(t := f (lb_txns l t))\<rparr>"

section \<open>Completing a transaction\<close>

text \<open>The work of the engines and the triggers of the transaction are outside the model.\<close>

definition txn_free_or_wakeup :: "nat \<Rightarrow> limbo \<Rightarrow> limbo" where
  "txn_free_or_wakeup t l =
     (if \<not> tx_fiber (lb_txns l t) then l
      else emit (EvWakeup t) (upd_txn t (\<lambda>tx. tx\<lparr>tx_is_done := True\<rparr>) l))"

definition txn_complete_fail :: "nat \<Rightarrow> limbo \<Rightarrow> limbo option" where
  "txn_complete_fail t l = do {
     l \<leftarrow> c_assert (\<not> tx_is_done (lb_txns l t)) l;
     l \<leftarrow> c_assert (sint (tx_signature (lb_txns l t)) < 0) l;
     l \<leftarrow> c_assert (tx_signature (lb_txns l t) \<noteq> TXN_SIGNATURE_UNKNOWN) l;
     Some (txn_free_or_wakeup t (emit (EvAbort t) (upd_txn t (\<lambda>tx. tx\<lparr>tx_status := TXN_ABORTED\<rparr>) l))) }"

definition txn_complete_success :: "nat \<Rightarrow> limbo \<Rightarrow> limbo option" where
  "txn_complete_success t l = do {
     l \<leftarrow> c_assert (\<not> tx_is_done (lb_txns l t)) l;
     l \<leftarrow> c_assert (\<not> tx_wait_sync (lb_txns l t)) l;
     l \<leftarrow> c_assert (0 \<le> sint (tx_signature (lb_txns l t))) l;
     Some (txn_free_or_wakeup t (emit (EvCommit t) (upd_txn t (\<lambda>tx. tx\<lparr>tx_status := TXN_COMMITTED\<rparr>) l))) }"

text \<open>The journal's callback for a transaction; \<open>res\<close> is the result of the write.\<close>

definition txn_on_journal_write :: "nat \<Rightarrow> i64 \<Rightarrow> limbo \<Rightarrow> limbo option" where
  "txn_on_journal_write t res l = do {
     l \<leftarrow> c_assert (tx_signature (lb_txns l t) = TXN_SIGNATURE_UNKNOWN) l;
     let l = upd_txn t (\<lambda>tx. tx\<lparr>tx_signature := res\<rparr>) l;
     if sint res < 0 then txn_complete_fail t l
     else if \<not> tx_wait_sync (lb_txns l t) then txn_complete_success t l
     else if tx_fiber (lb_txns l t) then Some (emit (EvWakeup t) l)
     else Some l }"

section \<open>The queue\<close>

definition txn_limbo_create :: "limbo \<Rightarrow> limbo" where
  "txn_limbo_create l = l\<lparr>lb_queue := [], lb_len := 0, lb_owner_id := REPLICA_ID_NIL, lb_vclock := vclock_create (lb_vclock l),
     lb_promote_term_map := vclock_create (lb_promote_term_map l), lb_promote_greatest_term := 0, lb_confirmed_lsn := 0,
     lb_rollback_count := 0, lb_is_in_rollback := False\<rparr>"

definition txn_limbo_is_empty :: "limbo \<Rightarrow> bool" where
  "txn_limbo_is_empty l \<longleftrightarrow> lb_queue l = []"

definition txn_limbo_is_ro :: "limbo_cfg \<Rightarrow> limbo \<Rightarrow> bool" where
  "txn_limbo_is_ro cfg l \<longleftrightarrow> lb_owner_id l \<noteq> REPLICA_ID_NIL \<and> lb_owner_id l \<noteq> instance_id cfg"

definition txn_limbo_replica_term :: "limbo \<Rightarrow> u32 \<Rightarrow> u64" where
  "txn_limbo_replica_term l replica_id = vclock_get (lb_promote_term_map l) (unat replica_id)"

definition txn_limbo_is_replica_outdated :: "limbo \<Rightarrow> u32 \<Rightarrow> bool" where
  "txn_limbo_is_replica_outdated l replica_id \<longleftrightarrow> txn_limbo_replica_term l replica_id < lb_promote_greatest_term l"

text \<open>\<open>Some None\<close> is a null result.\<close>

fun last_synchro_scan :: "nat list \<Rightarrow> limbo \<Rightarrow> nat option option" where
  "last_synchro_scan [] l = Some None"
| "last_synchro_scan (e # es) l =
     do { t \<leftarrow> le_txn (lb_entries l e); if tx_wait_ack (lb_txns l t) then Some (Some e) else last_synchro_scan es l }"

definition txn_limbo_last_synchro_entry :: "limbo \<Rightarrow> nat option option" where
  "txn_limbo_last_synchro_entry l = last_synchro_scan (rev (lb_queue l)) l"

text \<open>\<open>memory\<close> tells whether the region can hold the new entry, named like its transaction.\<close>

definition txn_limbo_append :: "limbo_cfg \<Rightarrow> bool \<Rightarrow> u32 \<Rightarrow> nat \<Rightarrow> limbo \<Rightarrow> ((limbo_error + nat) \<times> limbo) option" where
  "txn_limbo_append cfg memory iid t l = do {
     l \<leftarrow> c_assert (tx_wait_sync (lb_txns l t)) l;
     l \<leftarrow> c_assert (tx_signature (lb_txns l t) = TXN_SIGNATURE_UNKNOWN) l;
     l \<leftarrow> c_assert (tx_status (lb_txns l t) = TXN_PREPARED) l;
     let iid = (if iid = 0 then instance_id cfg else iid);
     if lb_is_in_rollback l then Some (Inl ER_SYNC_ROLLBACK, l)
     else if lb_owner_id l = REPLICA_ID_NIL then Some (Inl ER_SYNC_QUEUE_UNCLAIMED, l)
     else if lb_owner_id l \<noteq> iid then
       Some (Inl (if txn_limbo_is_empty l then ER_SYNC_QUEUE_FOREIGN (lb_owner_id l)
                  else ER_UNCOMMITTED_FOREIGN_SYNC_TXNS (lb_owner_id l)), l)
     else if \<not> memory then Some (Inl OutOfMemory, l)
     else
       let l = upd_entry t (\<lambda>_. \<lparr>le_txn = Some t, le_lsn = - 1, le_ack_count = 0, le_is_commit = False, le_is_rollback = False\<rparr>) l
       in Some (Inr t, l\<lparr>lb_queue := lb_queue l @ [t], lb_len := lb_len l + 1\<rparr>) }"

definition txn_limbo_remove :: "nat \<Rightarrow> limbo \<Rightarrow> limbo option" where
  "txn_limbo_remove e l = do {
     l \<leftarrow> c_assert (e \<in> set (lb_queue l)) l;
     l \<leftarrow> c_assert (hd (lb_queue l) = e) l;
     Some (l\<lparr>lb_queue := remove1 e (lb_queue l), lb_len := lb_len l - 1\<rparr>) }"

definition txn_limbo_pop :: "nat \<Rightarrow> limbo \<Rightarrow> limbo option" where
  "txn_limbo_pop e l = do {
     l \<leftarrow> c_assert (e \<in> set (lb_queue l)) l;
     l \<leftarrow> c_assert (last (lb_queue l) = e) l;
     l \<leftarrow> c_assert (le_is_rollback (lb_entries l e)) l;
     Some (l\<lparr>lb_queue := remove1 e (lb_queue l), lb_len := lb_len l - 1, lb_rollback_count := lb_rollback_count l + 1\<rparr>) }"

definition txn_limbo_abort :: "nat \<Rightarrow> limbo \<Rightarrow> limbo option" where
  "txn_limbo_abort e l = txn_limbo_pop e (upd_entry e (\<lambda>en. en\<lparr>le_is_rollback := True\<rparr>) l)"

definition txn_limbo_assign_remote_lsn :: "limbo_cfg \<Rightarrow> nat \<Rightarrow> i64 \<Rightarrow> limbo \<Rightarrow> limbo option" where
  "txn_limbo_assign_remote_lsn cfg e lsn l = do {
     l \<leftarrow> c_assert (lb_owner_id l \<noteq> REPLICA_ID_NIL) l;
     l \<leftarrow> c_assert (lb_owner_id l \<noteq> instance_id cfg) l;
     l \<leftarrow> c_assert (le_lsn (lb_entries l e) = - 1) l;
     l \<leftarrow> c_assert (0 < sint lsn) l;
     t \<leftarrow> le_txn (lb_entries l e);
     l \<leftarrow> c_assert (tx_wait_ack (lb_txns l t)) l;
     Some (upd_entry e (\<lambda>en. en\<lparr>le_lsn := lsn\<rparr>) l) }"

definition count_acks :: "vclock \<Rightarrow> i64 \<Rightarrow> int" where
  "count_acks v lsn = (\<Sum>c\<leftarrow>vclock_foreach v. if sint lsn \<le> sint (c_lsn c) then 1 else 0)"

definition txn_limbo_assign_local_lsn :: "limbo_cfg \<Rightarrow> nat \<Rightarrow> i64 \<Rightarrow> limbo \<Rightarrow> limbo option" where
  "txn_limbo_assign_local_lsn cfg e lsn l = do {
     l \<leftarrow> c_assert (lb_owner_id l \<noteq> REPLICA_ID_NIL) l;
     l \<leftarrow> c_assert (lb_owner_id l = instance_id cfg) l;
     l \<leftarrow> c_assert (le_lsn (lb_entries l e) = - 1) l;
     l \<leftarrow> c_assert (0 < sint lsn) l;
     t \<leftarrow> le_txn (lb_entries l e);
     l \<leftarrow> c_assert (tx_wait_ack (lb_txns l t)) l;
     let l = upd_entry e (\<lambda>en. en\<lparr>le_lsn := lsn\<rparr>) l;
     let ack_count = count_acks (lb_vclock l) lsn;
     l \<leftarrow> c_assert (le_ack_count (lb_entries l e) \<le> ack_count) l;
     Some (upd_entry e (\<lambda>en. en\<lparr>le_ack_count := ack_count\<rparr>) l) }"

definition txn_limbo_assign_lsn :: "limbo_cfg \<Rightarrow> nat \<Rightarrow> i64 \<Rightarrow> limbo \<Rightarrow> limbo option" where
  "txn_limbo_assign_lsn cfg e lsn l =
     (if lb_owner_id l = instance_id cfg then txn_limbo_assign_local_lsn cfg e lsn l
      else txn_limbo_assign_remote_lsn cfg e lsn l)"

section \<open>Requests\<close>

definition txn_limbo_checkpoint :: "limbo \<Rightarrow> synchro_request \<Rightarrow> synchro_request" where
  "txn_limbo_checkpoint l req =
     req\<lparr>sr_type := IPROTO_PROMOTE, sr_replica_id := lb_owner_id l, sr_lsn := lb_confirmed_lsn l,
         sr_term := lb_promote_greatest_term l\<rparr>"

definition txn_limbo_write_synchro :: "synchro_type \<Rightarrow> i64 \<Rightarrow> u64 \<Rightarrow> limbo \<Rightarrow> limbo option" where
  "txn_limbo_write_synchro ty lsn tm l = do {
     l \<leftarrow> c_assert (0 \<le> sint lsn) l;
     Some (emit (EvWrite \<lparr>sr_type = ty, sr_replica_id = lb_owner_id l, sr_origin_id = 0, sr_lsn = lsn, sr_term = tm\<rparr>) l) }"

definition txn_limbo_write_confirm :: "i64 \<Rightarrow> limbo \<Rightarrow> limbo option" where
  "txn_limbo_write_confirm lsn l = do {
     l \<leftarrow> c_assert (sint (lb_confirmed_lsn l) < sint lsn) l;
     l \<leftarrow> c_assert (\<not> lb_is_in_rollback l) l;
     txn_limbo_write_synchro IPROTO_CONFIRM lsn 0 (l\<lparr>lb_confirmed_lsn := lsn\<rparr>) }"

definition clear_sync_flags :: "nat \<Rightarrow> limbo \<Rightarrow> limbo" where
  "clear_sync_flags t l = upd_txn t (\<lambda>tx. tx\<lparr>tx_wait_sync := False, tx_wait_ack := False\<rparr>) l"

text \<open>The loop over the queue; each turn that does not leave it removes the first entry.\<close>

fun read_confirm_loop :: "nat list \<Rightarrow> i64 \<Rightarrow> limbo \<Rightarrow> limbo option" where
  "read_confirm_loop [] lsn l = Some l"
| "read_confirm_loop (e # es) lsn l = do {
     t \<leftarrow> le_txn (lb_entries l e);
     if tx_wait_ack (lb_txns l t) \<and> (sint lsn < sint (le_lsn (lb_entries l e)) \<or> le_lsn (lb_entries l e) = - 1) then Some l
     else if \<not> tx_wait_ack (lb_txns l t) \<and> tx_signature (lb_txns l t) = TXN_SIGNATURE_UNKNOWN then do {
       l \<leftarrow> c_assert (tx_status (lb_txns l t) = TXN_PREPARED) l;
       l \<leftarrow> txn_limbo_remove e (upd_txn t (\<lambda>tx. tx\<lparr>tx_wait_sync := False\<rparr>) l);
       read_confirm_loop es lsn (emit (EvPlain t) (upd_entry e (\<lambda>en. en\<lparr>le_txn := None\<rparr>) l)) }
     else do {
       l \<leftarrow> txn_limbo_remove e (upd_entry e (\<lambda>en. en\<lparr>le_is_commit := True\<rparr>) l);
       let l = clear_sync_flags t l;
       l \<leftarrow> c_assert (0 \<le> sint (tx_signature (lb_txns l t))) l;
       l \<leftarrow> txn_complete_success t l;
       read_confirm_loop es lsn l } }"

definition txn_limbo_read_confirm :: "i64 \<Rightarrow> limbo \<Rightarrow> limbo option" where
  "txn_limbo_read_confirm lsn l = do {
     l \<leftarrow> c_assert (lb_owner_id l \<noteq> REPLICA_ID_NIL \<or> txn_limbo_is_empty l) l;
     read_confirm_loop (lb_queue l) lsn l }"

definition txn_limbo_write_rollback_begin :: "i64 \<Rightarrow> limbo \<Rightarrow> limbo option" where
  "txn_limbo_write_rollback_begin lsn l = do {
     l \<leftarrow> c_assert (sint (lb_confirmed_lsn l) < sint lsn) l;
     l \<leftarrow> c_assert (\<not> lb_is_in_rollback l) l;
     txn_limbo_write_synchro IPROTO_ROLLBACK lsn 0 (l\<lparr>lb_is_in_rollback := True\<rparr>) }"

definition txn_limbo_write_rollback_end :: "limbo \<Rightarrow> limbo" where
  "txn_limbo_write_rollback_end l = l\<lparr>lb_is_in_rollback := False\<rparr>"

text \<open>The first loop goes backwards and finds the oldest entry to roll back, the second pops up to it.\<close>

fun rollback_scan :: "nat list \<Rightarrow> i64 \<Rightarrow> limbo \<Rightarrow> nat option \<Rightarrow> nat option option" where
  "rollback_scan [] lsn l last_rollback = Some last_rollback"
| "rollback_scan (e # es) lsn l last_rollback = do {
     t \<leftarrow> le_txn (lb_entries l e);
     if \<not> tx_wait_ack (lb_txns l t) then rollback_scan es lsn l last_rollback
     else if sint (le_lsn (lb_entries l e)) < sint lsn then Some last_rollback
     else rollback_scan es lsn l (Some e) }"

fun read_rollback_loop :: "nat list \<Rightarrow> nat \<Rightarrow> limbo \<Rightarrow> limbo option" where
  "read_rollback_loop [] last_rollback l = Some l"
| "read_rollback_loop (e # es) last_rollback l = do {
     l \<leftarrow> txn_limbo_abort e l;
     t \<leftarrow> le_txn (lb_entries l e);
     let l = clear_sync_flags t l;
     l \<leftarrow> c_assert (0 \<le> sint (tx_signature (lb_txns l t))) l;
     l \<leftarrow> txn_complete_fail t (upd_txn t (\<lambda>tx. tx\<lparr>tx_signature := TXN_SIGNATURE_SYNC_ROLLBACK\<rparr>) l);
     if e = last_rollback then Some l else read_rollback_loop es last_rollback l }"

definition txn_limbo_read_rollback :: "i64 \<Rightarrow> limbo \<Rightarrow> limbo option" where
  "txn_limbo_read_rollback lsn l = do {
     l \<leftarrow> c_assert (lb_owner_id l \<noteq> REPLICA_ID_NIL \<or> txn_limbo_is_empty l) l;
     last_rollback \<leftarrow> rollback_scan (rev (lb_queue l)) lsn l None;
     case last_rollback of None \<Rightarrow> Some l | Some e \<Rightarrow> read_rollback_loop (rev (lb_queue l)) e l }"

text \<open>PROMOTE and DEMOTE are written alike.\<close>

definition write_promote_begin :: "synchro_type \<Rightarrow> i64 \<Rightarrow> u64 \<Rightarrow> limbo \<Rightarrow> limbo option" where
  "write_promote_begin ty lsn tm l = do {
     let l = l\<lparr>lb_confirmed_lsn := lsn, lb_is_in_rollback := True\<rparr>;
     e \<leftarrow> txn_limbo_last_synchro_entry l;
     l \<leftarrow> c_assert (case e of None \<Rightarrow> True | Some e \<Rightarrow> sint (le_lsn (lb_entries l e)) \<le> sint lsn) l;
     txn_limbo_write_synchro ty lsn tm l }"

definition txn_limbo_write_promote_begin :: "i64 \<Rightarrow> u64 \<Rightarrow> limbo \<Rightarrow> limbo option" where
  "txn_limbo_write_promote_begin = write_promote_begin IPROTO_PROMOTE"

definition txn_limbo_write_demote_begin :: "i64 \<Rightarrow> u64 \<Rightarrow> limbo \<Rightarrow> limbo option" where
  "txn_limbo_write_demote_begin = write_promote_begin IPROTO_DEMOTE"

definition txn_limbo_write_promote_end :: "limbo \<Rightarrow> limbo" where
  "txn_limbo_write_promote_end l = l\<lparr>lb_is_in_rollback := False\<rparr>"

definition txn_limbo_read_promote :: "u32 \<Rightarrow> i64 \<Rightarrow> limbo \<Rightarrow> limbo option" where
  "txn_limbo_read_promote replica_id lsn l = do {
     l \<leftarrow> txn_limbo_read_confirm lsn l;
     l \<leftarrow> txn_limbo_read_rollback (lsn + 1) l;
     l \<leftarrow> c_assert (txn_limbo_is_empty l) l;
     Some ((emit EvRoSummary (l\<lparr>lb_owner_id := replica_id\<rparr>))\<lparr>lb_confirmed_lsn := 0\<rparr>) }"

definition txn_limbo_read_demote :: "i64 \<Rightarrow> limbo \<Rightarrow> limbo option" where
  "txn_limbo_read_demote lsn l = txn_limbo_read_promote REPLICA_ID_NIL lsn l"

section \<open>Acknowledgements\<close>

fun ack_loop :: "int \<Rightarrow> i64 \<Rightarrow> i64 \<Rightarrow> nat list \<Rightarrow> i64 \<Rightarrow> limbo \<Rightarrow> (i64 \<times> limbo) option" where
  "ack_loop quorum prev_lsn lsn [] confirm_lsn l = Some (confirm_lsn, l)"
| "ack_loop quorum prev_lsn lsn (e # es) confirm_lsn l = do {
     l \<leftarrow> c_assert (le_ack_count (lb_entries l e) \<le> int VCLOCK_MAX) l;
     if sint lsn < sint (le_lsn (lb_entries l e)) then Some (confirm_lsn, l)
     else do {
       t \<leftarrow> le_txn (lb_entries l e);
       if \<not> tx_wait_ack (lb_txns l t) then do {
         l \<leftarrow> c_assert (le_lsn (lb_entries l e) = - 1) l;
         ack_loop quorum prev_lsn lsn es confirm_lsn l }
       else if sint (le_lsn (lb_entries l e)) \<le> sint prev_lsn then ack_loop quorum prev_lsn lsn es confirm_lsn l
       else
         let l = upd_entry e (\<lambda>en. en\<lparr>le_ack_count := le_ack_count en + 1\<rparr>) l
         in if le_ack_count (lb_entries l e) < quorum then ack_loop quorum prev_lsn lsn es confirm_lsn l
            else ack_loop quorum prev_lsn lsn es (le_lsn (lb_entries l e)) l } }"

text \<open>The result is the LSN whose confirmation is being written, if one is.\<close>

definition txn_limbo_ack_begin :: "limbo_cfg \<Rightarrow> u32 \<Rightarrow> i64 \<Rightarrow> limbo \<Rightarrow> (i64 option \<times> limbo) option" where
  "txn_limbo_ack_begin cfg replica_id lsn l =
     (if lb_queue l = [] then Some (None, l)
      else if lb_is_in_rollback l then Some (None, l)
      else do {
        l \<leftarrow> c_assert (lb_owner_id l \<noteq> REPLICA_ID_NIL) l;
        let prev_lsn = vclock_get (lb_vclock l) (unat replica_id);
        if lsn = prev_lsn then Some (None, l)
        else do {
          (_, v) \<leftarrow> vclock_follow (lb_vclock l) (unat replica_id) lsn;
          (confirm_lsn, l) \<leftarrow> ack_loop (replication_synchro_quorum cfg) prev_lsn lsn (lb_queue l) (- 1) (l\<lparr>lb_vclock := v\<rparr>);
          if confirm_lsn = - 1 \<or> sint confirm_lsn \<le> sint (lb_confirmed_lsn l) then Some (None, l)
          else map_option (Pair (Some confirm_lsn)) (txn_limbo_write_confirm confirm_lsn l) } })"

text \<open>The whole function, when nothing happens during the write.\<close>

definition txn_limbo_ack :: "limbo_cfg \<Rightarrow> u32 \<Rightarrow> i64 \<Rightarrow> limbo \<Rightarrow> limbo option" where
  "txn_limbo_ack cfg replica_id lsn l = do {
     (confirm_lsn, l) \<leftarrow> txn_limbo_ack_begin cfg replica_id lsn l;
     case confirm_lsn of None \<Rightarrow> Some l | Some lsn \<Rightarrow> txn_limbo_read_confirm lsn l }"

fun params_loop :: "int \<Rightarrow> nat list \<Rightarrow> i64 \<Rightarrow> limbo \<Rightarrow> i64 option" where
  "params_loop quorum [] confirm_lsn l = Some confirm_lsn"
| "params_loop quorum (e # es) confirm_lsn l = do {
     l \<leftarrow> c_assert (le_ack_count (lb_entries l e) \<le> int VCLOCK_MAX) l;
     t \<leftarrow> le_txn (lb_entries l e);
     if \<not> tx_wait_ack (lb_txns l t) then do {
       l \<leftarrow> c_assert (le_lsn (lb_entries l e) = - 1) l;
       params_loop quorum es confirm_lsn l }
     else if le_ack_count (lb_entries l e) < quorum then params_loop quorum es confirm_lsn l
     else do {
       l \<leftarrow> c_assert (0 < sint (le_lsn (lb_entries l e))) l;
       params_loop quorum es (le_lsn (lb_entries l e)) l } }"

definition txn_limbo_on_parameters_change_begin :: "limbo_cfg \<Rightarrow> limbo \<Rightarrow> (i64 option \<times> limbo) option" where
  "txn_limbo_on_parameters_change_begin cfg l =
     (if lb_queue l = [] then Some (None, l)
      else do {
        confirm_lsn \<leftarrow> params_loop (replication_synchro_quorum cfg) (lb_queue l) (- 1) l;
        if sint (lb_confirmed_lsn l) < sint confirm_lsn \<and> \<not> lb_is_in_rollback l
        then map_option (Pair (Some confirm_lsn)) (txn_limbo_write_confirm confirm_lsn l)
        else Some (None, emit EvBroadcast l) })"

definition txn_limbo_on_parameters_change :: "limbo_cfg \<Rightarrow> limbo \<Rightarrow> limbo option" where
  "txn_limbo_on_parameters_change cfg l = do {
     (confirm_lsn, l) \<leftarrow> txn_limbo_on_parameters_change_begin cfg l;
     case confirm_lsn of None \<Rightarrow> Some l | Some lsn \<Rightarrow> map_option (emit EvBroadcast) (txn_limbo_read_confirm lsn l) }"

section \<open>Waiting\<close>

text \<open>
  A fiber in \<^verbatim>\<open>txn_limbo_wait_complete\<close>: it waits with the timeout, it waits without (the label
  \<^verbatim>\<open>wait\<close>), it writes the rollback, or it has returned.
\<close>

datatype wait_state = Wait_Timed | Wait_Untimed | Wait_Rollback | Wait_Done "limbo_error option"

definition wait_complete_return :: "nat \<Rightarrow> limbo \<Rightarrow> limbo_error option option" where
  "wait_complete_return e l = do {
     t \<leftarrow> le_txn (lb_entries l e);
     l \<leftarrow> c_assert (txn_limbo_entry_is_complete (lb_entries l e)) l;
     l \<leftarrow> c_assert (e \<notin> set (lb_queue l)) l;
     l \<leftarrow> c_assert (tx_is_done (lb_txns l t)) l;
     Some (if le_is_rollback (lb_entries l e) then Some ER_SYNC_ROLLBACK else None) }"

definition txn_limbo_wait_complete_begin :: "nat \<Rightarrow> limbo \<Rightarrow> wait_state option" where
  "txn_limbo_wait_complete_begin e l = do {
     t \<leftarrow> le_txn (lb_entries l e);
     l \<leftarrow> c_assert (0 < sint (le_lsn (lb_entries l e)) \<or> \<not> tx_wait_ack (lb_txns l t)) l;
     if txn_limbo_entry_is_complete (lb_entries l e) then map_option Wait_Done (wait_complete_return e l)
     else do {
       l \<leftarrow> c_assert (\<not> tx_is_done (lb_txns l t)) l;
       l \<leftarrow> c_assert (tx_wait_sync (lb_txns l t)) l;
       Some Wait_Timed } }"

text \<open>A fiber in \<^const>\<open>Wait_Timed\<close> runs again, \<open>rc\<close> being the result of the wait on the condition.\<close>

definition txn_limbo_wait_complete_resume :: "nat \<Rightarrow> bool \<Rightarrow> limbo \<Rightarrow> (wait_state \<times> limbo) option" where
  "txn_limbo_wait_complete_resume e timed_out l =
     (if txn_limbo_entry_is_complete (lb_entries l e) then map_option (\<lambda>r. (Wait_Done r, l)) (wait_complete_return e l)
      else if \<not> timed_out then Some (Wait_Timed, l)
      else do {
        l \<leftarrow> c_assert (\<not> txn_limbo_is_empty l) l;
        if hd (lb_queue l) \<noteq> e then Some (Wait_Untimed, l)
        else do {
          l \<leftarrow> c_assert (0 < sint (le_lsn (lb_entries l e))) l;
          if sint (le_lsn (lb_entries l e)) \<le> sint (lb_confirmed_lsn l) then Some (Wait_Untimed, l)
          else map_option (Pair Wait_Rollback) (txn_limbo_write_rollback_begin (le_lsn (lb_entries l e)) l) } })"

text \<open>A fiber in \<^const>\<open>Wait_Untimed\<close> runs again.\<close>

definition txn_limbo_wait_complete_yielded :: "nat \<Rightarrow> limbo \<Rightarrow> wait_state option" where
  "txn_limbo_wait_complete_yielded e l =
     (if \<not> txn_limbo_entry_is_complete (lb_entries l e) then Some Wait_Untimed
      else map_option Wait_Done (wait_complete_return e l))"

fun timeout_rollback_loop :: "nat list \<Rightarrow> nat \<Rightarrow> limbo \<Rightarrow> limbo option" where
  "timeout_rollback_loop [] entry l = Some l"
| "timeout_rollback_loop (e # es) entry l = do {
     t \<leftarrow> le_txn (lb_entries l e);
     l \<leftarrow> txn_limbo_abort e (upd_txn t (\<lambda>tx. tx\<lparr>tx_signature := TXN_SIGNATURE_QUORUM_TIMEOUT\<rparr>) l);
     l \<leftarrow> txn_complete_fail t (clear_sync_flags t l);
     if e = entry then Some l else timeout_rollback_loop es entry (emit (EvWakeup t) l) }"

text \<open>The rollback is in the journal.\<close>

definition txn_limbo_wait_complete_rollback :: "nat \<Rightarrow> limbo \<Rightarrow> (wait_state \<times> limbo) option" where
  "txn_limbo_wait_complete_rollback e l =
     map_option (Pair (Wait_Done (Some ER_SYNC_QUORUM_TIMEOUT)))
       (timeout_rollback_loop (rev (lb_queue l)) e (txn_limbo_write_rollback_end l))"

section \<open>Processing requests\<close>

definition txn_limbo_process :: "synchro_request \<Rightarrow> limbo \<Rightarrow> limbo option" where
  "txn_limbo_process req l = do {
     let tm = sr_term req;
     let origin = sr_origin_id req;
     (stale, l) \<leftarrow>
       (if txn_limbo_replica_term l origin < tm then do {
          (_, v) \<leftarrow> vclock_follow (lb_promote_term_map l) (unat origin) tm;
          let l = l\<lparr>lb_promote_term_map := v\<rparr>;
          Some (False, if lb_promote_greatest_term l < tm then l\<lparr>lb_promote_greatest_term := tm\<rparr> else l) }
        else Some (iproto_type_is_promote_request (sr_type req) \<and> 1 < lb_promote_greatest_term l, l));
     if stale then Some l
     else do {
       let lsn = sr_lsn req;
       (foreign, l) \<leftarrow>
         (if sr_replica_id req = REPLICA_ID_NIL
          then map_option (Pair False) (c_assert (lsn = 0 \<and> iproto_type_is_promote_request (sr_type req)) l)
          else Some (sr_replica_id req \<noteq> lb_owner_id l, l));
       if foreign \<and> \<not> iproto_type_is_promote_request (sr_type req) then Some l
       else
         let lsn = (if foreign then 0 else lsn)
         in (case sr_type req of
               IPROTO_CONFIRM \<Rightarrow> txn_limbo_read_confirm lsn l
             | IPROTO_ROLLBACK \<Rightarrow> txn_limbo_read_rollback lsn l
             | IPROTO_PROMOTE \<Rightarrow> txn_limbo_read_promote (sr_origin_id req) lsn l
             | IPROTO_DEMOTE \<Rightarrow> txn_limbo_read_demote lsn l) } }"

section \<open>Well-formed queues\<close>

text \<open>
  An entry that waits: it is not complete, its transaction is prepared and waits, only a synchronous one
  has an LSN, and one that has an LSN has been written.
\<close>

definition entry_ok :: "limbo \<Rightarrow> nat \<Rightarrow> bool" where
  "entry_ok l e \<longleftrightarrow> le_txn (lb_entries l e) = Some e \<and> \<not> txn_limbo_entry_is_complete (lb_entries l e) \<and>
     tx_wait_sync (lb_txns l e) \<and> \<not> tx_is_done (lb_txns l e) \<and> tx_status (lb_txns l e) = TXN_PREPARED \<and>
     (tx_signature (lb_txns l e) = TXN_SIGNATURE_UNKNOWN \<or> 0 \<le> sint (tx_signature (lb_txns l e))) \<and>
     (le_lsn (lb_entries l e) = - 1 \<or>
      tx_wait_ack (lb_txns l e) \<and> 0 < sint (le_lsn (lb_entries l e)) \<and> 0 \<le> sint (tx_signature (lb_txns l e)))"

definition queue_ok :: "limbo \<Rightarrow> bool" where
  "queue_ok l \<longleftrightarrow> distinct (lb_queue l) \<and> lb_len l = of_nat (length (lb_queue l)) \<and> (\<forall>e\<in>set (lb_queue l). entry_ok l e)"

text \<open>A confirmation of \<open>lsn\<close> stops at the entry.\<close>

definition confirm_stops :: "i64 \<Rightarrow> limbo \<Rightarrow> nat \<Rightarrow> bool" where
  "confirm_stops lsn l e \<longleftrightarrow>
     tx_wait_ack (lb_txns l e) \<and> (sint lsn < sint (le_lsn (lb_entries l e)) \<or> le_lsn (lb_entries l e) = - 1)"

text \<open>An asynchronous transaction that is still being written.\<close>

definition unwritten :: "limbo \<Rightarrow> nat \<Rightarrow> bool" where
  "unwritten l e \<longleftrightarrow> \<not> tx_wait_ack (lb_txns l e) \<and> tx_signature (lb_txns l e) = TXN_SIGNATURE_UNKNOWN"

text \<open>The limbo after the entries \<open>P\<close> at the front have been confirmed.\<close>

definition confirmed_entry :: "limbo \<Rightarrow> nat \<Rightarrow> txn_limbo_entry" where
  "confirmed_entry l e = (if unwritten l e then (lb_entries l e)\<lparr>le_txn := None\<rparr> else (lb_entries l e)\<lparr>le_is_commit := True\<rparr>)"

definition confirmed_txn :: "limbo \<Rightarrow> nat \<Rightarrow> txn" where
  "confirmed_txn l e =
     (if unwritten l e then (lb_txns l e)\<lparr>tx_wait_sync := False\<rparr>
      else (lb_txns l e)\<lparr>tx_wait_sync := False, tx_wait_ack := False, tx_status := TXN_COMMITTED, tx_is_done := tx_fiber (lb_txns l e)\<rparr>)"

definition confirm_events :: "limbo \<Rightarrow> nat \<Rightarrow> limbo_event list" where
  "confirm_events l e =
     (if unwritten l e then [EvPlain e] else EvCommit e # (if tx_fiber (lb_txns l e) then [EvWakeup e] else []))"

definition confirm_prefix :: "nat list \<Rightarrow> limbo \<Rightarrow> limbo" where
  "confirm_prefix P l =
     l\<lparr>lb_queue := drop (length P) (lb_queue l), lb_len := lb_len l - of_nat (length P),
       lb_entries := (\<lambda>e. if e \<in> set P then confirmed_entry l e else lb_entries l e),
       lb_txns := (\<lambda>e. if e \<in> set P then confirmed_txn l e else lb_txns l e),
       lb_log := lb_log l @ concat (map (confirm_events l) P)\<rparr>"

text \<open>The limbo after the entries \<open>S\<close> at the end have been rolled back, the last one first.\<close>

definition aborted_txn :: "i64 \<Rightarrow> limbo \<Rightarrow> nat \<Rightarrow> txn" where
  "aborted_txn sig l e =
     (lb_txns l e)\<lparr>tx_signature := sig, tx_wait_sync := False, tx_wait_ack := False, tx_status := TXN_ABORTED,
       tx_is_done := tx_fiber (lb_txns l e)\<rparr>"

definition abort_suffix :: "i64 \<Rightarrow> limbo_event list \<Rightarrow> nat list \<Rightarrow> limbo \<Rightarrow> limbo" where
  "abort_suffix sig evs S l =
     l\<lparr>lb_queue := take (length (lb_queue l) - length S) (lb_queue l), lb_len := lb_len l - of_nat (length S),
       lb_rollback_count := lb_rollback_count l + of_nat (length S),
       lb_entries := (\<lambda>e. if e \<in> set S then (lb_entries l e)\<lparr>le_is_rollback := True\<rparr> else lb_entries l e),
       lb_txns := (\<lambda>e. if e \<in> set S then aborted_txn sig l e else lb_txns l e),
       lb_log := lb_log l @ evs\<rparr>"

text \<open>The completions in a log.\<close>

fun completion :: "limbo_event \<Rightarrow> bool" where
  "completion (EvCommit e) = True"
| "completion (EvAbort e) = True"
| "completion _ = False"

definition completions :: "limbo \<Rightarrow> limbo_event list" where
  "completions l = filter completion (lb_log l)"

lemma TXN_SIGNATURE_values [simp]:
  "sint TXN_SIGNATURE_UNKNOWN = - 1" "sint TXN_SIGNATURE_QUORUM_TIMEOUT = - 102" "sint TXN_SIGNATURE_SYNC_ROLLBACK = - 103"
  "TXN_SIGNATURE_QUORUM_TIMEOUT \<noteq> TXN_SIGNATURE_UNKNOWN" "TXN_SIGNATURE_SYNC_ROLLBACK \<noteq> TXN_SIGNATURE_UNKNOWN"
  by (simp_all add: TXN_SIGNATURE_UNKNOWN_def TXN_SIGNATURE_QUORUM_TIMEOUT_def TXN_SIGNATURE_SYNC_ROLLBACK_def
      JOURNAL_ENTRY_ERR_UNKNOWN_def JOURNAL_ENTRY_ERR_MIN_def)

lemmas limbo_defs = emit_def upd_entry_def upd_txn_def clear_sync_flags_def txn_free_or_wakeup_def

section \<open>Confirmation and rollback\<close>

lemma confirm_prefix_Nil [simp]: "confirm_prefix [] l = l"
  by (simp add: confirm_prefix_def)

lemma confirm_prefix_sel [simp]:
  "lb_queue (confirm_prefix P l) = drop (length P) (lb_queue l)"
  "lb_len (confirm_prefix P l) = lb_len l - of_nat (length P)"
  "lb_owner_id (confirm_prefix P l) = lb_owner_id l"
  "lb_vclock (confirm_prefix P l) = lb_vclock l"
  "lb_promote_term_map (confirm_prefix P l) = lb_promote_term_map l"
  "lb_promote_greatest_term (confirm_prefix P l) = lb_promote_greatest_term l"
  "lb_confirmed_lsn (confirm_prefix P l) = lb_confirmed_lsn l"
  "lb_rollback_count (confirm_prefix P l) = lb_rollback_count l"
  "lb_is_in_rollback (confirm_prefix P l) = lb_is_in_rollback l"
  "lb_entries (confirm_prefix P l) e = (if e \<in> set P then confirmed_entry l e else lb_entries l e)"
  "lb_txns (confirm_prefix P l) e = (if e \<in> set P then confirmed_txn l e else lb_txns l e)"
  "lb_log (confirm_prefix P l) = lb_log l @ concat (map (confirm_events l) P)"
  by (simp_all add: confirm_prefix_def)

lemma limbo_eqI:
  assumes "lb_queue l = lb_queue l'" "lb_len l = lb_len l'" "lb_owner_id l = lb_owner_id l'" "lb_vclock l = lb_vclock l'"
    "lb_promote_term_map l = lb_promote_term_map l'" "lb_promote_greatest_term l = lb_promote_greatest_term l'"
    "lb_confirmed_lsn l = lb_confirmed_lsn l'" "lb_rollback_count l = lb_rollback_count l'"
    "lb_is_in_rollback l = lb_is_in_rollback l'" "\<And>e. lb_entries l e = lb_entries l' e" "\<And>e. lb_txns l e = lb_txns l' e"
    "lb_log l = lb_log l'"
  shows "l = (l' :: limbo)"
  using assms by (intro limbo.equality) (simp_all add: fun_eq_iff)

lemma confirm_prefix_Cons:
  assumes "e \<notin> set P"
  shows "confirm_prefix P (confirm_prefix [e] l) = confirm_prefix (e # P) l"
proof -
  let ?l = "confirm_prefix [e] l"
  have same: "confirmed_entry ?l x = confirmed_entry l x" "confirmed_txn ?l x = confirmed_txn l x"
    "confirm_events ?l x = confirm_events l x" if "x \<in> set P" for x
  proof -
    have "x \<noteq> e" using assms that by auto
    then show "confirmed_entry ?l x = confirmed_entry l x" "confirmed_txn ?l x = confirmed_txn l x"
      "confirm_events ?l x = confirm_events l x"
      by (simp_all add: confirmed_entry_def confirmed_txn_def confirm_events_def unwritten_def)
  qed
  then show ?thesis by (intro limbo_eqI) (auto simp: drop_Suc cong: map_cong)
qed

lemma confirm_prefix_ok:
  assumes "queue_ok l" and "lb_queue l = e # es"
  shows "queue_ok (confirm_prefix [e] l)"
  using assms by (auto simp: queue_ok_def confirm_prefix_def entry_ok_def)

lemma txn_complete_success_eq:
  assumes "\<not> tx_is_done (lb_txns l t)" and "\<not> tx_wait_sync (lb_txns l t)" and "0 \<le> sint (tx_signature (lb_txns l t))"
  shows "txn_complete_success t l =
    Some (txn_free_or_wakeup t (emit (EvCommit t) (upd_txn t (\<lambda>tx. tx\<lparr>tx_status := TXN_COMMITTED\<rparr>) l)))"
  using assms by (simp add: txn_complete_success_def)

lemma txn_complete_fail_eq:
  assumes "\<not> tx_is_done (lb_txns l t)" and "sint (tx_signature (lb_txns l t)) < 0"
    and "tx_signature (lb_txns l t) \<noteq> TXN_SIGNATURE_UNKNOWN"
  shows "txn_complete_fail t l =
    Some (txn_free_or_wakeup t (emit (EvAbort t) (upd_txn t (\<lambda>tx. tx\<lparr>tx_status := TXN_ABORTED\<rparr>) l)))"
  using assms by (simp add: txn_complete_fail_def)

lemma confirm_one:
  assumes ok: "queue_ok l" and q: "lb_queue l = e # es"
  shows "read_confirm_loop (e # es) lsn l =
    (if confirm_stops lsn l e then Some l else read_confirm_loop es lsn (confirm_prefix [e] l))"
proof -
  have e: "entry_ok l e" using ok q by (simp add: queue_ok_def)
  then have t: "le_txn (lb_entries l e) = Some e" and st: "tx_status (lb_txns l e) = TXN_PREPARED" by (simp_all add: entry_ok_def)
  consider "confirm_stops lsn l e" | "\<not> confirm_stops lsn l e" "unwritten l e" | "\<not> confirm_stops lsn l e" "\<not> unwritten l e" by blast
  then show ?thesis
  proof cases
    case 2
    have "txn_limbo_remove e (upd_txn e (\<lambda>tx. tx\<lparr>tx_wait_sync := False\<rparr>) l) =
        Some ((upd_txn e (\<lambda>tx. tx\<lparr>tx_wait_sync := False\<rparr>) l)\<lparr>lb_queue := es, lb_len := lb_len l - 1\<rparr>)" (is "_ = Some ?l")
      using q by (simp add: txn_limbo_remove_def limbo_defs)
    moreover have "emit (EvPlain e) (upd_entry e (\<lambda>en. en\<lparr>le_txn := None\<rparr>) ?l) = confirm_prefix [e] l"
      using 2 q by (intro limbo_eqI)
        (auto simp: limbo_defs confirm_prefix_def confirmed_entry_def confirmed_txn_def confirm_events_def)
    moreover have "\<not> tx_wait_ack (lb_txns l e)" "tx_signature (lb_txns l e) = TXN_SIGNATURE_UNKNOWN"
      using 2 by (simp_all add: unwritten_def)
    ultimately show ?thesis using 2(1) t st by simp
  next
    case 3
    then have sig: "0 \<le> sint (tx_signature (lb_txns l e))" using e by (auto simp: entry_ok_def confirm_stops_def unwritten_def)
    have "txn_limbo_remove e (upd_entry e (\<lambda>en. en\<lparr>le_is_commit := True\<rparr>) l) =
        Some ((upd_entry e (\<lambda>en. en\<lparr>le_is_commit := True\<rparr>) l)\<lparr>lb_queue := es, lb_len := lb_len l - 1\<rparr>)" (is "_ = Some ?l")
      using q by (simp add: txn_limbo_remove_def limbo_defs)
    moreover have "txn_complete_success e (clear_sync_flags e ?l) = Some (confirm_prefix [e] l)"
    proof -
      have "txn_free_or_wakeup e (emit (EvCommit e) (upd_txn e (\<lambda>tx. tx\<lparr>tx_status := TXN_COMMITTED\<rparr>) (clear_sync_flags e ?l))) =
          confirm_prefix [e] l"
        using 3 q e by (intro limbo_eqI)
          (auto simp: limbo_defs confirm_prefix_def confirmed_entry_def confirmed_txn_def confirm_events_def entry_ok_def)
      moreover have "\<not> tx_is_done (lb_txns (clear_sync_flags e ?l) e)" "\<not> tx_wait_sync (lb_txns (clear_sync_flags e ?l) e)"
        "0 \<le> sint (tx_signature (lb_txns (clear_sync_flags e ?l) e))"
        using sig e by (simp_all add: limbo_defs entry_ok_def)
      ultimately show ?thesis by (simp add: txn_complete_success_eq)
    qed
    moreover have "0 \<le> sint (tx_signature (lb_txns (clear_sync_flags e ?l) e))" using sig by (simp add: limbo_defs)
    moreover have "\<not> (tx_wait_ack (lb_txns l e) \<and> (sint lsn < sint (le_lsn (lb_entries l e)) \<or> le_lsn (lb_entries l e) = - 1))"
      "\<not> (\<not> tx_wait_ack (lb_txns l e) \<and> tx_signature (lb_txns l e) = TXN_SIGNATURE_UNKNOWN)"
      using 3 by (simp_all add: confirm_stops_def unwritten_def)
    ultimately show ?thesis using 3(1) by (simp only: read_confirm_loop.simps t bind.bind_lunit Let_def if_False c_assert_True option.simps not_False_eq_True)
  qed (use e in \<open>simp add: entry_ok_def confirm_stops_def\<close>)
qed


lemma read_confirm_loop_eq:
  "queue_ok l \<Longrightarrow> read_confirm_loop (lb_queue l) lsn l =
     Some (confirm_prefix (takeWhile (\<lambda>e. \<not> confirm_stops lsn l e) (lb_queue l)) l)"
proof (induction "lb_queue l" arbitrary: l)
  case (Cons e es)
  note q = Cons.hyps(2)[symmetric]
  show ?case
  proof (cases "confirm_stops lsn l e")
    case False
    let ?l = "confirm_prefix [e] l"
    have e: "e \<notin> set es" using Cons.prems q by (auto simp: queue_ok_def)
    have "confirm_stops lsn ?l x = confirm_stops lsn l x" if "x \<in> set es" for x
      using e that by (auto simp: confirm_stops_def)
    then have same: "takeWhile (\<lambda>x. \<not> confirm_stops lsn ?l x) es = takeWhile (\<lambda>x. \<not> confirm_stops lsn l x) es"
      by (intro takeWhile_cong) auto
    have "read_confirm_loop es lsn ?l = Some (confirm_prefix (takeWhile (\<lambda>x. \<not> confirm_stops lsn ?l x) es) ?l)"
      using Cons.hyps(1)[of ?l] confirm_prefix_ok[OF Cons.prems q] q by simp
    moreover have "e \<notin> set (takeWhile (\<lambda>x. \<not> confirm_stops lsn l x) es)" using e by (auto dest: set_takeWhileD)
    ultimately show ?thesis
      using False confirm_one[OF Cons.prems q] q by (simp add: same confirm_prefix_Cons)
  qed (use confirm_one[OF Cons.prems q] q in simp)
qed simp

lemma read_confirm_eq:
  assumes "queue_ok l" and "lb_owner_id l \<noteq> REPLICA_ID_NIL \<or> lb_queue l = []"
  shows "txn_limbo_read_confirm lsn l = Some (confirm_prefix (takeWhile (\<lambda>e. \<not> confirm_stops lsn l e) (lb_queue l)) l)"
  using assms by (simp add: txn_limbo_read_confirm_def txn_limbo_is_empty_def read_confirm_loop_eq bind_c_assert)

lemma abort_suffix_sel [simp]:
  "lb_queue (abort_suffix sig evs S l) = take (length (lb_queue l) - length S) (lb_queue l)"
  "lb_len (abort_suffix sig evs S l) = lb_len l - of_nat (length S)"
  "lb_owner_id (abort_suffix sig evs S l) = lb_owner_id l"
  "lb_vclock (abort_suffix sig evs S l) = lb_vclock l"
  "lb_promote_term_map (abort_suffix sig evs S l) = lb_promote_term_map l"
  "lb_promote_greatest_term (abort_suffix sig evs S l) = lb_promote_greatest_term l"
  "lb_confirmed_lsn (abort_suffix sig evs S l) = lb_confirmed_lsn l"
  "lb_rollback_count (abort_suffix sig evs S l) = lb_rollback_count l + of_nat (length S)"
  "lb_is_in_rollback (abort_suffix sig evs S l) = lb_is_in_rollback l"
  "lb_entries (abort_suffix sig evs S l) e = (if e \<in> set S then (lb_entries l e)\<lparr>le_is_rollback := True\<rparr> else lb_entries l e)"
  "lb_txns (abort_suffix sig evs S l) e = (if e \<in> set S then aborted_txn sig l e else lb_txns l e)"
  "lb_log (abort_suffix sig evs S l) = lb_log l @ evs"
  by (simp_all add: abort_suffix_def)

lemma abort_suffix_Nil [simp]: "abort_suffix sig [] [] l = l"
  by (rule limbo_eqI) simp_all

text \<open>One turn of either rollback loop.\<close>

definition abort_events :: "limbo \<Rightarrow> nat \<Rightarrow> limbo_event list" where
  "abort_events l e = EvAbort e # (if tx_fiber (lb_txns l e) then [EvWakeup e] else [])"

lemma txn_limbo_abort_eq:
  assumes "distinct (lb_queue l)" and "lb_queue l = R @ [e]"
  shows "txn_limbo_abort e l =
    Some ((upd_entry e (\<lambda>en. en\<lparr>le_is_rollback := True\<rparr>) l)\<lparr>lb_queue := R, lb_len := lb_len l - 1, lb_rollback_count := lb_rollback_count l + 1\<rparr>)"
  using assms by (simp add: txn_limbo_abort_def txn_limbo_pop_def limbo_defs remove1_append)

lemma abort_one:
  assumes "distinct (lb_queue l)" and "lb_queue l = R @ [e]" and "\<not> tx_is_done (lb_txns l e)"
    and "sint sig < 0" and "sig \<noteq> TXN_SIGNATURE_UNKNOWN"
    and "txn_limbo_abort e l = Some l1"
  shows "txn_complete_fail e (upd_txn e (\<lambda>tx. tx\<lparr>tx_signature := sig\<rparr>) (clear_sync_flags e l1)) =
    Some (abort_suffix sig (abort_events l e) [e] l)"
proof -
  let ?l = "upd_txn e (\<lambda>tx. tx\<lparr>tx_signature := sig\<rparr>) (clear_sync_flags e l1)"
  have l1: "l1 = (upd_entry e (\<lambda>en. en\<lparr>le_is_rollback := True\<rparr>) l)
      \<lparr>lb_queue := R, lb_len := lb_len l - 1, lb_rollback_count := lb_rollback_count l + 1\<rparr>"
    using txn_limbo_abort_eq[OF assms(1,2)] assms(6) by simp
  have "\<not> tx_is_done (lb_txns ?l e)" "tx_signature (lb_txns ?l e) = sig"
    using assms(3) by (simp_all add: l1 limbo_defs)
  moreover have "txn_free_or_wakeup e (emit (EvAbort e) (upd_txn e (\<lambda>tx. tx\<lparr>tx_status := TXN_ABORTED\<rparr>) ?l)) =
      abort_suffix sig (abort_events l e) [e] l"
    using assms(2,3) by (intro limbo_eqI) (auto simp: l1 limbo_defs aborted_txn_def abort_events_def)
  ultimately show ?thesis using assms(4,5) by (simp add: txn_complete_fail_eq)
qed

lemma abort_suffix_snoc:
  assumes "e \<notin> set S"
  shows "abort_suffix sig evs' S (abort_suffix sig evs [e] l) = abort_suffix sig (evs @ evs') (S @ [e]) l"
proof -
  have "aborted_txn sig (abort_suffix sig evs [e] l) x = aborted_txn sig l x" if "x \<in> set S" for x
    using assms that by (auto simp: aborted_txn_def)
  then show ?thesis by (intro limbo_eqI) (use assms in \<open>auto simp: min_def\<close>)
qed

lemma abort_suffix_keeps:
  assumes "queue_ok l" and "lb_queue l = R @ [e]"
  shows "queue_ok (abort_suffix sig evs [e] l)"
proof -
  have "entry_ok (abort_suffix sig evs [e] l) x = entry_ok l x" if "x \<in> set R" for x
    using assms that by (auto simp: entry_ok_def queue_ok_def)
  then show ?thesis using assms by (auto simp: queue_ok_def)
qed

text \<open>
  Both rollback loops go backwards to the entry they were given.  \<open>extra\<close> are the events of a turn that is
  not the last one, \<open>P\<close> is what a turn needs of the transaction.
\<close>

definition rollback_events :: "(nat \<Rightarrow> limbo_event list) \<Rightarrow> limbo \<Rightarrow> nat list \<Rightarrow> limbo_event list" where
  "rollback_events extra l S =
     concat (map (\<lambda>e. abort_events l e @ extra e) (rev (tl S))) @ abort_events l (hd S)"

lemma rollback_loop_eq:
  assumes turn: "\<And>e es l R. queue_ok l \<Longrightarrow> lb_queue l = R @ [e] \<Longrightarrow> P (lb_txns l e) \<Longrightarrow>
      loop (e # es) l = (if e = lst then Some (abort_suffix sig (abort_events l e) [e] l)
        else loop es (abort_suffix sig (abort_events l e @ extra e) [e] l))"
    and "queue_ok l" and "lb_queue l = R @ lst # S" and "\<forall>e\<in>set (lst # S). P (lb_txns l e)"
  shows "loop (rev (lb_queue l)) l = Some (abort_suffix sig (rollback_events extra l (lst # S)) (lst # S) l)"
  using assms(2-)
proof (induction S arbitrary: l rule: rev_induct)
  case (snoc e S)
  let ?l = "abort_suffix sig (abort_events l e @ extra e) [e] l"
  let ?T = "lst # S"
  have q: "lb_queue l = (R @ ?T) @ [e]" using snoc.prems(2) by simp
  have ne: "x \<noteq> e" if "x \<in> set ?T" for x using q snoc.prems(1) that by (auto simp: queue_ok_def)
  have ev: "rollback_events extra ?l ?T = rollback_events extra l ?T"
    using ne by (auto simp: rollback_events_def abort_events_def intro!: arg_cong[of _ _ concat])
  have "loop (rev (R @ ?T)) ?l = Some (abort_suffix sig (rollback_events extra ?l ?T) ?T ?l)"
    using snoc.IH[of ?l] abort_suffix_keeps[OF snoc.prems(1) q] snoc.prems(3) q ne by auto
  moreover have "loop (rev (lb_queue l)) l = loop (rev (R @ ?T)) ?l"
    using turn[OF snoc.prems(1) q] snoc.prems(3) ne by (auto simp: q)
  moreover have "rollback_events extra l (lst # S @ [e]) = (abort_events l e @ extra e) @ rollback_events extra l ?T"
    by (simp add: rollback_events_def)
  ultimately show ?case
    unfolding ev using ne by (subst (asm) abort_suffix_snoc) auto
next
  case Nil
  then show ?case using turn[OF Nil.prems(1,2)] by (simp add: rollback_events_def)
qed

lemma read_rollback_turn:
  assumes "queue_ok l" and "lb_queue l = R @ [e]" and "0 \<le> sint (tx_signature (lb_txns l e))"
  shows "read_rollback_loop (e # es) lst l =
    (if e = lst then Some (abort_suffix TXN_SIGNATURE_SYNC_ROLLBACK (abort_events l e) [e] l)
     else read_rollback_loop es lst (abort_suffix TXN_SIGNATURE_SYNC_ROLLBACK (abort_events l e @ []) [e] l))"
proof -
  have d: "distinct (lb_queue l)" and e: "entry_ok l e" using assms by (simp_all add: queue_ok_def)
  obtain l1 where l1: "txn_limbo_abort e l = Some l1" using txn_limbo_abort_eq[OF d assms(2)] by simp
  have "lb_entries l1 e = (lb_entries l e)\<lparr>le_is_rollback := True\<rparr>" "lb_txns l1 = lb_txns l"
    using l1 txn_limbo_abort_eq[OF d assms(2)] by (auto simp: limbo_defs)
  then show ?thesis
    using l1 e abort_one[OF d assms(2) _ _ _ l1, of TXN_SIGNATURE_SYNC_ROLLBACK] assms(3)
    by (auto simp: entry_ok_def clear_sync_flags_def upd_txn_def)
qed

lemma timeout_rollback_turn:
  assumes "queue_ok l" and "lb_queue l = R @ [e]"
  shows "timeout_rollback_loop (e # es) lst l =
    (if e = lst then Some (abort_suffix TXN_SIGNATURE_QUORUM_TIMEOUT (abort_events l e) [e] l)
     else timeout_rollback_loop es lst (abort_suffix TXN_SIGNATURE_QUORUM_TIMEOUT (abort_events l e @ [EvWakeup e]) [e] l))"
proof -
  let ?sign = "upd_txn e (\<lambda>tx. tx\<lparr>tx_signature := TXN_SIGNATURE_QUORUM_TIMEOUT\<rparr>)"
  have d: "distinct (lb_queue l)" and e: "entry_ok l e" using assms by (simp_all add: queue_ok_def)
  obtain l1 where l1: "txn_limbo_abort e l = Some l1" using txn_limbo_abort_eq[OF d assms(2)] by simp
  then have abort: "txn_limbo_abort e (?sign l) = Some (?sign l1)"
    using txn_limbo_abort_eq[OF d assms(2)] txn_limbo_abort_eq[of "?sign l" R e] d assms(2) by (auto simp: limbo_defs)
  have swap: "clear_sync_flags e (?sign l1) = ?sign (clear_sync_flags e l1)"
    by (intro limbo_eqI) (simp_all add: limbo_defs)
  have wake: "emit (EvWakeup e) (abort_suffix TXN_SIGNATURE_QUORUM_TIMEOUT (abort_events l e) [e] l) =
      abort_suffix TXN_SIGNATURE_QUORUM_TIMEOUT (abort_events l e @ [EvWakeup e]) [e] l"
    by (intro limbo_eqI) (simp_all add: emit_def)
  have "le_txn (lb_entries l e) = Some e" "\<not> tx_is_done (lb_txns l e)" using e by (simp_all add: entry_ok_def)
  then show ?thesis
    using abort abort_one[OF d assms(2) _ _ _ l1, of TXN_SIGNATURE_QUORUM_TIMEOUT] by (simp add: swap wake)
qed

lemma read_rollback_loop_eq:
  assumes "queue_ok l" and "lb_queue l = R @ lst # S" and "\<forall>e\<in>set (lst # S). 0 \<le> sint (tx_signature (lb_txns l e))"
  shows "read_rollback_loop (rev (lb_queue l)) lst l =
    Some (abort_suffix TXN_SIGNATURE_SYNC_ROLLBACK (rollback_events (\<lambda>_. []) l (lst # S)) (lst # S) l)"
  by (rule rollback_loop_eq[where P = "\<lambda>tx. 0 \<le> sint (tx_signature tx)" and loop = "\<lambda>es. read_rollback_loop es lst"])
    (use read_rollback_turn assms in auto)

lemma timeout_rollback_loop_eq:
  assumes "queue_ok l" and "lb_queue l = R @ lst # S"
  shows "timeout_rollback_loop (rev (lb_queue l)) lst l =
    Some (abort_suffix TXN_SIGNATURE_QUORUM_TIMEOUT (rollback_events (\<lambda>e. [EvWakeup e]) l (lst # S)) (lst # S) l)"
  by (rule rollback_loop_eq[where P = "\<lambda>_. True" and loop = "\<lambda>es. timeout_rollback_loop es lst"])
    (use timeout_rollback_turn assms in auto)

section \<open>Promotion\<close>

abbreviation synchronous :: "limbo \<Rightarrow> nat \<Rightarrow> bool" where
  "synchronous l e \<equiv> tx_wait_ack (lb_txns l e)"

abbreviation lsn_of :: "limbo \<Rightarrow> nat \<Rightarrow> int" where
  "lsn_of l e \<equiv> sint (le_lsn (lb_entries l e))"

lemma rollback_scan_all:
  "\<forall>e\<in>set q. le_txn (lb_entries l e) = Some e \<Longrightarrow> \<forall>e\<in>set q. synchronous l e \<longrightarrow> sint lsn \<le> lsn_of l e \<Longrightarrow>
   rollback_scan (rev q) lsn l acc = Some (case filter (synchronous l) q of [] \<Rightarrow> acc | e # _ \<Rightarrow> Some e)"
  by (induction q arbitrary: acc rule: rev_induct) (auto split: list.splits)

text \<open>The queue in the order of LSNs, everything in the journal.\<close>

definition queue_written :: "limbo \<Rightarrow> bool" where
  "queue_written l \<longleftrightarrow> sorted_wrt (<) (map (lsn_of l) (filter (synchronous l) (lb_queue l))) \<and>
     (\<forall>e\<in>set (lb_queue l). 0 \<le> sint (tx_signature (lb_txns l e)) \<and> (synchronous l e \<longrightarrow> le_lsn (lb_entries l e) \<noteq> - 1))"

text \<open>The entries a confirmation covers, and the others.\<close>

definition covered :: "i64 \<Rightarrow> limbo \<Rightarrow> nat list" where
  "covered lsn l = takeWhile (\<lambda>e. \<not> confirm_stops lsn l e) (lb_queue l)"

definition uncovered :: "i64 \<Rightarrow> limbo \<Rightarrow> nat list" where
  "uncovered lsn l = dropWhile (\<lambda>e. \<not> confirm_stops lsn l e) (lb_queue l)"

lemma covered_uncovered: "lb_queue l = covered lsn l @ uncovered lsn l"
  by (simp add: covered_def uncovered_def)

lemma confirm_prefix_queue_ok:
  assumes "queue_ok l" and "lb_queue l = P @ R"
  shows "queue_ok (confirm_prefix P l)"
proof -
  have "entry_ok (confirm_prefix P l) x = entry_ok l x" if "x \<in> set R" for x
    using assms that by (auto simp: entry_ok_def queue_ok_def)
  then show ?thesis using assms by (auto simp: queue_ok_def)
qed

lemma uncovered_above:
  assumes "queue_written l" and "uncovered lsn l = e # S"
  shows "synchronous l e" and "sint lsn < lsn_of l e" and "\<forall>x\<in>set S. synchronous l x \<longrightarrow> sint lsn < lsn_of l x"
proof -
  have e: "confirm_stops lsn l e"
    using assms(2) unfolding uncovered_def by (simp add: dropWhile_eq_Cons_conv)
  then show s: "synchronous l e" by (simp add: confirm_stops_def)
  show lt: "sint lsn < lsn_of l e"
    using e assms covered_uncovered[of l lsn] by (auto simp: confirm_stops_def queue_written_def)
  have "filter (synchronous l) (lb_queue l) = filter (synchronous l) (covered lsn l) @ e # filter (synchronous l) S"
    using s assms(2) by (subst covered_uncovered[of l lsn]) simp
  then have "\<forall>x\<in>set (filter (synchronous l) S). lsn_of l e < lsn_of l x"
    using assms(1) by (simp add: queue_written_def sorted_wrt_append)
  then show "\<forall>x\<in>set S. synchronous l x \<longrightarrow> sint lsn < lsn_of l x" using lt by auto
qed

lemma sint_plus_1: "sint (x :: i64) < 2 ^ 63 - 1 \<Longrightarrow> sint (x + 1) = sint x + 1"
  using sint_add_eq[of x 1] sint_greater_eq[of x] by simp

definition promoted :: "i64 \<Rightarrow> limbo \<Rightarrow> limbo" where
  "promoted lsn l =
     (case uncovered lsn l of
        [] \<Rightarrow> confirm_prefix (covered lsn l) l
      | _ \<Rightarrow> abort_suffix TXN_SIGNATURE_SYNC_ROLLBACK (rollback_events (\<lambda>_. []) l (uncovered lsn l)) (uncovered lsn l)
               (confirm_prefix (covered lsn l) l))"

lemma read_promote_eq:
  assumes ok: "queue_ok l" and owner: "lb_owner_id l \<noteq> REPLICA_ID_NIL \<or> lb_queue l = []"
    and w: "queue_written l" and lsn: "sint lsn < 2 ^ 63 - 1"
  shows "txn_limbo_read_promote r lsn l =
    Some ((emit EvRoSummary ((promoted lsn l)\<lparr>lb_owner_id := r\<rparr>))\<lparr>lb_confirmed_lsn := 0\<rparr>)"
proof -
  let ?P = "covered lsn l" and ?R = "uncovered lsn l"
  let ?l = "confirm_prefix ?P l"
  note q = covered_uncovered[of l lsn]
  have confirm: "txn_limbo_read_confirm lsn l = Some ?l" using read_confirm_eq[OF ok owner] by (simp add: covered_def)
  have ok1: "queue_ok ?l" by (rule confirm_prefix_queue_ok[OF ok q])
  have q1: "lb_queue ?l = ?R" using q by (simp add: covered_def uncovered_def dropWhile_eq_drop)
  have disj: "x \<notin> set ?P" if "x \<in> set ?R" for x
    using ok q that unfolding queue_ok_def by (metis disjoint_iff distinct_append)
  have owner1: "lb_owner_id ?l \<noteq> REPLICA_ID_NIL \<or> lb_queue ?l = []" using owner q q1 by auto
  have "txn_limbo_read_rollback (lsn + 1) ?l = Some (promoted lsn l)"
  proof (cases ?R)
    case Nil
    then show ?thesis using q1 by (simp add: txn_limbo_read_rollback_def promoted_def txn_limbo_is_empty_def bind_c_assert)
  next
    case (Cons e S)
    note above = uncovered_above[OF w Cons]
    have sync: "synchronous ?l x = synchronous l x" "lsn_of ?l x = lsn_of l x" if "x \<in> set (e # S)" for x
      using disj that Cons by auto
    have "rollback_scan (rev (lb_queue ?l)) (lsn + 1) ?l None = Some (Some e)"
    proof -
      have "\<forall>x\<in>set (e # S). le_txn (lb_entries ?l x) = Some x" using ok1 q1 Cons by (simp add: queue_ok_def entry_ok_def)
      moreover have "\<forall>x\<in>set (e # S). synchronous ?l x \<longrightarrow> sint (lsn + 1) \<le> lsn_of ?l x"
        using above sync sint_plus_1[OF lsn] by auto
      moreover have "synchronous ?l e" using above(1) sync by simp
      ultimately show ?thesis using rollback_scan_all[of "e # S" ?l "lsn + 1" None] q1 Cons by simp
    qed
    moreover have "read_rollback_loop (rev (lb_queue ?l)) e ?l =
        Some (abort_suffix TXN_SIGNATURE_SYNC_ROLLBACK (rollback_events (\<lambda>_. []) ?l (e # S)) (e # S) ?l)"
    proof -
      have "\<forall>x\<in>set (e # S). 0 \<le> sint (tx_signature (lb_txns ?l x))"
        using w q Cons disj unfolding queue_written_def by (metis Un_iff confirm_prefix_sel(11) set_append)
      then show ?thesis using read_rollback_loop_eq[OF ok1, of "[]" e S] q1 Cons by simp
    qed
    moreover have "rollback_events (\<lambda>_. []) ?l (e # S) = rollback_events (\<lambda>_. []) l (e # S)"
      using disj Cons by (auto simp: rollback_events_def abort_events_def intro!: arg_cong[of _ _ concat])
    ultimately show ?thesis
      using owner1 q1 Cons by (auto simp: txn_limbo_read_rollback_def promoted_def txn_limbo_is_empty_def bind_c_assert)
  qed
  moreover have "lb_queue (promoted lsn l) = []" using q1 by (auto simp: promoted_def split: list.splits)
  ultimately show ?thesis using confirm by (simp add: txn_limbo_read_promote_def txn_limbo_is_empty_def)
qed


lemma completions_simps [simp]:
  "completions (emit ev l) = completions l @ (if completion ev then [ev] else [])"
  "completions (l\<lparr>lb_owner_id := r\<rparr>) = completions l"
  "completions (l\<lparr>lb_confirmed_lsn := x\<rparr>) = completions l"
  "completions (abort_suffix sig evs S l) = completions l @ filter completion evs"
  by (simp_all add: completions_def emit_def)

lemma completions_confirm_prefix:
  assumes "\<forall>e\<in>set P. \<not> unwritten l e"
  shows "completions (confirm_prefix P l) = completions l @ map EvCommit P"
proof -
  have "filter completion (concat (map (confirm_events l) P)) = map EvCommit P"
    using assms by (induction P) (auto simp: confirm_events_def)
  then show ?thesis by (simp add: completions_def)
qed

lemma filter_rollback_events:
  assumes "S \<noteq> []" and "\<And>e. filter completion (extra e) = []"
  shows "filter completion (rollback_events extra l S) = map EvAbort (rev S)"
proof -
  have "filter completion (concat (map (\<lambda>e. abort_events l e @ extra e) xs)) = map EvAbort xs" for xs
    using assms(2) by (induction xs) (auto simp: abort_events_def)
  then show ?thesis using assms(1) by (cases S) (auto simp: rollback_events_def abort_events_def)
qed

lemma promoted_result:
  assumes "queue_ok l" and "queue_written l"
  shows "lb_queue (promoted lsn l) = []"
    and "completions (promoted lsn l) = completions l @ map EvCommit (covered lsn l) @ map EvAbort (rev (uncovered lsn l))"
    and "lb_vclock (promoted lsn l) = lb_vclock l" "lb_promote_term_map (promoted lsn l) = lb_promote_term_map l"
    and "lb_promote_greatest_term (promoted lsn l) = lb_promote_greatest_term l"
    and "e \<in> set (covered lsn l) \<Longrightarrow> tx_status (lb_txns (promoted lsn l) e) = TXN_COMMITTED \<and> le_is_commit (lb_entries (promoted lsn l) e)"
    and "e \<in> set (uncovered lsn l) \<Longrightarrow> tx_status (lb_txns (promoted lsn l) e) = TXN_ABORTED \<and> le_is_rollback (lb_entries (promoted lsn l) e)"
proof -
  note q = covered_uncovered[of l lsn]
  have w: "\<not> unwritten l x" if "x \<in> set (lb_queue l)" for x using assms(2) that by (auto simp: queue_written_def unwritten_def)
  have drop: "drop (length (covered lsn l)) (lb_queue l) = uncovered lsn l"
    by (simp add: covered_def uncovered_def dropWhile_eq_drop)
  have disj: "x \<notin> set (uncovered lsn l)" if "x \<in> set (covered lsn l)" for x
    using assms(1) q that unfolding queue_ok_def by (metis disjoint_iff distinct_append)
  have wc: "\<forall>x\<in>set (covered lsn l). \<not> unwritten l x" using w q by (metis Un_iff set_append)
  show "lb_queue (promoted lsn l) = []" "lb_vclock (promoted lsn l) = lb_vclock l"
    "lb_promote_term_map (promoted lsn l) = lb_promote_term_map l"
    "lb_promote_greatest_term (promoted lsn l) = lb_promote_greatest_term l"
    using drop by (auto simp: promoted_def split: list.splits)
  show "completions (promoted lsn l) = completions l @ map EvCommit (covered lsn l) @ map EvAbort (rev (uncovered lsn l))"
    using completions_confirm_prefix[OF wc] filter_rollback_events[of "uncovered lsn l" "\<lambda>_. []"]
    by (auto simp: promoted_def split: list.splits)
  show "e \<in> set (covered lsn l) \<Longrightarrow> tx_status (lb_txns (promoted lsn l) e) = TXN_COMMITTED \<and> le_is_commit (lb_entries (promoted lsn l) e)"
    using disj[of e] wc by (auto simp: promoted_def confirmed_txn_def confirmed_entry_def split: list.splits)
  show "e \<in> set (uncovered lsn l) \<Longrightarrow> tx_status (lb_txns (promoted lsn l) e) = TXN_ABORTED \<and> le_is_rollback (lb_entries (promoted lsn l) e)"
    by (auto simp: promoted_def aborted_txn_def split: list.splits)
qed

section \<open>Terms\<close>

text \<open>The greatest term is the greatest of the terms that instances have sent.\<close>

definition terms_ok :: "limbo \<Rightarrow> bool" where
  "terms_ok l \<longleftrightarrow> vclock_wf (lb_promote_term_map l) \<and>
     (\<forall>i<VCLOCK_MAX. 0 \<le> sint (vclock_get (lb_promote_term_map l) i)) \<and>
     (\<forall>i<VCLOCK_MAX. vclock_get (lb_promote_term_map l) i \<le> lb_promote_greatest_term l) \<and>
     (\<exists>i<VCLOCK_MAX. vclock_get (lb_promote_term_map l) i = lb_promote_greatest_term l)"

text \<open>The limbo with the term of the request noted.\<close>

definition note_term :: "synchro_request \<Rightarrow> limbo \<Rightarrow> limbo option" where
  "note_term req l =
     (if txn_limbo_replica_term l (sr_origin_id req) < sr_term req
      then map_option (\<lambda>(_, v). l\<lparr>lb_promote_term_map := v, lb_promote_greatest_term := max (lb_promote_greatest_term l) (sr_term req)\<rparr>)
             (vclock_follow (lb_promote_term_map l) (unat (sr_origin_id req)) (sr_term req))
      else Some l)"

lemma word_less_sint_nonneg:
  fixes a b :: i64
  assumes "a < b" and "0 \<le> sint b"
  shows "sint a < sint b"
proof -
  have "sint b < 2 ^ 63" using sint_lt[of b] by simp
  then have "uint b = sint b" using assms(2) by (simp add: uint_sint take_bit_int_eq_self)
  moreover have "uint a < uint b" using assms(1) by (simp add: word_less_def)
  moreover have "sint a \<le> uint a" by (simp add: sint_uint signed_take_bit_int_less_eq_self_iff order_trans[OF _ uint_ge_0])
  ultimately show ?thesis by simp
qed

lemma note_term_spec:
  assumes "terms_ok l" and "unat (sr_origin_id req) < VCLOCK_MAX" and "0 \<le> sint (sr_term req)"
    and "txn_limbo_replica_term l (sr_origin_id req) < sr_term req"
  obtains v where "note_term req l =
      Some (l\<lparr>lb_promote_term_map := v, lb_promote_greatest_term := max (lb_promote_greatest_term l) (sr_term req)\<rparr>)"
    and "vclock_wf v"
    and "\<And>i. vclock_get v i = (if i = unat (sr_origin_id req) then sr_term req else vclock_get (lb_promote_term_map l) i)"
proof -
  have "sint (vclock_get (lb_promote_term_map l) (unat (sr_origin_id req))) < sint (sr_term req)"
    using word_less_sint_nonneg[OF _ assms(3)] assms(4) by (simp add: txn_limbo_replica_term_def)
  then obtain v where v: "vclock_follow (lb_promote_term_map l) (unat (sr_origin_id req)) (sr_term req) =
      Some (vclock_get (lb_promote_term_map l) (unat (sr_origin_id req)), v)" "vclock_wf v"
    "\<And>i. vclock_get v i = (if i = unat (sr_origin_id req) then sr_term req else vclock_get (lb_promote_term_map l) i)"
    using vclock_follow_spec[of "lb_promote_term_map l" "unat (sr_origin_id req)" "sr_term req"] assms(1-3)
    unfolding terms_ok_def by metis
  show ?thesis by (rule that[of v]) (use v assms(4) in \<open>simp_all add: note_term_def\<close>)
qed

lemma note_term_SomeD:
  assumes "note_term req l = Some l'" and "txn_limbo_replica_term l (sr_origin_id req) < sr_term req"
  shows "unat (sr_origin_id req) < VCLOCK_MAX" and "0 \<le> sint (sr_term req)"
  using assms vclock_follow_SomeD by (auto simp: note_term_def)

lemma note_term_keeps:
  assumes "note_term req l = Some l'" and "terms_ok l"
  shows "terms_ok l' \<and> lb_promote_greatest_term l \<le> lb_promote_greatest_term l' \<and>
    (\<forall>i<VCLOCK_MAX. vclock_get (lb_promote_term_map l) i \<le> vclock_get (lb_promote_term_map l') i)"
proof (cases "txn_limbo_replica_term l (sr_origin_id req) < sr_term req")
  case True
  note o = note_term_SomeD[OF assms(1) True]
  from note_term_spec[OF assms(2) o True] assms(1) obtain v where
    l': "l' = l\<lparr>lb_promote_term_map := v, lb_promote_greatest_term := max (lb_promote_greatest_term l) (sr_term req)\<rparr>" and "vclock_wf v"
    and v: "\<And>i. vclock_get v i = (if i = unat (sr_origin_id req) then sr_term req else vclock_get (lb_promote_term_map l) i)"
    by auto
  obtain k where k: "k < VCLOCK_MAX" "vclock_get (lb_promote_term_map l) k = lb_promote_greatest_term l"
    using assms(2) by (auto simp: terms_ok_def)
  have max: "\<exists>i<VCLOCK_MAX. vclock_get v i = max (lb_promote_greatest_term l) (sr_term req)"
  proof (cases "lb_promote_greatest_term l < sr_term req")
    case True
    then show ?thesis using o(1) v by (intro exI[of _ "unat (sr_origin_id req)"]) (auto simp: max_def)
  next
    case False
    then have "k \<noteq> unat (sr_origin_id req) \<or> lb_promote_greatest_term l = sr_term req"
      using True k by (auto simp: txn_limbo_replica_term_def)
    then show ?thesis using False k v by (intro exI[of _ k]) (auto simp: max_def)
  qed
  show ?thesis
    using assms(2) o max v \<open>vclock_wf v\<close> True
    by (auto simp: terms_ok_def l' txn_limbo_replica_term_def le_max_iff_disj intro: less_imp_le)
qed (use assms in \<open>auto simp: note_term_def\<close>)

lemma txn_limbo_process_eq:
  "txn_limbo_process req l =
     (if \<not> txn_limbo_replica_term l (sr_origin_id req) < sr_term req \<and>
         iproto_type_is_promote_request (sr_type req) \<and> 1 < lb_promote_greatest_term l then Some l
      else do {
        l \<leftarrow> note_term req l;
        if sr_replica_id req = REPLICA_ID_NIL \<and> \<not> (sr_lsn req = 0 \<and> iproto_type_is_promote_request (sr_type req)) then None
        else
          let foreign = (sr_replica_id req \<noteq> REPLICA_ID_NIL \<and> sr_replica_id req \<noteq> lb_owner_id l);
              lsn = (if foreign then 0 else sr_lsn req)
          in if foreign \<and> \<not> iproto_type_is_promote_request (sr_type req) then Some l
             else (case sr_type req of
               IPROTO_CONFIRM \<Rightarrow> txn_limbo_read_confirm lsn l
             | IPROTO_ROLLBACK \<Rightarrow> txn_limbo_read_rollback lsn l
             | IPROTO_PROMOTE \<Rightarrow> txn_limbo_read_promote (sr_origin_id req) lsn l
             | IPROTO_DEMOTE \<Rightarrow> txn_limbo_read_demote lsn l) })"
proof -
  have max: "(if lb_promote_greatest_term l < sr_term req then l\<lparr>lb_promote_term_map := v, lb_promote_greatest_term := sr_term req\<rparr>
      else l\<lparr>lb_promote_term_map := v\<rparr>) =
    l\<lparr>lb_promote_term_map := v, lb_promote_greatest_term := max (lb_promote_greatest_term l) (sr_term req)\<rparr>" for v
    by (simp add: max_def)
  have body: "(do { (foreign, l) \<leftarrow>
         (if sr_replica_id req = REPLICA_ID_NIL
          then map_option (Pair False) (c_assert (sr_lsn req = 0 \<and> iproto_type_is_promote_request (sr_type req)) l)
          else Some (sr_replica_id req \<noteq> lb_owner_id l, l));
       k foreign l }) =
    (if sr_replica_id req = REPLICA_ID_NIL \<and> \<not> (sr_lsn req = 0 \<and> iproto_type_is_promote_request (sr_type req)) then None
     else k (sr_replica_id req \<noteq> REPLICA_ID_NIL \<and> sr_replica_id req \<noteq> lb_owner_id l) l)" for k :: "bool \<Rightarrow> limbo \<Rightarrow> limbo option" and l
    by (simp add: c_assert_def)
  show ?thesis
  proof (cases "txn_limbo_replica_term l (sr_origin_id req) < sr_term req")
    case True
    then show ?thesis
      unfolding txn_limbo_process_def note_term_def body Let_def
      by (cases "vclock_follow (lb_promote_term_map l) (unat (sr_origin_id req)) (sr_term req)") (simp_all add: max split_beta)
  next
    case False
    then show ?thesis unfolding txn_limbo_process_def note_term_def body Let_def by simp
  qed
qed

definition same_terms :: "limbo \<Rightarrow> limbo \<Rightarrow> bool" where
  "same_terms l l' \<longleftrightarrow> lb_promote_term_map l' = lb_promote_term_map l \<and> lb_promote_greatest_term l' = lb_promote_greatest_term l"

lemma same_terms_refl [simp]: "same_terms l l"
  by (simp add: same_terms_def)

lemma same_terms_ops:
  "same_terms l (emit ev l1) = same_terms l l1"
  "same_terms l (upd_entry e f l1) = same_terms l l1"
  "same_terms l (upd_txn t g l1) = same_terms l l1"
  "same_terms l (clear_sync_flags t l1) = same_terms l l1"
  "same_terms l (txn_free_or_wakeup t l1) = same_terms l l1"
  "same_terms l (l1\<lparr>lb_owner_id := r\<rparr>) = same_terms l l1"
  "same_terms l (l1\<lparr>lb_confirmed_lsn := x\<rparr>) = same_terms l l1"
  by (simp_all add: same_terms_def limbo_defs)

lemma same_terms_steps:
  "same_terms l l1 \<Longrightarrow> txn_limbo_remove e l1 = Some l2 \<Longrightarrow> same_terms l l2"
  "same_terms l l1 \<Longrightarrow> txn_limbo_abort e l1 = Some l2 \<Longrightarrow> same_terms l l2"
  "same_terms l l1 \<Longrightarrow> txn_complete_success t l1 = Some l2 \<Longrightarrow> same_terms l l2"
  "same_terms l l1 \<Longrightarrow> txn_complete_fail t l1 = Some l2 \<Longrightarrow> same_terms l l2"
  by (auto simp: same_terms_def txn_limbo_remove_def txn_limbo_abort_def txn_limbo_pop_def txn_complete_success_def
      txn_complete_fail_def limbo_defs bind_c_assert split: if_splits)

lemma same_terms_confirm_loop:
  "read_confirm_loop es lsn l1 = Some l2 \<Longrightarrow> same_terms l l1 \<Longrightarrow> same_terms l l2"
proof (induction es arbitrary: l1)
  case (Cons e es)
  from Cons.prems(1) obtain t where t: "le_txn (lb_entries l1 e) = Some t" by (auto simp: bind_eq_Some_conv)
  consider "l2 = l1"
    | l3 where "txn_limbo_remove e (upd_txn t (\<lambda>tx. tx\<lparr>tx_wait_sync := False\<rparr>) l1) = Some l3"
        "read_confirm_loop es lsn (emit (EvPlain t) (upd_entry e (\<lambda>en. en\<lparr>le_txn := None\<rparr>) l3)) = Some l2"
    | l3 l4 where "txn_limbo_remove e (upd_entry e (\<lambda>en. en\<lparr>le_is_commit := True\<rparr>) l1) = Some l3"
        "txn_complete_success t (clear_sync_flags t l3) = Some l4" "read_confirm_loop es lsn l4 = Some l2"
    using Cons.prems(1) t by (auto simp: bind_eq_Some_conv bind_c_assert Let_def split: if_splits)
  then show ?case
  proof cases
    case 2
    have "same_terms l l3" using same_terms_steps(1)[OF _ 2(1)] Cons.prems(2) by (simp add: same_terms_ops)
    then show ?thesis using Cons.IH[OF 2(2)] by (simp add: same_terms_ops)
  next
    case 3
    have "same_terms l l3" using same_terms_steps(1)[OF _ 3(1)] Cons.prems(2) by (simp add: same_terms_ops)
    then have "same_terms l l4" using same_terms_steps(3)[OF _ 3(2)] by (simp add: same_terms_ops)
    then show ?thesis using Cons.IH[OF 3(3)] by simp
  qed (use Cons.prems in simp)
qed simp

lemma same_terms_rollback_loop:
  "read_rollback_loop es lst l1 = Some l2 \<Longrightarrow> same_terms l l1 \<Longrightarrow> same_terms l l2"
proof (induction es arbitrary: l1)
  case (Cons e es)
  from Cons.prems(1) obtain l3 t l4 where 1: "txn_limbo_abort e l1 = Some l3"
    and 2: "txn_complete_fail t (upd_txn t (\<lambda>tx. tx\<lparr>tx_signature := TXN_SIGNATURE_SYNC_ROLLBACK\<rparr>) (clear_sync_flags t l3)) = Some l4"
    and 3: "(if e = lst then Some l4 else read_rollback_loop es lst l4) = Some l2"
    by (auto simp: bind_eq_Some_conv bind_c_assert Let_def split: if_splits)
  have "same_terms l l3" using same_terms_steps(2)[OF Cons.prems(2) 1] .
  then have "same_terms l l4" using same_terms_steps(4)[OF _ 2] by (simp add: same_terms_ops)
  then show ?case using 3 Cons.IH[of l4] by (auto split: if_splits)
qed simp

lemma same_terms_requests:
  "txn_limbo_read_confirm lsn l = Some l' \<Longrightarrow> same_terms l l'"
  "txn_limbo_read_rollback lsn l = Some l' \<Longrightarrow> same_terms l l'"
  "txn_limbo_read_promote r lsn l = Some l' \<Longrightarrow> same_terms l l'"
  "txn_limbo_read_demote lsn l = Some l' \<Longrightarrow> same_terms l l'"
proof -
  show confirm: "txn_limbo_read_confirm lsn l = Some l' \<Longrightarrow> same_terms l l'" for lsn l l'
    by (auto simp: txn_limbo_read_confirm_def bind_c_assert split: if_splits intro: same_terms_confirm_loop)
  show rollback: "txn_limbo_read_rollback lsn l = Some l' \<Longrightarrow> same_terms l l'" for lsn l l'
    by (auto simp: txn_limbo_read_rollback_def bind_c_assert bind_eq_Some_conv split: if_splits option.splits
        intro: same_terms_rollback_loop)
  show promote: "txn_limbo_read_promote r lsn l = Some l' \<Longrightarrow> same_terms l l'" for r lsn l l'
    by (auto simp: txn_limbo_read_promote_def bind_c_assert bind_eq_Some_conv same_terms_ops same_terms_def
        dest!: confirm rollback split: if_splits) (auto simp: emit_def)
  show "txn_limbo_read_demote lsn l = Some l' \<Longrightarrow> same_terms l l'"
    unfolding txn_limbo_read_demote_def by (rule promote)
qed

section \<open>Acknowledgement counters\<close>

text \<open>The replicas that have acknowledged an LSN.\<close>

definition acks :: "vclock \<Rightarrow> i64 \<Rightarrow> nat set" where
  "acks v lsn = {i. i < VCLOCK_MAX \<and> sint lsn \<le> sint (vclock_get v i)}"

lemma finite_acks [simp]: "finite (acks v lsn)"
  by (simp add: acks_def)

lemma card_acks_le: "card (acks v lsn) \<le> VCLOCK_MAX"
  using card_mono[of "{i. i < VCLOCK_MAX}" "acks v lsn"] by (auto simp: acks_def)

lemma acks_antimono: "sint lsn \<le> sint lsn' \<Longrightarrow> acks v lsn' \<subseteq> acks v lsn"
  by (auto simp: acks_def)

lemma sum_list_indicator: "(\<Sum>x\<leftarrow>xs. if P x then 1 else 0) = int (length (filter P xs))"
  by (induction xs) auto

lemma count_acks_eq:
  assumes "0 < sint lsn"
  shows "count_acks v lsn = int (card (acks v lsn))"
proof -
  have "(\<Sum>i\<leftarrow>word_bits (vc_map v). if sint lsn \<le> sint (vclock_get v i) then 1 else 0) =
      int (length (filter (\<lambda>i. sint lsn \<le> sint (vclock_get v i)) (word_bits (vc_map v))))"
    by (rule sum_list_indicator)
  also have "\<dots> = int (card (set (filter (\<lambda>i. sint lsn \<le> sint (vclock_get v i)) (word_bits (vc_map v)))))"
    by (subst distinct_card) (simp_all add: word_bits_def)
  also have "set (filter (\<lambda>i. sint lsn \<le> sint (vclock_get v i)) (word_bits (vc_map v))) = acks v lsn"
    using assms by (auto simp: acks_def set_word_bits vclock_get_cases VCLOCK_MAX_def dest: bit_imp_le_length split: if_splits)
  finally show ?thesis by (simp add: count_acks_def vclock_foreach_eq comp_def)
qed

definition ack_ok :: "limbo \<Rightarrow> nat \<Rightarrow> bool" where
  "ack_ok l e \<longleftrightarrow> 0 \<le> le_ack_count (lb_entries l e) \<and>
     (le_lsn (lb_entries l e) = - 1 \<longrightarrow> le_ack_count (lb_entries l e) = 0) \<and>
     (le_lsn (lb_entries l e) \<noteq> - 1 \<longrightarrow> le_ack_count (lb_entries l e) \<le> int (card (acks (lb_vclock l) (le_lsn (lb_entries l e)))))"

lemma ack_ok_bound: "ack_ok l e \<Longrightarrow> le_ack_count (lb_entries l e) \<le> int VCLOCK_MAX"
  using card_acks_le[of "lb_vclock l" "le_lsn (lb_entries l e)"] by (cases "le_lsn (lb_entries l e) = - 1") (auto simp: ack_ok_def)

text \<open>The limbo after the entries in \<open>A\<close> have been acknowledged once more.\<close>

definition acked :: "nat set \<Rightarrow> limbo \<Rightarrow> limbo" where
  "acked A l = l\<lparr>lb_entries := (\<lambda>e. if e \<in> A then (lb_entries l e)\<lparr>le_ack_count := le_ack_count (lb_entries l e) + 1\<rparr> else lb_entries l e)\<rparr>"

lemma acked_sel [simp]:
  "lb_entries (acked A l) e = (if e \<in> A then (lb_entries l e)\<lparr>le_ack_count := le_ack_count (lb_entries l e) + 1\<rparr> else lb_entries l e)"
  "lb_queue (acked A l) = lb_queue l" "lb_len (acked A l) = lb_len l" "lb_owner_id (acked A l) = lb_owner_id l"
  "lb_vclock (acked A l) = lb_vclock l" "lb_confirmed_lsn (acked A l) = lb_confirmed_lsn l"
  "lb_is_in_rollback (acked A l) = lb_is_in_rollback l" "lb_txns (acked A l) = lb_txns l" "lb_log (acked A l) = lb_log l"
  by (simp_all add: acked_def)

lemma acked_insert: "e \<notin> A \<Longrightarrow> acked A (acked {e} l) = acked (insert e A) l"
  by (rule limbo_eqI) (auto simp: acked_def)

lemma acked_empty [simp]: "acked {} l = l"
  by (simp add: acked_def)

lemma ack_loop_spec:
  assumes "distinct es"
    and "\<forall>e\<in>set es. le_txn (lb_entries l e) = Some e \<and> le_ack_count (lb_entries l e) \<le> int VCLOCK_MAX \<and>
      (synchronous l e \<or> le_lsn (lb_entries l e) = - 1)"
  shows "\<exists>c A. ack_loop quorum prev lsn es c0 l = Some (c, acked A l) \<and>
    A \<subseteq> {e \<in> set es. synchronous l e \<and> sint prev < lsn_of l e \<and> lsn_of l e \<le> sint lsn} \<and>
    (c = c0 \<or> (\<exists>e\<in>A. c = le_lsn (lb_entries l e) \<and> quorum \<le> le_ack_count (lb_entries l e) + 1))"
  using assms
proof (induction es arbitrary: l c0)
  case (Cons e es)
  have e: "e \<notin> set es" "le_txn (lb_entries l e) = Some e" "le_ack_count (lb_entries l e) \<le> int VCLOCK_MAX"
    "synchronous l e \<or> le_lsn (lb_entries l e) = - 1" using Cons.prems by auto
  consider "sint lsn < lsn_of l e" | "lsn_of l e \<le> sint lsn" "\<not> (synchronous l e \<and> sint prev < lsn_of l e)"
    | "lsn_of l e \<le> sint lsn" "synchronous l e" "sint prev < lsn_of l e" by linarith
  then show ?case
  proof cases
    case 1
    then show ?thesis using e by (intro exI[of _ c0] exI[of _ "{}"]) (simp add: bind_c_assert)
  next
    case 2
    then have "ack_loop quorum prev lsn (e # es) c0 l = ack_loop quorum prev lsn es c0 l"
      using e by (auto simp: bind_c_assert)
    then show ?thesis using Cons.IH[of l c0] Cons.prems by fastforce
  next
    case 3
    let ?l = "acked {e} l" and ?c = "if le_ack_count (lb_entries l e) + 1 < quorum then c0 else le_lsn (lb_entries l e)"
    have "upd_entry e (\<lambda>en. en\<lparr>le_ack_count := le_ack_count en + 1\<rparr>) l = ?l"
      by (rule limbo_eqI) (auto simp: acked_def upd_entry_def)
    then have "ack_loop quorum prev lsn (e # es) c0 l = ack_loop quorum prev lsn es ?c ?l"
      using e 3 by (simp add: bind_c_assert Let_def)
    moreover have "\<forall>x\<in>set es. lb_entries ?l x = lb_entries l x" using e by auto
    ultimately obtain c A where A: "ack_loop quorum prev lsn (e # es) c0 l = Some (c, acked A ?l)"
      "A \<subseteq> {x \<in> set es. synchronous l x \<and> sint prev < lsn_of l x \<and> lsn_of l x \<le> sint lsn}"
      "c = ?c \<or> (\<exists>x\<in>A. c = le_lsn (lb_entries ?l x) \<and> quorum \<le> le_ack_count (lb_entries ?l x) + 1)"
      using Cons.IH[of ?l ?c] Cons.prems by fastforce
    have "e \<notin> A" using A(2) e(1) by auto
    then have "\<forall>x\<in>A. lb_entries ?l x = lb_entries l x" by auto
    then show ?thesis
      using A 3 \<open>e \<notin> A\<close> by (intro exI[of _ c] exI[of _ "insert e A"]) (auto simp: acked_insert not_less split: if_splits)
  qed
qed (auto intro: exI[of _ "{}"])

section \<open>Properties\<close>

text \<open>
  C14. Processing a PROMOTE settles every pending transaction.  When the queue is in the order of LSNs and in the
  journal, a PROMOTE of a newer term commits, in queue order, the entries up to its LSN with the asynchronous ones that
  depend only on them, and rolls back all others, the last one first; for a foreign owner the LSN counts as
  zero.  The queue is empty afterwards, the sender owns the limbo and no assertion fails.
\<close>

theorem limbo_promote_settles:
  assumes "queue_ok l" and "queue_written l" and "terms_ok l" and "lb_owner_id l \<noteq> REPLICA_ID_NIL \<or> lb_queue l = []"
    and "sr_type req = IPROTO_PROMOTE" and "unat (sr_origin_id req) < VCLOCK_MAX" and "0 \<le> sint (sr_term req)"
    and "txn_limbo_replica_term l (sr_origin_id req) < sr_term req"
    and "sr_replica_id req = REPLICA_ID_NIL \<Longrightarrow> sr_lsn req = 0" and "sint (sr_lsn req) < 2 ^ 63 - 1"
    and "lsn = (if sr_replica_id req \<noteq> REPLICA_ID_NIL \<and> sr_replica_id req \<noteq> lb_owner_id l then 0 else sr_lsn req)"
  shows "\<exists>l'. txn_limbo_process req l = Some l' \<and> lb_queue l' = [] \<and> lb_owner_id l' = sr_origin_id req \<and>
    completions l' = completions l @ map EvCommit (covered lsn l) @ map EvAbort (rev (uncovered lsn l)) \<and>
    (\<forall>e\<in>set (covered lsn l). tx_status (lb_txns l' e) = TXN_COMMITTED) \<and>
    (\<forall>e\<in>set (uncovered lsn l). tx_status (lb_txns l' e) = TXN_ABORTED)"
proof -
  from note_term_spec[OF assms(3,6,7,8)] obtain v where
    nt: "note_term req l = Some (l\<lparr>lb_promote_term_map := v, lb_promote_greatest_term := max (lb_promote_greatest_term l) (sr_term req)\<rparr>)"
    (is "_ = Some ?l") by blast
  have same: "queue_ok ?l" "queue_written ?l" "covered lsn ?l = covered lsn l" "uncovered lsn ?l = uncovered lsn l"
    "completions ?l = completions l"
    using assms(1,2)
    by (simp_all add: queue_ok_def entry_ok_def queue_written_def covered_def uncovered_def confirm_stops_def completions_def)
  have "sint lsn < 2 ^ 63 - 1" using assms(10,11) by simp
  then have "txn_limbo_read_promote (sr_origin_id req) lsn ?l =
      Some ((emit EvRoSummary ((promoted lsn ?l)\<lparr>lb_owner_id := sr_origin_id req\<rparr>))\<lparr>lb_confirmed_lsn := 0\<rparr>)"
    using read_promote_eq[OF same(1) _ same(2), of lsn] assms(4) by simp
  moreover have "txn_limbo_process req l = txn_limbo_read_promote (sr_origin_id req) lsn ?l"
    using assms(5,8,9,11) nt by (auto simp: txn_limbo_process_eq iproto_type_is_promote_request_def Let_def)
  ultimately show ?thesis
    using promoted_result[OF same(1,2), where lsn = lsn] same(3-5) by (simp add: emit_def completions_def)
qed

text \<open>A limbo of instance 1 with a synchronous transaction, an asynchronous one behind it and a second synchronous one.\<close>

definition sample_limbo :: limbo where
  "sample_limbo = \<lparr>lb_queue = [0, 1, 2], lb_len = 3, lb_owner_id = 1, lb_vclock = \<lparr>vc_map = 0, vc_signature = 0, vc_lsn = replicate VCLOCK_MAX 0\<rparr>,
     lb_promote_term_map = \<lparr>vc_map = 0, vc_signature = 0, vc_lsn = replicate VCLOCK_MAX 0\<rparr>, lb_promote_greatest_term = 0,
     lb_confirmed_lsn = 0, lb_rollback_count = 0, lb_is_in_rollback = False,
     lb_entries = (\<lambda>e. \<lparr>le_txn = Some e, le_lsn = (if e = 1 then - 1 else 5 + of_nat e), le_ack_count = 0, le_is_commit = False, le_is_rollback = False\<rparr>),
     lb_txns = (\<lambda>e. \<lparr>tx_is_done = False, tx_wait_sync = True, tx_wait_ack = (e \<noteq> 1), tx_signature = 9, tx_status = TXN_PREPARED, tx_fiber = False\<rparr>),
     lb_log = []\<rparr>"

lemma sample_limbo_ok: "queue_ok sample_limbo" "queue_written sample_limbo" "terms_ok sample_limbo"
  by (auto simp: sample_limbo_def queue_ok_def entry_ok_def txn_limbo_entry_is_complete_def queue_written_def
      terms_ok_def vclock_wf_def vclock_get_cases VCLOCK_MAX_def intro: exI[of _ 0])

theorem limbo_promote_settles_witness:
  "\<exists>l'. txn_limbo_process \<lparr>sr_type = IPROTO_PROMOTE, sr_replica_id = 1, sr_origin_id = 2, sr_lsn = 5, sr_term = 3\<rparr> sample_limbo = Some l' \<and>
     completions l' = [EvCommit 0, EvCommit 1, EvAbort 2]"
proof -
  let ?req = "\<lparr>sr_type = IPROTO_PROMOTE, sr_replica_id = 1, sr_origin_id = 2, sr_lsn = 5, sr_term = 3\<rparr>"
  have "covered 5 sample_limbo = [0, 1]" "uncovered 5 sample_limbo = [2]" "completions sample_limbo = []"
    by (simp_all add: covered_def uncovered_def confirm_stops_def sample_limbo_def completions_def)
  moreover have "lb_owner_id sample_limbo = 1" "txn_limbo_replica_term sample_limbo 2 = 0"
    by (simp_all add: sample_limbo_def txn_limbo_replica_term_def vclock_get_cases)
  ultimately show ?thesis
    using limbo_promote_settles[OF sample_limbo_ok, of ?req 5] by (auto simp: VCLOCK_MAX_def REPLICA_ID_NIL_def)
qed

text \<open>
  C15. Terms only grow and outdated promotions are ignored.  Whatever request is processed, no term of an
  instance and not the greatest term decreases, the greatest term stays the maximum over all instances, and a PROMOTE or
  DEMOTE whose term is not newer than what its sender sent before changes nothing once a real term has been seen.
\<close>

theorem limbo_terms_monotone:
  assumes "terms_ok l" and "txn_limbo_process req l = Some l'"
  shows "terms_ok l' \<and> lb_promote_greatest_term l \<le> lb_promote_greatest_term l' \<and>
    (\<forall>i<VCLOCK_MAX. vclock_get (lb_promote_term_map l) i \<le> vclock_get (lb_promote_term_map l') i) \<and>
    (iproto_type_is_promote_request (sr_type req) \<and> sr_term req \<le> txn_limbo_replica_term l (sr_origin_id req) \<and>
     1 < lb_promote_greatest_term l \<longrightarrow> l' = l)"
proof (cases "iproto_type_is_promote_request (sr_type req) \<and> sr_term req \<le> txn_limbo_replica_term l (sr_origin_id req) \<and>
     1 < lb_promote_greatest_term l")
  case True
  then show ?thesis using assms by (simp add: txn_limbo_process_eq not_less)
next
  case False
  then obtain l1 where "note_term req l = Some l1" and "same_terms l1 l'"
    using assms(2)
    by (auto simp: txn_limbo_process_eq not_less bind_eq_Some_conv Let_def split: if_splits synchro_type.splits
        dest: same_terms_requests)
  then show ?thesis using note_term_keeps[OF _ assms(1)] False by (auto simp: same_terms_def terms_ok_def)
qed

theorem limbo_terms_monotone_witness:
  "\<exists>l'. txn_limbo_process \<lparr>sr_type = IPROTO_CONFIRM, sr_replica_id = 2, sr_origin_id = 2, sr_lsn = 5, sr_term = 3\<rparr> sample_limbo = Some l' \<and>
     terms_ok l'"
proof -
  let ?req = "\<lparr>sr_type = IPROTO_CONFIRM, sr_replica_id = 2, sr_origin_id = 2, sr_lsn = 5, sr_term = 3\<rparr>"
  have tm: "txn_limbo_replica_term sample_limbo 2 = 0" by (simp add: sample_limbo_def txn_limbo_replica_term_def vclock_get_cases)
  then obtain v where "note_term ?req sample_limbo = Some (sample_limbo\<lparr>lb_promote_term_map := v,
      lb_promote_greatest_term := max (lb_promote_greatest_term sample_limbo) 3\<rparr>)" (is "_ = Some ?l1")
    using note_term_spec[OF sample_limbo_ok(3), of ?req] by (auto simp: VCLOCK_MAX_def)
  moreover have "lb_owner_id sample_limbo = 1" by (simp add: sample_limbo_def)
  ultimately have "txn_limbo_process ?req sample_limbo = Some ?l1"
    by (simp add: txn_limbo_process_eq REPLICA_ID_NIL_def iproto_type_is_promote_request_def)
  then show ?thesis using limbo_terms_monotone[OF sample_limbo_ok(3), of ?req ?l1] by blast
qed

end
