(* ===== verification/Limbo_Master.thy ===== *)
theory Limbo_Master
  imports Limbo "HOL-Library.Sublist"
begin

text \<open>
  The instance that owns the limbo: the fibers that commit transactions (\<^verbatim>\<open>txn_commit\<close> of
  \<^verbatim>\<open>src/src/box/txn.c\<close>), the acknowledgements of the replicas, changes of the quorum, and the journal.  Fibers
  switch only at a yield.  The journal completes writes in the order in which they were submitted and wakes
  the writers up in that order; the ready fibers run first come, first served.  Timeouts, acknowledgements
  and new transactions happen at any moment between two turns.
\<close>

section \<open>State\<close>

text \<open>Who waits for the write of a confirmation: a transaction, a relay, or the change of a parameter.\<close>

datatype confirm_by = ByTxn nat | ByAck | ByParams

datatype write_item = WTxn nat | WConfirm i64 confirm_by | WRollback nat

datatype ready_item = RTxn nat i64 | RConfirm i64 confirm_by | RRollback nat

text \<open>The fiber of a transaction, in \<^verbatim>\<open>txn_commit\<close>.\<close>

datatype commit_fiber = Fiber_None | Fiber_Write | Fiber_Confirm | Fiber_Wait wait_state | Fiber_Done "limbo_error option"

record master =
  ms_limbo :: limbo
  ms_cfg :: limbo_cfg
  ms_wal :: "write_item list"
  ms_ready :: "ready_item list"
  ms_lsn :: i64
  ms_fiber :: "nat \<Rightarrow> commit_fiber"
  ms_next :: nat

section \<open>Turns\<close>

text \<open>
  The flags that \<^verbatim>\<open>txn_journal_entry_new\<close> gives a transaction: it waits for acknowledgements when it
  touched a synchronous space, and for the queue when the queue is not empty.
\<close>

definition txn_sync_flags :: "bool \<Rightarrow> limbo \<Rightarrow> bool \<times> bool" where
  "txn_sync_flags is_sync l = (is_sync \<or> \<not> txn_limbo_is_empty l, is_sync)"

text \<open>
  The first part of \<^verbatim>\<open>txn_commit\<close>, up to the journal write, for a transaction that has to enter the limbo.
  A transaction that is refused is rolled back by its fiber.
\<close>

definition txn_commit_begin :: "bool \<Rightarrow> bool \<Rightarrow> master \<Rightarrow> master option" where
  "txn_commit_begin is_sync memory s = do {
     let t = ms_next s;
     let (wait_sync, wait_ack) = txn_sync_flags is_sync (ms_limbo s);
     let l = (ms_limbo s)\<lparr>lb_txns := (lb_txns (ms_limbo s))(t := \<lparr>tx_is_done = False, tx_wait_sync = wait_sync, tx_wait_ack = wait_ack,
               tx_signature = TXN_SIGNATURE_UNKNOWN, tx_status = TXN_PREPARED, tx_fiber = True\<rparr>)\<rparr>;
     (r, l) \<leftarrow> txn_limbo_append (ms_cfg s) memory 0 t l;
     Some (case r of
         Inl err \<Rightarrow> s\<lparr>ms_limbo := l, ms_fiber := (ms_fiber s)(t := Fiber_Done (Some err)), ms_next := t + 1\<rparr>
       | Inr _ \<Rightarrow> s\<lparr>ms_limbo := l, ms_fiber := (ms_fiber s)(t := Fiber_Write), ms_next := t + 1, ms_wal := ms_wal s @ [WTxn t]\<rparr>) }"

text \<open>The journal has written its oldest entry; \<open>lsn\<close> and \<open>res\<close> are what it gave a transaction.\<close>

definition journal_complete :: "i64 \<Rightarrow> i64 \<Rightarrow> master \<Rightarrow> master option" where
  "journal_complete lsn res s =
     (case ms_wal s of
        [] \<Rightarrow> Some s
      | WTxn t # w \<Rightarrow> do {
          l \<leftarrow> txn_on_journal_write t res (ms_limbo s);
          Some (s\<lparr>ms_limbo := l, ms_wal := w, ms_ready := ms_ready s @ [RTxn t lsn], ms_lsn := lsn\<rparr>) }
      | WConfirm clsn by # w \<Rightarrow> Some (s\<lparr>ms_wal := w, ms_ready := ms_ready s @ [RConfirm clsn by]\<rparr>)
      | WRollback t # w \<Rightarrow> Some (s\<lparr>ms_wal := w, ms_ready := ms_ready s @ [RRollback t]\<rparr>))"

text \<open>The rest of \<^verbatim>\<open>txn_commit\<close> after the journal write; it may stop at the write of a confirmation.\<close>

definition txn_commit_wait :: "nat \<Rightarrow> master \<Rightarrow> master option" where
  "txn_commit_wait t s = do {
     w \<leftarrow> txn_limbo_wait_complete_begin t (ms_limbo s);
     Some (s\<lparr>ms_fiber := (ms_fiber s)(t := Fiber_Wait w)\<rparr>) }"

definition txn_commit_written :: "nat \<Rightarrow> i64 \<Rightarrow> master \<Rightarrow> master option" where
  "txn_commit_written t lsn s =
     (if tx_wait_sync (lb_txns (ms_limbo s) t) then
        if tx_wait_ack (lb_txns (ms_limbo s) t) then do {
          l \<leftarrow> txn_limbo_assign_local_lsn (ms_cfg s) t lsn (ms_limbo s);
          (c, l) \<leftarrow> txn_limbo_ack_begin (ms_cfg s) (lb_owner_id l) lsn l;
          case c of
            None \<Rightarrow> txn_commit_wait t (s\<lparr>ms_limbo := l\<rparr>)
          | Some clsn \<Rightarrow> Some (s\<lparr>ms_limbo := l, ms_wal := ms_wal s @ [WConfirm clsn (ByTxn t)],
                             ms_fiber := (ms_fiber s)(t := Fiber_Confirm)\<rparr>) }
        else txn_commit_wait t s
      else do {
        l \<leftarrow> c_assert (tx_is_done (lb_txns (ms_limbo s) t)) (ms_limbo s);
        l \<leftarrow> c_assert (0 \<le> sint (tx_signature (lb_txns l t))) l;
        Some (s\<lparr>ms_fiber := (ms_fiber s)(t := Fiber_Done None)\<rparr>) })"

definition confirm_written :: "i64 \<Rightarrow> confirm_by \<Rightarrow> master \<Rightarrow> master option" where
  "confirm_written lsn by s = do {
     l \<leftarrow> txn_limbo_read_confirm lsn (ms_limbo s);
     case by of
       ByTxn t \<Rightarrow> txn_commit_wait t (s\<lparr>ms_limbo := l\<rparr>)
     | ByAck \<Rightarrow> Some (s\<lparr>ms_limbo := l\<rparr>)
     | ByParams \<Rightarrow> Some (s\<lparr>ms_limbo := emit EvBroadcast l\<rparr>) }"

definition rollback_written :: "nat \<Rightarrow> master \<Rightarrow> master option" where
  "rollback_written t s = do {
     (w, l) \<leftarrow> txn_limbo_wait_complete_rollback t (ms_limbo s);
     Some (s\<lparr>ms_limbo := l, ms_fiber := (ms_fiber s)(t := Fiber_Wait w)\<rparr>) }"

text \<open>The oldest ready fiber runs.\<close>

definition run_ready :: "master \<Rightarrow> master option" where
  "run_ready s =
     (case ms_ready s of
        [] \<Rightarrow> Some s
      | RTxn t lsn # r \<Rightarrow> txn_commit_written t lsn (s\<lparr>ms_ready := r\<rparr>)
      | RConfirm lsn by # r \<Rightarrow> confirm_written lsn by (s\<lparr>ms_ready := r\<rparr>)
      | RRollback t # r \<Rightarrow> rollback_written t (s\<lparr>ms_ready := r\<rparr>))"

text \<open>A waiting fiber is woken up, by its timeout or otherwise.\<close>

definition wake_fiber :: "nat \<Rightarrow> bool \<Rightarrow> master \<Rightarrow> master option" where
  "wake_fiber t timed_out s =
     (case ms_fiber s t of
        Fiber_Wait Wait_Timed \<Rightarrow> do {
          (w, l) \<leftarrow> txn_limbo_wait_complete_resume t timed_out (ms_limbo s);
          Some (s\<lparr>ms_limbo := l, ms_fiber := (ms_fiber s)(t := Fiber_Wait w),
                  ms_wal := ms_wal s @ (if w = Wait_Rollback then [WRollback t] else [])\<rparr>) }
      | Fiber_Wait Wait_Untimed \<Rightarrow> do {
          w \<leftarrow> txn_limbo_wait_complete_yielded t (ms_limbo s);
          Some (s\<lparr>ms_fiber := (ms_fiber s)(t := Fiber_Wait w)\<rparr>) }
      | _ \<Rightarrow> Some s)"

text \<open>A relay hands on what a replica has acknowledged, if the limbo belongs to this instance.\<close>

definition relay_ack :: "u32 \<Rightarrow> i64 \<Rightarrow> master \<Rightarrow> master option" where
  "relay_ack replica lsn s =
     (if lb_owner_id (ms_limbo s) = instance_id (ms_cfg s) then do {
        (c, l) \<leftarrow> txn_limbo_ack_begin (ms_cfg s) replica lsn (ms_limbo s);
        Some (s\<lparr>ms_limbo := l, ms_wal := ms_wal s @ (case c of None \<Rightarrow> [] | Some clsn \<Rightarrow> [WConfirm clsn ByAck])\<rparr>) }
      else Some s)"

definition set_quorum :: "int \<Rightarrow> master \<Rightarrow> master option" where
  "set_quorum quorum s = do {
     let cfg = (ms_cfg s)\<lparr>replication_synchro_quorum := quorum\<rparr>;
     (c, l) \<leftarrow> txn_limbo_on_parameters_change_begin cfg (ms_limbo s);
     Some (s\<lparr>ms_cfg := cfg, ms_limbo := l,
             ms_wal := ms_wal s @ (case c of None \<Rightarrow> [] | Some clsn \<Rightarrow> [WConfirm clsn ByParams])\<rparr>) }"

datatype master_action =
    Begin bool bool
  | Journal i64 i64
  | Run
  | Wake nat bool
  | Ack u32 i64
  | Quorum int

fun master_exec :: "master_action \<Rightarrow> master \<Rightarrow> master option" where
  "master_exec (Begin is_sync memory) s = txn_commit_begin is_sync memory s"
| "master_exec (Journal lsn res) s = journal_complete lsn res s"
| "master_exec Run s = run_ready s"
| "master_exec (Wake t timed_out) s = wake_fiber t timed_out s"
| "master_exec (Ack replica lsn) s = relay_ack replica lsn s"
| "master_exec (Quorum quorum) s = set_quorum quorum s"

text \<open>
  What the surroundings promise: a transaction enters the limbo when it is synchronous or the queue is not empty; the
  journal gives growing LSNs and non-negative signatures; a replica is not this instance and does not take an
  acknowledgement back; the quorum is positive, as the check of the configuration makes sure.
\<close>

fun master_enabled :: "master_action \<Rightarrow> master \<Rightarrow> bool" where
  "master_enabled (Begin is_sync memory) s \<longleftrightarrow> is_sync \<or> lb_queue (ms_limbo s) \<noteq> []"
| "master_enabled (Journal lsn res) s \<longleftrightarrow> sint (ms_lsn s) < sint lsn \<and> 0 \<le> sint res"
| "master_enabled (Ack replica lsn) s \<longleftrightarrow> unat replica < VCLOCK_MAX \<and> replica \<noteq> instance_id (ms_cfg s) \<and>
     sint (vclock_get (lb_vclock (ms_limbo s)) (unat replica)) \<le> sint lsn"
| "master_enabled (Quorum quorum) s \<longleftrightarrow> 0 < quorum"
| "master_enabled _ s \<longleftrightarrow> True"

text \<open>The instance \<open>iid\<close> has just become the owner of an empty limbo.\<close>

definition master_start :: "u32 \<Rightarrow> int \<Rightarrow> limbo \<Rightarrow> i64 \<Rightarrow> master" where
  "master_start iid quorum l lsn =
     \<lparr>ms_limbo = l\<lparr>lb_queue := [], lb_len := 0, lb_owner_id := iid, lb_confirmed_lsn := 0, lb_is_in_rollback := False, lb_log := []\<rparr>,
      ms_cfg = \<lparr>instance_id = iid, replication_synchro_quorum = quorum\<rparr>, ms_wal = [], ms_ready = [], ms_lsn = lsn,
      ms_fiber = (\<lambda>_. Fiber_None), ms_next = 0\<rparr>"

inductive master_reach :: "master \<Rightarrow> master \<Rightarrow> bool" for s0 where
  master_reach_start: "master_reach s0 s0"
| master_reach_step: "master_reach s0 s \<Longrightarrow> master_enabled a s \<Longrightarrow> master_exec a s = Some s' \<Longrightarrow> master_reach s0 s'"

section \<open>Invariant\<close>

fun kind :: "ready_item \<Rightarrow> write_item" where
  "kind (RTxn t lsn) = WTxn t"
| "kind (RConfirm lsn by) = WConfirm lsn by"
| "kind (RRollback t) = WRollback t"

text \<open>Everything that has been submitted to the journal and has not run yet, oldest first.\<close>

definition pend :: "master \<Rightarrow> write_item list" where
  "pend s = map kind (ms_ready s) @ ms_wal s"

fun txn_ids :: "write_item list \<Rightarrow> nat list" where
  "txn_ids [] = []"
| "txn_ids (WTxn t # ws) = t # txn_ids ws"
| "txn_ids (_ # ws) = txn_ids ws"

fun ready_lsns :: "ready_item list \<Rightarrow> int list" where
  "ready_lsns [] = []"
| "ready_lsns (RTxn t lsn # rs) = sint lsn # ready_lsns rs"
| "ready_lsns (_ # rs) = ready_lsns rs"

fun by_ids :: "write_item list \<Rightarrow> nat list" where
  "by_ids [] = []"
| "by_ids (WConfirm lsn (ByTxn t) # ws) = t # by_ids ws"
| "by_ids (_ # ws) = by_ids ws"

lemma by_ids_append [simp]: "by_ids (xs @ ys) = by_ids xs @ by_ids ys"
  by (induction xs rule: by_ids.induct) auto

lemma txn_ids_append [simp]: "txn_ids (xs @ ys) = txn_ids xs @ txn_ids ys"
  by (induction xs rule: txn_ids.induct) auto

lemma ready_lsns_append [simp]: "ready_lsns (xs @ ys) = ready_lsns xs @ ready_lsns ys"
  by (induction xs rule: ready_lsns.induct) auto

lemma in_txn_ids: "t \<in> set (txn_ids ws) \<longleftrightarrow> WTxn t \<in> set ws"
  by (induction ws rule: txn_ids.induct) auto

text \<open>The entries whose write is in flight are the end of the queue, in the order of the journal.\<close>

definition flight_ok :: "nat list \<Rightarrow> nat list \<Rightarrow> bool" where
  "flight_ok q fl \<longleftrightarrow> q = filter (\<lambda>e. e \<notin> set fl) q @ filter (\<lambda>e. e \<in> set q) fl"

definition cfg_inv :: "limbo_cfg \<Rightarrow> i64 \<Rightarrow> limbo \<Rightarrow> bool" where
  "cfg_inv cfg lsn l \<longleftrightarrow> lb_owner_id l = instance_id cfg \<and> instance_id cfg \<noteq> REPLICA_ID_NIL \<and> unat (instance_id cfg) < VCLOCK_MAX \<and>
     0 < replication_synchro_quorum cfg \<and> vclock_wf (lb_vclock l) \<and> (\<forall>i<VCLOCK_MAX. 0 \<le> sint (vclock_get (lb_vclock l) i)) \<and>
     0 \<le> sint lsn \<and> 0 \<le> sint (lb_confirmed_lsn l)"

definition queue_inv :: "nat \<Rightarrow> limbo \<Rightarrow> bool" where
  "queue_inv n l \<longleftrightarrow> queue_ok l \<and> (\<forall>e\<in>set (lb_queue l). ack_ok l e \<and> tx_fiber (lb_txns l e) \<and> e < n) \<and>
     (lb_queue l \<noteq> [] \<longrightarrow> synchronous l (hd (lb_queue l))) \<and> sorted_wrt (<) (lb_queue l)"

text \<open>\<open>rs\<close> have been written and their fibers are ready, \<open>ws\<close> are being written.\<close>

definition flight_inv :: "nat \<Rightarrow> nat list \<Rightarrow> nat list \<Rightarrow> limbo \<Rightarrow> bool" where
  "flight_inv n rs ws l \<longleftrightarrow> sorted_wrt (<) (rs @ ws) \<and> (\<forall>e\<in>set (rs @ ws). e < n) \<and> flight_ok (lb_queue l) (rs @ ws) \<and>
     (\<forall>e\<in>set (lb_queue l). if e \<in> set (rs @ ws) then le_lsn (lb_entries l e) = - 1
        else 0 \<le> sint (tx_signature (lb_txns l e)) \<and> (synchronous l e \<longrightarrow> le_lsn (lb_entries l e) \<noteq> - 1)) \<and>
     (\<forall>e\<in>set ws. tx_signature (lb_txns l e) = TXN_SIGNATURE_UNKNOWN \<and> \<not> tx_is_done (lb_txns l e) \<and> tx_fiber (lb_txns l e) \<and>
        (e \<notin> set (lb_queue l) \<longrightarrow> \<not> tx_wait_sync (lb_txns l e) \<and> \<not> synchronous l e \<and> (\<forall>x\<in>set (lb_queue l). e < x))) \<and>
     (\<forall>e\<in>set rs. 0 \<le> sint (tx_signature (lb_txns l e)) \<and>
        (e \<notin> set (lb_queue l) \<longrightarrow> \<not> tx_wait_sync (lb_txns l e) \<and> tx_is_done (lb_txns l e))) \<and>
     (\<forall>e\<in>set (lb_queue l) - set ws. \<forall>w\<in>set ws. e < w)"

text \<open>The LSNs given so far to entries of the queue, in queue order.\<close>

definition assigned :: "nat list \<Rightarrow> limbo \<Rightarrow> int list" where
  "assigned fl l = map (lsn_of l) (filter (\<lambda>e. synchronous l e \<and> e \<notin> set fl) (lb_queue l))"

definition lsn_inv :: "nat \<Rightarrow> nat list \<Rightarrow> int list \<Rightarrow> int \<Rightarrow> limbo \<Rightarrow> bool" where
  "lsn_inv owner fl rl mx l \<longleftrightarrow> sorted_wrt (<) (assigned fl l @ rl) \<and> (\<forall>x\<in>set (assigned fl l @ rl). 0 < x \<and> x \<le> mx) \<and>
     (\<forall>x\<in>set rl. sint (vclock_get (lb_vclock l) owner) < x) \<and> sint (vclock_get (lb_vclock l) owner) \<le> mx"

text \<open>The fiber of \<open>t\<close>, the first entry, is writing a rollback, and nothing has been submitted after it.\<close>

definition rolling :: "write_item list \<Rightarrow> (nat \<Rightarrow> commit_fiber) \<Rightarrow> limbo \<Rightarrow> nat \<Rightarrow> bool" where
  "rolling ps fib l t \<longleftrightarrow> (\<exists>xs. ps = xs @ [WRollback t] \<and> (\<forall>u. WRollback u \<notin> set xs)) \<and> lb_queue l \<noteq> [] \<and> hd (lb_queue l) = t \<and>
     WTxn t \<notin> set ps \<and> sint (lb_confirmed_lsn l) < lsn_of l t \<and> fib t = Fiber_Wait Wait_Rollback"

definition pend_inv :: "write_item list \<Rightarrow> (nat \<Rightarrow> commit_fiber) \<Rightarrow> limbo \<Rightarrow> bool" where
  "pend_inv ps fib l \<longleftrightarrow>
     (\<forall>lsn by. WConfirm lsn by \<in> set ps \<longrightarrow> sint lsn \<le> sint (lb_confirmed_lsn l) \<and> 0 \<le> sint lsn) \<and>
     distinct (by_ids ps) \<and> (\<forall>t\<in>set (by_ids ps). fib t = Fiber_Confirm) \<and>
     (if lb_is_in_rollback l then \<exists>t. rolling ps fib l t else \<forall>u. WRollback u \<notin> set ps)"

text \<open>An entry of a fiber that has seen its write: it waits in the queue, or it has been settled.\<close>

definition tracked :: "limbo \<Rightarrow> nat \<Rightarrow> bool" where
  "tracked l t \<longleftrightarrow> le_txn (lb_entries l t) = Some t \<and>
     (t \<in> set (lb_queue l) \<or> txn_limbo_entry_is_complete (lb_entries l t) \<and> tx_is_done (lb_txns l t) \<and> \<not> synchronous l t)"

definition fiber_inv :: "nat \<Rightarrow> nat list \<Rightarrow> (nat \<Rightarrow> commit_fiber) \<Rightarrow> limbo \<Rightarrow> bool" where
  "fiber_inv n fl fib l \<longleftrightarrow>
     (\<forall>t. t \<in> set fl \<longleftrightarrow> fib t = Fiber_Write) \<and>
     (\<forall>t. fib t = Fiber_Confirm \<or> (\<exists>w. fib t = Fiber_Wait w \<and> (\<forall>r. w \<noteq> Wait_Done r)) \<longrightarrow> tracked l t) \<and>
     (\<forall>t. n \<le> t \<longrightarrow> fib t = Fiber_None)"

definition core_inv :: "limbo_cfg \<Rightarrow> i64 \<Rightarrow> nat \<Rightarrow> nat list \<Rightarrow> nat list \<Rightarrow> int list \<Rightarrow> limbo \<Rightarrow> bool" where
  "core_inv cfg lsn n rs ws rl l \<longleftrightarrow> cfg_inv cfg lsn l \<and> queue_inv n l \<and> flight_inv n rs ws l \<and>
     lsn_inv (unat (instance_id cfg)) (rs @ ws) rl (sint lsn) l"

definition master_inv :: "master \<Rightarrow> bool" where
  "master_inv s \<longleftrightarrow>
     core_inv (ms_cfg s) (ms_lsn s) (ms_next s) (txn_ids (map kind (ms_ready s))) (txn_ids (ms_wal s)) (ready_lsns (ms_ready s)) (ms_limbo s) \<and>
     pend_inv (pend s) (ms_fiber s) (ms_limbo s) \<and>
     fiber_inv (ms_next s) (txn_ids (map kind (ms_ready s)) @ txn_ids (ms_wal s)) (ms_fiber s) (ms_limbo s)"

lemma flight_ok_drop:
  assumes "flight_ok (P @ R) fl" and "distinct (P @ R)"
  shows "flight_ok R fl"
proof -
  define N U where "N = filter (\<lambda>e. e \<notin> set fl) (P @ R)" and "U = filter (\<lambda>e. e \<in> set (P @ R)) fl"
  have q: "P @ R = N @ U" using assms(1) unfolding flight_ok_def N_def U_def .
  have N: "\<forall>e\<in>set N. e \<notin> set fl" and U: "\<forall>e\<in>set U. e \<in> set fl" by (auto simp: N_def U_def)
  have sub: "filter (\<lambda>e. e \<in> set R) fl = filter (\<lambda>e. e \<in> set R) U" by (auto simp: U_def intro: filter_cong)
  from q consider us where "N = P @ us" "R = us @ U" | us where "P = N @ us" "U = us @ R"
    unfolding append_eq_append_conv2 by blast
  then show ?thesis
  proof cases
    case 1
    then have "filter (\<lambda>e. e \<notin> set fl) R = us" using N U by (auto simp: filter_empty_conv)
    moreover have "filter (\<lambda>e. e \<in> set R) U = U" using 1(2) by simp
    ultimately show ?thesis using 1(2) sub by (simp add: flight_ok_def)
  next
    case 2
    have "set us \<inter> set R = {}" using 2(1) assms(2) by auto
    then have "filter (\<lambda>e. e \<in> set R) (us @ R) = R" by (auto simp: filter_empty_conv)
    moreover have "filter (\<lambda>e. e \<notin> set fl) R = []" using 2(2) U by (auto simp: filter_empty_conv)
    ultimately show ?thesis using 2(2) sub by (simp add: flight_ok_def)
  qed
qed

lemma flight_ok_snoc: "flight_ok q fl \<Longrightarrow> t \<notin> set q \<Longrightarrow> t \<notin> set fl \<Longrightarrow> flight_ok (q @ [t]) (fl @ [t])"
proof -
  assume a: "flight_ok q fl" "t \<notin> set q" "t \<notin> set fl"
  have "filter (\<lambda>e. e \<notin> set (fl @ [t])) (q @ [t]) = filter (\<lambda>e. e \<notin> set fl) q" using a(2) by (auto intro: filter_cong)
  moreover have "filter (\<lambda>e. e \<in> set (q @ [t])) (fl @ [t]) = filter (\<lambda>e. e \<in> set q) fl @ [t]" using a(3) by (auto intro: filter_cong)
  ultimately show ?thesis using a(1) unfolding flight_ok_def by (metis append_assoc)
qed

lemma flight_ok_tl:
  assumes "flight_ok q (t # fl)" and "distinct q" and "t \<notin> set fl"
  shows "flight_ok q fl"
proof -
  let ?N = "filter (\<lambda>e. e \<noteq> t \<and> e \<notin> set fl) q" and ?U = "filter (\<lambda>e. e \<in> set q) fl"
  have "q = ?N @ (if t \<in> set q then [t] else []) @ ?U" using assms(1) by (simp add: flight_ok_def split: if_splits)
  then have q: "q = ?N @ (if t \<in> set q then [t] else []) @ ?U" .
  have "filter (\<lambda>e. e \<notin> set fl) q = ?N @ (if t \<in> set q then [t] else [])"
  proof -
    have "filter (\<lambda>e. e \<notin> set fl) q = filter (\<lambda>e. e \<notin> set fl) (?N @ (if t \<in> set q then [t] else []) @ ?U)" using q by simp
    also have "\<dots> = ?N @ (if t \<in> set q then [t] else [])" using assms(3) by (auto simp: filter_empty_conv)
    finally show ?thesis .
  qed
  then show ?thesis using q by (simp add: flight_ok_def)
qed


section \<open>Confirmation\<close>

lemma covered_facts:
  assumes "queue_inv n l" and "flight_inv n rs ws l"
  shows "lb_queue l = covered lsn l @ uncovered lsn l" "distinct (covered lsn l @ uncovered lsn l)"
    and "e \<in> set (covered lsn l) \<Longrightarrow> e \<in> set (rs @ ws) \<Longrightarrow> \<not> synchronous l e"
    and "e \<in> set (covered lsn l) \<Longrightarrow> unwritten l e \<longleftrightarrow> e \<in> set ws"
    and "e \<in> set (covered lsn l) \<Longrightarrow> x \<in> set (uncovered lsn l) \<Longrightarrow> e < x"
    and "uncovered lsn l \<noteq> [] \<Longrightarrow> synchronous l (hd (uncovered lsn l))"
proof -
  show q: "lb_queue l = covered lsn l @ uncovered lsn l" by (rule covered_uncovered)
  show "distinct (covered lsn l @ uncovered lsn l)" using assms(1) unfolding queue_inv_def queue_ok_def q[symmetric] by blast
  have stop: "\<not> confirm_stops lsn l e" if "e \<in> set (covered lsn l)" for e
    using that by (auto simp: covered_def dest: set_takeWhileD)
  have in_q: "e \<in> set (lb_queue l)" if "e \<in> set (covered lsn l)" for e
    using that by (auto simp: covered_def dest: set_takeWhileD)
  show async: "e \<in> set (rs @ ws) \<Longrightarrow> \<not> synchronous l e" if "e \<in> set (covered lsn l)" for e
    using assms(2) stop[OF that] in_q[OF that] by (auto simp: flight_inv_def confirm_stops_def)
  show "unwritten l e \<longleftrightarrow> e \<in> set ws" if "e \<in> set (covered lsn l)" for e
  proof
    assume "e \<in> set ws"
    then show "unwritten l e" using async[OF that] assms(2) by (auto simp: unwritten_def flight_inv_def)
  next
    assume u: "unwritten l e"
    then have "sint (tx_signature (lb_txns l e)) = - 1" by (simp add: unwritten_def)
    then show "e \<in> set ws" using assms(2) in_q[OF that] by (fastforce simp: flight_inv_def split: if_splits)
  qed
  have "sorted_wrt (<) (covered lsn l @ uncovered lsn l)" using assms(1) q by (simp add: queue_inv_def)
  then show "e \<in> set (covered lsn l) \<Longrightarrow> x \<in> set (uncovered lsn l) \<Longrightarrow> e < x" by (simp add: sorted_wrt_append)
  show "uncovered lsn l \<noteq> [] \<Longrightarrow> synchronous l (hd (uncovered lsn l))"
    using hd_dropWhile[of "\<lambda>e. \<not> confirm_stops lsn l e" "lb_queue l"] by (auto simp: uncovered_def confirm_stops_def)
qed

lemma confirmed_queue: "lb_queue (confirm_prefix (covered lsn l) l) = uncovered lsn l"
  by (simp add: covered_def uncovered_def dropWhile_eq_drop)

lemma confirm_core:
  assumes "core_inv cfg mlsn n rs ws rl l"
  shows "core_inv cfg mlsn n rs ws rl (confirm_prefix (covered lsn l) l)"
proof -
  let ?P = "covered lsn l" and ?R = "uncovered lsn l"
  let ?l = "confirm_prefix ?P l"
  have inv: "cfg_inv cfg mlsn l" "queue_inv n l" "flight_inv n rs ws l" "lsn_inv (unat (instance_id cfg)) (rs @ ws) rl (sint mlsn) l"
    using assms by (simp_all add: core_inv_def)
  note cov = covered_facts[OF inv(2,3), where lsn = lsn]
  note q = confirmed_queue[of lsn l]
  have notP: "e \<notin> set ?P" if "e \<in> set ?R" for e using cov(2) that by auto
  have "cfg_inv cfg mlsn ?l" using inv(1) by (simp add: cfg_inv_def)
  moreover have "queue_inv n ?l"
  proof -
    have "queue_ok ?l" using inv(2) cov(1) by (intro confirm_prefix_queue_ok) (simp_all add: queue_inv_def)
    moreover have "\<forall>e\<in>set ?R. ack_ok ?l e \<and> tx_fiber (lb_txns ?l e) \<and> e < n"
      using inv(2) notP cov(1) by (simp add: queue_inv_def ack_ok_def)
    moreover have "?R \<noteq> [] \<longrightarrow> synchronous ?l (hd ?R)" using cov(6) notP by simp
    moreover have "sorted_wrt (<) ?R" using inv(2) cov(1) by (simp add: queue_inv_def sorted_wrt_append)
    ultimately show ?thesis unfolding queue_inv_def q by blast
  qed
  moreover have "flight_inv n rs ws ?l"
  proof -
    have "flight_ok ?R (rs @ ws)" using inv(3) cov(1,2) flight_ok_drop[of ?P ?R "rs @ ws"] by (simp add: flight_inv_def)
    moreover have "\<forall>e\<in>set ?R. if e \<in> set (rs @ ws) then le_lsn (lb_entries ?l e) = - 1
        else 0 \<le> sint (tx_signature (lb_txns ?l e)) \<and> (synchronous ?l e \<longrightarrow> le_lsn (lb_entries ?l e) \<noteq> - 1)"
      using inv(3) notP cov(1) by (simp add: flight_inv_def)
    moreover have "\<forall>e\<in>set ws. tx_signature (lb_txns ?l e) = TXN_SIGNATURE_UNKNOWN \<and> \<not> tx_is_done (lb_txns ?l e) \<and> tx_fiber (lb_txns ?l e) \<and>
        (e \<notin> set ?R \<longrightarrow> \<not> tx_wait_sync (lb_txns ?l e) \<and> \<not> synchronous ?l e \<and> (\<forall>x\<in>set ?R. e < x))"
      using inv(3) cov by (auto simp: flight_inv_def confirmed_txn_def)
    moreover have "\<forall>e\<in>set rs. 0 \<le> sint (tx_signature (lb_txns ?l e)) \<and>
        (e \<notin> set ?R \<longrightarrow> \<not> tx_wait_sync (lb_txns ?l e) \<and> tx_is_done (lb_txns ?l e))"
    proof
      fix e assume e: "e \<in> set rs"
      then have "e \<notin> set ws" using inv(3) by (auto simp: flight_inv_def sorted_wrt_append)
      then show "0 \<le> sint (tx_signature (lb_txns ?l e)) \<and>
        (e \<notin> set ?R \<longrightarrow> \<not> tx_wait_sync (lb_txns ?l e) \<and> tx_is_done (lb_txns ?l e))"
        using inv(2,3) e cov by (auto simp: flight_inv_def queue_inv_def confirmed_txn_def)
    qed
    moreover have "\<forall>e\<in>set ?R - set ws. \<forall>w\<in>set ws. e < w" using inv(3) cov(1) by (simp add: flight_inv_def)
    ultimately show ?thesis using inv(3) unfolding flight_inv_def q by blast
  qed
  moreover have "lsn_inv (unat (instance_id cfg)) (rs @ ws) rl (sint mlsn) ?l"
  proof -
    have "assigned (rs @ ws) ?l = map (lsn_of l) (filter (\<lambda>e. synchronous l e \<and> e \<notin> set (rs @ ws)) ?R)"
      unfolding assigned_def q using notP by (auto intro!: map_cong filter_cong)
    then have "\<exists>xs. assigned (rs @ ws) l = xs @ assigned (rs @ ws) ?l"
      unfolding assigned_def by (subst cov(1)) simp
    then show ?thesis using inv(4) by (auto simp: lsn_inv_def sorted_wrt_append)
  qed
  ultimately show ?thesis by (simp add: core_inv_def)
qed

lemma core_invD:
  assumes "core_inv cfg mlsn n rs ws rl l"
  shows "cfg_inv cfg mlsn l" "queue_inv n l" "flight_inv n rs ws l" "lsn_inv (unat (instance_id cfg)) (rs @ ws) rl (sint mlsn) l"
    "queue_ok l" "lb_owner_id l \<noteq> REPLICA_ID_NIL"
  using assms by (simp_all add: core_inv_def queue_inv_def cfg_inv_def)

lemma queue_entry:
  assumes "core_inv cfg mlsn n rs ws rl l" and "e \<in> set (lb_queue l)"
  shows "entry_ok l e" "ack_ok l e" "e < n"
  using assms by (simp_all add: core_inv_def queue_inv_def queue_ok_def)

lemma confirm_pend:
  assumes "core_inv cfg mlsn n rs ws rl l" and "pend_inv ps fib l" and "sint lsn \<le> sint (lb_confirmed_lsn l)"
  shows "pend_inv ps fib (confirm_prefix (covered lsn l) l)"
proof (cases "lb_is_in_rollback l")
  case True
  then obtain t q where t: "lb_queue l = t # q" "sint (lb_confirmed_lsn l) < lsn_of l t"
    using assms(2) by (auto simp: pend_inv_def rolling_def neq_Nil_conv)
  then have "synchronous l t" using core_invD(2)[OF assms(1)] by (simp add: queue_inv_def)
  then have "covered lsn l = []" using t assms(3) by (simp add: covered_def confirm_stops_def)
  then show ?thesis using assms(2) by simp
qed (use assms(2) in \<open>simp add: pend_inv_def rolling_def\<close>)

lemma confirm_tracked:
  assumes "core_inv cfg mlsn n rs ws rl l" and "tracked l t" and "t \<notin> set (rs @ ws)"
  shows "tracked (confirm_prefix (covered lsn l) l) t"
proof (cases "t \<in> set (covered lsn l)")
  case True
  note cov = covered_facts[OF core_invD(2,3)[OF assms(1)], where lsn = lsn]
  have "\<not> unwritten l t" using cov(4)[OF True] assms(3) by simp
  moreover have "tx_fiber (lb_txns l t)" using True cov(1) core_invD(2)[OF assms(1)] by (simp add: queue_inv_def)
  ultimately show ?thesis
    using True assms(2) by (simp add: tracked_def confirmed_entry_def confirmed_txn_def txn_limbo_entry_is_complete_def)
next
  case False
  then have "t \<in> set (lb_queue l) \<Longrightarrow> t \<in> set (lb_queue (confirm_prefix (covered lsn l) l))"
    unfolding confirmed_queue by (subst (asm) covered_uncovered[of l lsn]) simp
  then show ?thesis using False assms(2) by (auto simp: tracked_def)
qed

lemma fiber_inv_mono:
  assumes "fiber_inv n fl fib l" and "\<And>t. tracked l t \<Longrightarrow> t \<notin> set fl \<Longrightarrow> tracked l' t"
  shows "fiber_inv n fl fib l'"
proof -
  have "tracked l' t" if "fib t = Fiber_Confirm \<or> (\<exists>w. fib t = Fiber_Wait w \<and> (\<forall>r. w \<noteq> Wait_Done r))" for t
  proof (rule assms(2))
    show "tracked l t" using assms(1) that unfolding fiber_inv_def by blast
    show "t \<notin> set fl" using assms(1) that by (auto simp: fiber_inv_def)
  qed
  then show ?thesis using assms(1) unfolding fiber_inv_def by blast
qed

lemma confirm_fiber:
  assumes "core_inv cfg mlsn n rs ws rl l" and "fiber_inv n (rs @ ws) fib l"
  shows "fiber_inv n (rs @ ws) fib (confirm_prefix (covered lsn l) l)"
  by (rule fiber_inv_mono[OF assms(2) confirm_tracked[OF assms(1)]])

text \<open>A fiber that has seen its write begins to wait.\<close>

lemma wait_begin:
  assumes "core_inv cfg mlsn n rs ws rl l" and "tracked l t" and "t \<notin> set (rs @ ws)"
  obtains w where "txn_limbo_wait_complete_begin t l = Some w"
    and "if t \<in> set (lb_queue l) then w = Wait_Timed else \<exists>r. w = Wait_Done r"
proof (cases "t \<in> set (lb_queue l)")
  case True
  note e = queue_entry(1)[OF assms(1) True]
  have "0 < lsn_of l t \<or> \<not> synchronous l t"
    using e True assms(3) core_invD(3)[OF assms(1)] by (auto simp: entry_ok_def flight_inv_def)
  then have "txn_limbo_wait_complete_begin t l = Some Wait_Timed"
    using e by (simp add: txn_limbo_wait_complete_begin_def entry_ok_def bind_c_assert)
  then show ?thesis using that True by simp
next
  case False
  then show ?thesis
    using assms(2) that by (simp add: txn_limbo_wait_complete_begin_def wait_complete_return_def tracked_def bind_c_assert)
qed

lemma pend_inv_cong:
  assumes "lb_queue l' = lb_queue l" and "lb_confirmed_lsn l' = lb_confirmed_lsn l" and "lb_is_in_rollback l' = lb_is_in_rollback l"
    and "\<And>e. WTxn e \<notin> set ps \<Longrightarrow> lsn_of l' e = lsn_of l e" and "pend_inv ps fib l"
  shows "pend_inv ps fib l'"
proof -
  have "rolling ps fib l t \<Longrightarrow> rolling ps fib l' t" for t using assms(1,2,4) by (simp add: rolling_def)
  then have "\<exists>t. rolling ps fib l t \<Longrightarrow> \<exists>t. rolling ps fib l' t" by blast
  then show ?thesis using assms(2,3,5) by (auto simp: pend_inv_def split: if_splits)
qed

lemma pend_inv_fib:
  assumes "pend_inv ps fib l" and "\<And>u. u \<in> set (by_ids ps) \<or> fib u = Fiber_Wait Wait_Rollback \<Longrightarrow> fib' u = fib u"
  shows "pend_inv ps fib' l"
proof -
  have "rolling ps fib l t \<Longrightarrow> rolling ps fib' l t" for t using assms(2)[of t] by (simp add: rolling_def)
  then show ?thesis using assms by (auto simp: pend_inv_def split: if_splits intro: exI)
qed

lemma wait_begin_inv:
  assumes "core_inv cfg mlsn n rs ws rl l" and "tracked l t" and "t \<notin> set (rs @ ws)" and "t < n"
    and "pend_inv ps fib l" and "t \<notin> set (by_ids ps)" and "\<forall>w. fib t \<noteq> Fiber_Wait w"
    and "fiber_inv n (rs @ ws) (fib(t := Fiber_Confirm)) l"
    and "txn_limbo_wait_complete_begin t l = Some w"
  shows "pend_inv ps (fib(t := Fiber_Wait w)) l \<and> fiber_inv n (rs @ ws) (fib(t := Fiber_Wait w)) l"
proof -
  have "pend_inv ps (fib(t := Fiber_Wait w)) l" using assms(6,7) by (intro pend_inv_fib[OF assms(5)]) auto
  moreover have "fiber_inv n (rs @ ws) (fib(t := Fiber_Wait w)) l"
    using assms(2,3,4,8) by (auto simp: fiber_inv_def split: if_splits)
  ultimately show ?thesis ..
qed

lemma rolling_Cons: "rolling (p # ps) fib l t \<Longrightarrow> \<forall>u. p \<noteq> WRollback u \<Longrightarrow> rolling ps fib l t"
  by (auto simp: rolling_def Cons_eq_append_conv)

lemma pend_inv_Cons:
  assumes "pend_inv (p # ps) fib l" and "\<forall>t. p \<noteq> WRollback t"
  shows "pend_inv ps fib l" and "set (by_ids [p]) \<inter> set (by_ids ps) = {}"
proof -
  have ids: "by_ids (p # ps) = by_ids [p] @ by_ids ps" using by_ids_append[of "[p]" ps] by simp
  show "set (by_ids [p]) \<inter> set (by_ids ps) = {}" using assms(1) unfolding pend_inv_def ids by auto
  have "\<exists>t. rolling (p # ps) fib l t \<Longrightarrow> \<exists>t. rolling ps fib l t" using rolling_Cons[OF _ assms(2)] by blast
  then show "pend_inv ps fib l" using assms(1) unfolding pend_inv_def ids by (auto split: if_splits)
qed

lemma master_invD:
  assumes "master_inv s"
  shows "core_inv (ms_cfg s) (ms_lsn s) (ms_next s) (txn_ids (map kind (ms_ready s))) (txn_ids (ms_wal s)) (ready_lsns (ms_ready s)) (ms_limbo s)"
    and "pend_inv (map kind (ms_ready s) @ ms_wal s) (ms_fiber s) (ms_limbo s)"
    and "fiber_inv (ms_next s) (txn_ids (map kind (ms_ready s)) @ txn_ids (ms_wal s)) (ms_fiber s) (ms_limbo s)"
  using assms by (simp_all add: master_inv_def pend_def)

lemma fiber_invD:
  assumes "fiber_inv n fl fib l"
  shows "t \<in> set fl \<longleftrightarrow> fib t = Fiber_Write"
    and "fib t = Fiber_Confirm \<Longrightarrow> tracked l t" and "fib t = Fiber_Wait w \<Longrightarrow> \<forall>r. w \<noteq> Wait_Done r \<Longrightarrow> tracked l t"
    and "fib t \<noteq> Fiber_None \<Longrightarrow> t < n"
  using assms by (auto simp: fiber_inv_def not_le[symmetric])

text \<open>A fiber leaves \<^const>\<open>Fiber_Write\<close> or \<^const>\<open>Fiber_Confirm\<close> and begins to wait.\<close>

lemma txn_commit_wait_inv:
  assumes "core_inv (ms_cfg s) (ms_lsn s) (ms_next s) (txn_ids (map kind (ms_ready s))) (txn_ids (ms_wal s)) (ready_lsns (ms_ready s)) (ms_limbo s)"
    and "pend_inv (map kind (ms_ready s) @ ms_wal s) (ms_fiber s) (ms_limbo s)"
    and "fiber_inv (ms_next s) (txn_ids (map kind (ms_ready s)) @ txn_ids (ms_wal s)) ((ms_fiber s)(t := Fiber_Confirm)) (ms_limbo s)"
    and "t \<notin> set (by_ids (map kind (ms_ready s) @ ms_wal s))" and "\<forall>w. ms_fiber s t \<noteq> Fiber_Wait w"
  shows "succeeds master_inv (txn_commit_wait t s)"
proof -
  have t: "tracked (ms_limbo s) t" "t < ms_next s" "t \<notin> set (txn_ids (map kind (ms_ready s)) @ txn_ids (ms_wal s))"
    using fiber_invD[OF assms(3), of t] by auto
  obtain w where w: "txn_limbo_wait_complete_begin t (ms_limbo s) = Some w" using wait_begin[OF assms(1) t(1,3)] by blast
  then show ?thesis
    using wait_begin_inv[OF assms(1) t(1,3,2) assms(2,4,5,3)] assms(1)
    by (simp add: txn_commit_wait_def master_inv_def pend_def)
qed

lemma rolling_emit [simp]: "rolling ps fib (emit ev l) = rolling ps fib l"
  by (simp add: rolling_def emit_def fun_eq_iff)

lemma inv_emit [simp]:
  "core_inv cfg mlsn n rs ws rl (emit ev l) = core_inv cfg mlsn n rs ws rl l"
  "pend_inv ps fib (emit ev l) = pend_inv ps fib l"
  "fiber_inv n fl fib (emit ev l) = fiber_inv n fl fib l"
  unfolding pend_inv_def rolling_emit
  by (simp_all add: core_inv_def cfg_inv_def queue_inv_def queue_ok_def entry_ok_def ack_ok_def flight_inv_def lsn_inv_def
      assigned_def fiber_inv_def tracked_def emit_def)

lemma confirm_written_inv:
  assumes "master_inv s" and "ms_ready s = RConfirm lsn by # r"
  shows "succeeds master_inv (confirm_written lsn by (s\<lparr>ms_ready := r\<rparr>))"
proof -
  let ?l = "confirm_prefix (covered lsn (ms_limbo s)) (ms_limbo s)"
  note inv = master_invD[OF assms(1), unfolded assms(2), simplified]
  have read: "txn_limbo_read_confirm lsn (ms_limbo s) = Some ?l"
    using read_confirm_eq core_invD(5,6)[OF inv(1)] by (simp add: covered_def)
  have "sint lsn \<le> sint (lb_confirmed_lsn (ms_limbo s))" using inv(2) unfolding pend_inv_def by (meson list.set_intros(1))
  then have pend: "pend_inv (WConfirm lsn by # map kind r @ ms_wal s) (ms_fiber s) ?l" by (rule confirm_pend[OF inv(1,2)])
  note pend' = pend_inv_Cons[OF pend, simplified]
  note core = confirm_core[OF inv(1), of lsn] and fib = confirm_fiber[OF inv(1,3), of lsn]
  show ?thesis
  proof (cases "by")
    case (ByTxn t)
    then have t: "ms_fiber s t = Fiber_Confirm" using inv(2) by (simp add: pend_inv_def)
    have "succeeds master_inv (txn_commit_wait t (s\<lparr>ms_ready := r, ms_limbo := ?l\<rparr>))"
      by (rule txn_commit_wait_inv) (use core pend' fib t ByTxn in \<open>simp_all add: fun_upd_idem\<close>)
    then show ?thesis using read ByTxn by (simp add: confirm_written_def)
  next
    case ByAck
    then show ?thesis using read core pend' fib by (simp add: confirm_written_def master_inv_def pend_def)
  next
    case ByParams
    then show ?thesis using read core pend' fib ByParams by (simp add: confirm_written_def master_inv_def pend_def)
  qed
qed

section \<open>The journal\<close>

text \<open>A transaction after its write: one that still waits only gets its signature, a plain one is complete.\<close>

definition written_txn :: "i64 \<Rightarrow> txn \<Rightarrow> txn" where
  "written_txn res tx =
     (if tx_wait_sync tx then tx\<lparr>tx_signature := res\<rparr> else tx\<lparr>tx_signature := res, tx_status := TXN_COMMITTED, tx_is_done := True\<rparr>)"

definition written :: "nat \<Rightarrow> i64 \<Rightarrow> limbo \<Rightarrow> limbo" where
  "written t res l = l\<lparr>lb_txns := (lb_txns l)(t := written_txn res (lb_txns l t)),
     lb_log := lb_log l @ (if tx_wait_sync (lb_txns l t) then [EvWakeup t] else [EvCommit t, EvWakeup t])\<rparr>"

lemma written_sel [simp]:
  "lb_queue (written t res l) = lb_queue l" "lb_len (written t res l) = lb_len l" "lb_owner_id (written t res l) = lb_owner_id l"
  "lb_vclock (written t res l) = lb_vclock l" "lb_confirmed_lsn (written t res l) = lb_confirmed_lsn l"
  "lb_is_in_rollback (written t res l) = lb_is_in_rollback l" "lb_entries (written t res l) = lb_entries l"
  "lb_txns (written t res l) e = (if e = t then written_txn res (lb_txns l t) else lb_txns l e)"
  "lb_log (written t res l) = lb_log l @ (if tx_wait_sync (lb_txns l t) then [EvWakeup t] else [EvCommit t, EvWakeup t])"
  by (simp_all add: written_def)

lemma written_txn_sel [simp]:
  "tx_wait_sync (written_txn res tx) = tx_wait_sync tx" "tx_wait_ack (written_txn res tx) = tx_wait_ack tx"
  "tx_signature (written_txn res tx) = res" "tx_fiber (written_txn res tx) = tx_fiber tx"
  "tx_status (written_txn res tx) = (if tx_wait_sync tx then tx_status tx else TXN_COMMITTED)"
  "tx_is_done (written_txn res tx) = (tx_is_done tx \<or> \<not> tx_wait_sync tx)"
  by (simp_all add: written_txn_def)

lemma journal_write_eq:
  assumes "flight_inv n rs (t # ws) l" and "0 \<le> sint res"
  shows "txn_on_journal_write t res l = Some (written t res l)"
proof -
  have t: "tx_signature (lb_txns l t) = TXN_SIGNATURE_UNKNOWN" "\<not> tx_is_done (lb_txns l t)" "tx_fiber (lb_txns l t)"
    using assms(1) by (simp_all add: flight_inv_def)
  let ?l = "upd_txn t (\<lambda>tx. tx\<lparr>tx_signature := res\<rparr>) l"
  show ?thesis
  proof (cases "tx_wait_sync (lb_txns l t)")
    case True
    then have "emit (EvWakeup t) ?l = written t res l"
      by (intro limbo_eqI) (simp_all add: written_def written_txn_def limbo_defs)
    then show ?thesis using True t assms(2) by (simp add: txn_on_journal_write_def upd_txn_def)
  next
    case False
    have "txn_complete_success t ?l = Some (txn_free_or_wakeup t (emit (EvCommit t) (upd_txn t (\<lambda>tx. tx\<lparr>tx_status := TXN_COMMITTED\<rparr>) ?l)))"
      using False t assms(2) by (intro txn_complete_success_eq) (simp_all add: upd_txn_def)
    moreover have "txn_free_or_wakeup t (emit (EvCommit t) (upd_txn t (\<lambda>tx. tx\<lparr>tx_status := TXN_COMMITTED\<rparr>) ?l)) = written t res l"
      using False t by (intro limbo_eqI) (simp_all add: written_def written_txn_def limbo_defs)
    ultimately show ?thesis using False t assms(2) by (simp add: txn_on_journal_write_def upd_txn_def)
  qed
qed

lemma written_core:
  assumes "core_inv cfg mlsn n rs (t # ws) rl l" and "0 \<le> sint res" and "sint mlsn < sint lsn"
  shows "core_inv cfg lsn n (rs @ [t]) ws (rl @ [sint lsn]) (written t res l)"
proof -
  note inv = core_invD[OF assms(1)]
  let ?l = "written t res l"
  have sync: "synchronous ?l e = synchronous l e" for e by simp
  have t: "t \<in> set (lb_queue l) \<Longrightarrow> tx_wait_sync (lb_txns l t)" using inv(5) by (simp add: queue_ok_def entry_ok_def)
  have "queue_inv n ?l"
    using inv(2) t assms(2) unfolding queue_inv_def queue_ok_def by (auto simp: entry_ok_def ack_ok_def)
  moreover have "flight_inv n (rs @ [t]) ws ?l"
    unfolding flight_inv_def
  proof (intro conjI)
    have tw: "t \<notin> set ws" "\<forall>w\<in>set ws. t < w" using inv(3) by (auto simp: flight_inv_def sorted_wrt_append)
    show "\<forall>e\<in>set (lb_queue ?l). if e \<in> set ((rs @ [t]) @ ws) then le_lsn (lb_entries ?l e) = - 1
        else 0 \<le> sint (tx_signature (lb_txns ?l e)) \<and> (synchronous ?l e \<longrightarrow> le_lsn (lb_entries ?l e) \<noteq> - 1)"
      using inv(3) by (simp add: flight_inv_def)
    show "\<forall>e\<in>set ws. tx_signature (lb_txns ?l e) = TXN_SIGNATURE_UNKNOWN \<and> \<not> tx_is_done (lb_txns ?l e) \<and> tx_fiber (lb_txns ?l e) \<and>
        (e \<notin> set (lb_queue ?l) \<longrightarrow> \<not> tx_wait_sync (lb_txns ?l e) \<and> \<not> synchronous ?l e \<and> (\<forall>x\<in>set (lb_queue ?l). e < x))"
      using inv(3) tw(1) by (auto simp: flight_inv_def)
    show "\<forall>e\<in>set (rs @ [t]). 0 \<le> sint (tx_signature (lb_txns ?l e)) \<and>
        (e \<notin> set (lb_queue ?l) \<longrightarrow> \<not> tx_wait_sync (lb_txns ?l e) \<and> tx_is_done (lb_txns ?l e))"
      using inv(3) assms(2) by (simp add: flight_inv_def)
    show "\<forall>e\<in>set (lb_queue ?l) - set ws. \<forall>w\<in>set ws. e < w"
      using inv(3) tw(2) by (auto simp: flight_inv_def)
  qed (use inv(3) in \<open>simp_all add: flight_inv_def\<close>)
  moreover have "lsn_inv (unat (instance_id cfg)) ((rs @ [t]) @ ws) (rl @ [sint lsn]) (sint lsn) ?l"
  proof -
    define as where "as = assigned (rs @ t # ws) l"
    have eq: "assigned ((rs @ [t]) @ ws) ?l = as" unfolding as_def assigned_def sync by simp
    have as: "sorted_wrt (<) (as @ rl)" "\<forall>x\<in>set (as @ rl). 0 < x \<and> x \<le> sint mlsn" "0 \<le> sint mlsn"
      "\<forall>x\<in>set rl. sint (vclock_get (lb_vclock l) (unat (instance_id cfg))) < x"
      "sint (vclock_get (lb_vclock l) (unat (instance_id cfg))) \<le> sint mlsn"
      using inv(1,4) by (simp_all add: lsn_inv_def as_def cfg_inv_def)
    have "x < sint lsn" if "x \<in> set (as @ rl)" for x using bspec[OF as(2) that] assms(3) by linarith
    then show ?thesis unfolding lsn_inv_def eq using as assms(3) by (auto simp: sorted_wrt_append intro: less_imp_le)
  qed
  ultimately show ?thesis using inv(1) assms(3) by (simp add: core_inv_def cfg_inv_def)
qed

lemma written_tracked: "tracked l e \<Longrightarrow> tracked (written t res l) e"
  by (auto simp: tracked_def)

lemma journal_complete_inv:
  assumes "master_inv s" and "sint (ms_lsn s) < sint lsn" and "0 \<le> sint res"
  shows "succeeds master_inv (journal_complete lsn res s)"
proof (cases "ms_wal s")
  case (Cons p w)
  note inv = master_invD[OF assms(1), unfolded Cons]
  show ?thesis
  proof (cases p)
    case (WTxn t)
    let ?l = "written t res (ms_limbo s)"
    note inv' = inv[unfolded WTxn, simplified]
    have "txn_on_journal_write t res (ms_limbo s) = Some ?l" using journal_write_eq[OF core_invD(3)[OF inv'(1)] assms(3)] .
    moreover have "pend_inv (map kind (ms_ready s) @ WTxn t # w) (ms_fiber s) ?l"
      by (rule pend_inv_cong[OF _ _ _ _ inv'(2)]) simp_all
    moreover have "fiber_inv (ms_next s) (txn_ids (map kind (ms_ready s)) @ t # txn_ids w) (ms_fiber s) ?l"
      by (rule fiber_inv_mono[OF inv'(3) written_tracked])
    ultimately show ?thesis
      using Cons WTxn written_core[OF inv'(1) assms(3,2)] by (simp add: journal_complete_def master_inv_def pend_def)
  qed (use Cons inv in \<open>simp_all add: journal_complete_def master_inv_def pend_def\<close>)
qed (use assms(1) in \<open>simp add: journal_complete_def\<close>)

section \<open>Acknowledgements\<close>

text \<open>A replica \<open>r\<close> has acknowledged up to \<open>lsn\<close>, and the entries in \<open>A\<close> count it.\<close>

definition counted :: "nat set \<Rightarrow> vclock \<Rightarrow> limbo \<Rightarrow> limbo" where
  "counted A v l = acked A (l\<lparr>lb_vclock := v\<rparr>)"

lemma counted_sel [simp]:
  "lb_entries (counted A v l) e = (if e \<in> A then (lb_entries l e)\<lparr>le_ack_count := le_ack_count (lb_entries l e) + 1\<rparr> else lb_entries l e)"
  "lb_queue (counted A v l) = lb_queue l" "lb_len (counted A v l) = lb_len l" "lb_owner_id (counted A v l) = lb_owner_id l"
  "lb_vclock (counted A v l) = v" "lb_confirmed_lsn (counted A v l) = lb_confirmed_lsn l"
  "lb_is_in_rollback (counted A v l) = lb_is_in_rollback l" "lb_txns (counted A v l) = lb_txns l" "lb_log (counted A v l) = lb_log l"
  by (simp_all add: counted_def)

lemma acks_follow:
  assumes "\<And>i. vclock_get v' i = (if i = r then lsn else vclock_get v i)" and "r < VCLOCK_MAX" and "sint (vclock_get v r) \<le> sint lsn"
  shows "acks v x \<subseteq> acks v' x"
    and "sint (vclock_get v r) < sint x \<Longrightarrow> sint x \<le> sint lsn \<Longrightarrow> card (acks v' x) = card (acks v x) + 1"
proof -
  show "acks v x \<subseteq> acks v' x" using assms by (auto simp: acks_def)
  assume x: "sint (vclock_get v r) < sint x" "sint x \<le> sint lsn"
  then have "acks v' x = insert r (acks v x)" "r \<notin> acks v x" using assms by (auto simp: acks_def)
  then show "card (acks v' x) = card (acks v x) + 1" by simp
qed

lemma counted_core:
  assumes "core_inv cfg mlsn n rs ws rl l"
    and v: "vclock_wf v" "\<And>i. vclock_get v i = (if i = r then lsn else vclock_get (lb_vclock l) i)"
    and r: "r < VCLOCK_MAX" "sint (vclock_get (lb_vclock l) r) \<le> sint lsn"
    and A: "\<forall>e\<in>A. e \<in> set (lb_queue l) \<and> sint (vclock_get (lb_vclock l) r) < lsn_of l e \<and> lsn_of l e \<le> sint lsn"
    and own: "r = unat (instance_id cfg) \<Longrightarrow> (\<forall>x\<in>set rl. sint lsn < x) \<and> sint lsn \<le> sint mlsn"
  shows "core_inv cfg mlsn n rs ws rl (counted A v l)"
proof -
  note inv = core_invD[OF assms(1)]
  let ?l = "counted A v l"
  have "cfg_inv cfg mlsn ?l" using inv(1) v r by (auto simp: cfg_inv_def intro: order_trans)
  moreover have "queue_inv n ?l"
  proof -
    have "ack_ok ?l e" if "e \<in> set (lb_queue l)" for e
    proof -
      have e: "ack_ok l e" using inv(2) that by (simp add: queue_inv_def)
      have mono: "card (acks (lb_vclock l) x) \<le> card (acks v x)" for x
        using acks_follow(1)[OF v(2) r, of x] by (simp add: card_mono)
      show ?thesis
      proof (cases "e \<in> A")
        case True
        then have gt: "sint (vclock_get (lb_vclock l) r) < lsn_of l e" "lsn_of l e \<le> sint lsn" using A by auto
        have "le_lsn (lb_entries l e) \<noteq> - 1" using gt(1) inv(1) r(1) by (auto simp: cfg_inv_def)
        then show ?thesis using True e acks_follow(2)[OF v(2) r gt] by (simp add: ack_ok_def)
      next
        case False
        then show ?thesis using e mono[of "le_lsn (lb_entries l e)"] by (auto simp: ack_ok_def)
      qed
    qed
    moreover have "entry_ok ?l e = entry_ok l e" for e by (simp add: entry_ok_def txn_limbo_entry_is_complete_def)
    ultimately show ?thesis using inv(2) by (auto simp: queue_inv_def queue_ok_def)
  qed
  moreover have "flight_inv n rs ws ?l"
  proof -
    have "le_lsn (lb_entries ?l e) = le_lsn (lb_entries l e)" for e by simp
    then show ?thesis using inv(3) unfolding flight_inv_def counted_sel(2,8) by presburger
  qed
  moreover have "lsn_inv (unat (instance_id cfg)) (rs @ ws) rl (sint mlsn) ?l"
  proof -
    have "assigned (rs @ ws) ?l = assigned (rs @ ws) l" by (simp add: assigned_def)
    then show ?thesis using inv(4) v(2) own unfolding lsn_inv_def by (cases "r = unat (instance_id cfg)") auto
  qed
  ultimately show ?thesis by (simp add: core_inv_def)
qed

definition confirm_request :: "i64 \<Rightarrow> limbo \<Rightarrow> synchro_request" where
  "confirm_request c l = \<lparr>sr_type = IPROTO_CONFIRM, sr_replica_id = lb_owner_id l, sr_origin_id = 0, sr_lsn = c, sr_term = 0\<rparr>"

definition confirming :: "i64 \<Rightarrow> limbo \<Rightarrow> limbo" where
  "confirming c l = l\<lparr>lb_confirmed_lsn := c, lb_log := lb_log l @ [EvWrite (confirm_request c l)]\<rparr>"

lemma confirming_sel [simp]:
  "lb_entries (confirming c l) = lb_entries l" "lb_queue (confirming c l) = lb_queue l" "lb_len (confirming c l) = lb_len l"
  "lb_owner_id (confirming c l) = lb_owner_id l" "lb_vclock (confirming c l) = lb_vclock l" "lb_confirmed_lsn (confirming c l) = c"
  "lb_is_in_rollback (confirming c l) = lb_is_in_rollback l" "lb_txns (confirming c l) = lb_txns l"
  "lb_log (confirming c l) = lb_log l @ [EvWrite (confirm_request c l)]"
  by (simp_all add: confirming_def)

lemma confirm_begin:
  assumes "sint (lb_confirmed_lsn l) < sint c" and "\<not> lb_is_in_rollback l" and "0 \<le> sint (lb_confirmed_lsn l)"
  shows "txn_limbo_write_confirm c l = Some (confirming c l)"
  using assms
  by (simp add: txn_limbo_write_confirm_def txn_limbo_write_synchro_def confirming_def confirm_request_def emit_def)

lemma confirming_core:
  assumes "core_inv cfg mlsn n rs ws rl l" and "sint (lb_confirmed_lsn l) < sint c"
  shows "core_inv cfg mlsn n rs ws rl (confirming c l)"
proof -
  have "cfg_inv cfg mlsn (confirming c l)" using core_invD(1)[OF assms(1)] assms(2) by (simp add: cfg_inv_def)
  then show ?thesis
    using assms(1)
    by (simp add: core_inv_def queue_inv_def queue_ok_def entry_ok_def ack_ok_def flight_inv_def lsn_inv_def assigned_def)
qed

lemma confirming_pend:
  assumes "pend_inv ps fib l" and "\<not> lb_is_in_rollback l" and "sint (lb_confirmed_lsn l) < sint c" and "0 \<le> sint (lb_confirmed_lsn l)"
    and "set (by_ids [WConfirm c by]) \<inter> set (by_ids ps) = {}" and "\<forall>t\<in>set (by_ids [WConfirm c by]). fib t = Fiber_Confirm"
  shows "pend_inv (ps @ [WConfirm c by]) fib (confirming c l)"
proof -
  have "distinct (by_ids [WConfirm c by])" by (cases "by") auto
  moreover have "sint lsn \<le> sint c" if "WConfirm lsn b \<in> set ps" for lsn b
    using assms(1,3) that unfolding pend_inv_def by (meson order.strict_trans1 less_imp_le)
  ultimately show ?thesis
    using assms by (auto simp: pend_inv_def)
qed

lemma confirming_fiber: "fiber_inv n fl fib l \<Longrightarrow> fiber_inv n fl fib (confirming c l)"
  by (erule fiber_inv_mono) (simp add: tracked_def)

lemma counted_fiber: "fiber_inv n fl fib l \<Longrightarrow> fiber_inv n fl fib (counted A v l)"
  by (erule fiber_inv_mono) (simp add: tracked_def txn_limbo_entry_is_complete_def)

lemma counted_pend: "pend_inv ps fib l \<Longrightarrow> pend_inv ps fib (counted A v l)"
  by (rule pend_inv_cong) simp_all

lemma ack_begin_cases:
  assumes core: "core_inv cfg mlsn n rs ws rl l" and r: "unat r < VCLOCK_MAX" "sint (vclock_get (lb_vclock l) (unat r)) \<le> sint lsn"
    and own: "r = instance_id cfg \<longrightarrow> (\<forall>x\<in>set rl. sint lsn < x) \<and> sint lsn \<le> sint mlsn"
  obtains (same) "txn_limbo_ack_begin cfg r lsn l = Some (None, l)"
  | (count) A v where "txn_limbo_ack_begin cfg r lsn l = Some (None, counted A v l)" "core_inv cfg mlsn n rs ws rl (counted A v l)"
  | (confirm) A v c where "txn_limbo_ack_begin cfg r lsn l = Some (Some c, confirming c (counted A v l))"
      "core_inv cfg mlsn n rs ws rl (counted A v l)" "\<not> lb_is_in_rollback l" "sint (lb_confirmed_lsn l) < sint c"
      "replication_synchro_quorum cfg \<le> int (card (acks v c))"
proof (cases "lb_queue l = [] \<or> lb_is_in_rollback l \<or> lsn = vclock_get (lb_vclock l) (unat r)")
  case True
  then show ?thesis using core_invD(6)[OF core] by (intro same) (auto simp: txn_limbo_ack_begin_def)
next
  case False
  note inv = core_invD[OF core]
  let ?prev = "vclock_get (lb_vclock l) (unat r)"
  have lt: "sint ?prev < sint lsn" using False r(2) by (metis order_le_imp_less_or_eq signed_word_eqI)
  have "vclock_wf (lb_vclock l)" "0 \<le> sint lsn" using inv(1) r lt by (auto simp: cfg_inv_def intro: order_trans)
  then obtain v where v: "vclock_follow (lb_vclock l) (unat r) lsn = Some (?prev, v)" "vclock_wf v"
    "\<And>i. vclock_get v i = (if i = unat r then lsn else vclock_get (lb_vclock l) i)"
    using vclock_follow_spec[OF _ r(1) _ lt] by metis
  let ?l = "l\<lparr>lb_vclock := v\<rparr>"
  have "\<forall>e\<in>set (lb_queue l). le_txn (lb_entries ?l e) = Some e \<and> le_ack_count (lb_entries ?l e) \<le> int VCLOCK_MAX \<and>
      (synchronous ?l e \<or> le_lsn (lb_entries ?l e) = - 1)"
    using queue_entry[OF core] ack_ok_bound by (fastforce simp: entry_ok_def)
  then obtain c A where loop: "ack_loop (replication_synchro_quorum cfg) ?prev lsn (lb_queue l) (- 1) ?l = Some (c, counted A v l)"
    and A: "A \<subseteq> {e \<in> set (lb_queue l). synchronous l e \<and> sint ?prev < lsn_of l e \<and> lsn_of l e \<le> sint lsn}"
    and c: "c = - 1 \<or> (\<exists>e\<in>A. c = le_lsn (lb_entries l e) \<and> replication_synchro_quorum cfg \<le> le_ack_count (lb_entries l e) + 1)"
    using ack_loop_spec[of "lb_queue l" ?l "replication_synchro_quorum cfg" ?prev lsn "- 1"] inv(5)
    unfolding counted_def by (auto simp: queue_ok_def)
  have core': "core_inv cfg mlsn n rs ws rl (counted A v l)"
    by (rule counted_core[OF core v(2,3) r]) (use A own unsigned_word_eqI in auto)
  have ack: "txn_limbo_ack_begin cfg r lsn l =
      (if c = - 1 \<or> sint c \<le> sint (lb_confirmed_lsn l) then Some (None, counted A v l)
       else map_option (Pair (Some c)) (txn_limbo_write_confirm c (counted A v l)))"
    using False v(1) loop inv(6) by (simp add: txn_limbo_ack_begin_def)
  show ?thesis
  proof (cases "c = - 1 \<or> sint c \<le> sint (lb_confirmed_lsn l)")
    case True
    then show ?thesis using ack core' by (intro count) simp_all
  next
    case gt: False
    then obtain e where e: "e \<in> A" "c = le_lsn (lb_entries l e)" "replication_synchro_quorum cfg \<le> le_ack_count (lb_entries l e) + 1"
      using c by auto
    have "ack_ok (counted A v l) e" using queue_entry(2)[OF core', of e] A e(1) by auto
    then have "replication_synchro_quorum cfg \<le> int (card (acks v c))" using e gt by (simp add: ack_ok_def)
    moreover have "txn_limbo_write_confirm c (counted A v l) = Some (confirming c (counted A v l))"
      using gt False inv(1) by (intro confirm_begin) (simp_all add: cfg_inv_def)
    ultimately show ?thesis using ack core' gt False by (intro confirm[of c A v]) simp_all
  qed
qed

lemma relay_ack_inv:
  assumes "master_inv s" and "unat r < VCLOCK_MAX" and "sint (vclock_get (lb_vclock (ms_limbo s)) (unat r)) \<le> sint lsn"
    and "r \<noteq> instance_id (ms_cfg s)"
  shows "succeeds master_inv (relay_ack r lsn s)"
proof (cases "lb_owner_id (ms_limbo s) = instance_id (ms_cfg s)")
  case True
  note inv = master_invD[OF assms(1)]
  have "r = instance_id (ms_cfg s) \<longrightarrow> (\<forall>x\<in>set (ready_lsns (ms_ready s)). sint lsn < x) \<and> sint lsn \<le> sint (ms_lsn s)"
    using assms(4) by simp
  with inv(1) assms(2,3) show ?thesis
  proof (cases rule: ack_begin_cases)
    case same
    then show ?thesis using True assms(1) by (simp add: relay_ack_def)
  next
    case (count A v)
    then show ?thesis
      using True inv counted_pend counted_fiber by (simp add: relay_ack_def master_inv_def pend_def)
  next
    case (confirm A v c)
    have "pend_inv ((map kind (ms_ready s) @ ms_wal s) @ [WConfirm c ByAck]) (ms_fiber s) (confirming c (counted A v (ms_limbo s)))"
      using confirm core_invD(1)[OF inv(1)] by (intro confirming_pend counted_pend inv(2)) (simp_all add: cfg_inv_def)
    then show ?thesis
      using True confirm confirming_core[OF confirm(2)] confirming_fiber[OF counted_fiber[OF inv(3)]]
      by (simp add: relay_ack_def master_inv_def pend_def)
  qed
qed (use assms(1) in \<open>simp add: relay_ack_def\<close>)

section \<open>A transaction after its write\<close>

definition with_lsn :: "nat \<Rightarrow> i64 \<Rightarrow> limbo \<Rightarrow> limbo" where
  "with_lsn t lsn l = upd_entry t (\<lambda>en. en\<lparr>le_lsn := lsn, le_ack_count := int (card (acks (lb_vclock l) lsn))\<rparr>) l"

lemma with_lsn_sel [simp]:
  "lb_entries (with_lsn t lsn l) e =
     (if e = t then (lb_entries l t)\<lparr>le_lsn := lsn, le_ack_count := int (card (acks (lb_vclock l) lsn))\<rparr> else lb_entries l e)"
  "lb_queue (with_lsn t lsn l) = lb_queue l" "lb_len (with_lsn t lsn l) = lb_len l" "lb_owner_id (with_lsn t lsn l) = lb_owner_id l"
  "lb_vclock (with_lsn t lsn l) = lb_vclock l" "lb_confirmed_lsn (with_lsn t lsn l) = lb_confirmed_lsn l"
  "lb_is_in_rollback (with_lsn t lsn l) = lb_is_in_rollback l" "lb_txns (with_lsn t lsn l) = lb_txns l" "lb_log (with_lsn t lsn l) = lb_log l"
  by (simp_all add: with_lsn_def upd_entry_def)

lemma flight_head:
  assumes "flight_inv n (t # rs) ws l" and "queue_ok l"
  shows "t \<notin> set (rs @ ws)" "flight_ok (lb_queue l) (rs @ ws)" "0 \<le> sint (tx_signature (lb_txns l t))"
    and "t \<in> set (lb_queue l) \<Longrightarrow> filter (\<lambda>e. synchronous l e \<and> e \<notin> set (rs @ ws)) (lb_queue l) =
      filter (\<lambda>e. synchronous l e \<and> e \<notin> set (t # rs @ ws)) (lb_queue l) @ (if synchronous l t then [t] else [])"
proof -
  show t: "t \<notin> set (rs @ ws)" "0 \<le> sint (tx_signature (lb_txns l t))" using assms(1) by (auto simp: flight_inv_def)
  have fl: "flight_ok (lb_queue l) (t # rs @ ws)" using assms(1) by (simp add: flight_inv_def)
  show "flight_ok (lb_queue l) (rs @ ws)"
    by (rule flight_ok_tl[OF fl]) (use t assms(2) in \<open>simp_all add: queue_ok_def\<close>)
  assume tq: "t \<in> set (lb_queue l)"
  define N U where "N = filter (\<lambda>e. e \<notin> set (t # rs @ ws)) (lb_queue l)" and "U = filter (\<lambda>e. e \<in> set (lb_queue l)) (rs @ ws)"
  have q: "lb_queue l = N @ t # U" using fl tq unfolding flight_ok_def N_def U_def by simp
  have N: "\<forall>e\<in>set N. e \<notin> set (t # rs @ ws)" and U: "\<forall>e\<in>set U. e \<in> set (rs @ ws)" by (auto simp: N_def U_def)
  have "filter (\<lambda>e. synchronous l e \<and> e \<notin> set (rs @ ws)) N = filter (synchronous l) N"
    "filter (\<lambda>e. synchronous l e \<and> e \<notin> set (t # rs @ ws)) N = filter (synchronous l) N"
    "filter (\<lambda>e. synchronous l e \<and> e \<notin> set (rs @ ws)) U = []" "filter (\<lambda>e. synchronous l e \<and> e \<notin> set (t # rs @ ws)) U = []"
    using N U by (auto simp: filter_empty_conv intro!: filter_cong)
  then show "filter (\<lambda>e. synchronous l e \<and> e \<notin> set (rs @ ws)) (lb_queue l) =
      filter (\<lambda>e. synchronous l e \<and> e \<notin> set (t # rs @ ws)) (lb_queue l) @ (if synchronous l t then [t] else [])"
    unfolding q filter_append using t by simp
qed

lemma flight_pop:
  assumes "flight_inv n (t # rs) ws l" and "queue_ok l" and "lb_queue l' = lb_queue l" and "lb_txns l' = lb_txns l"
    and "\<And>e. e \<noteq> t \<Longrightarrow> le_lsn (lb_entries l' e) = le_lsn (lb_entries l e)"
    and "t \<in> set (lb_queue l) \<Longrightarrow> synchronous l t \<Longrightarrow> le_lsn (lb_entries l' t) \<noteq> - 1"
  shows "flight_inv n rs ws l'"
proof -
  note h = flight_head[OF assms(1,2)]
  have "if e \<in> set (rs @ ws) then le_lsn (lb_entries l' e) = - 1
      else 0 \<le> sint (tx_signature (lb_txns l e)) \<and> (synchronous l e \<longrightarrow> le_lsn (lb_entries l' e) \<noteq> - 1)"
    if "e \<in> set (lb_queue l)" for e
    using assms(1,5,6) h(1,3) that by (cases "e = t") (auto simp: flight_inv_def split: if_splits)
  then show ?thesis using assms(1) h(2) unfolding flight_inv_def assms(3,4) by auto
qed

text \<open>The fiber of \<open>t\<close> has run: an asynchronous or settled transaction changes nothing, a synchronous one gets its LSN.\<close>

lemma pop_core:
  assumes "core_inv cfg mlsn n (t # rs) ws (lsn # rl) l" and "t \<notin> set (lb_queue l) \<or> \<not> synchronous l t"
  shows "core_inv cfg mlsn n rs ws rl l"
proof -
  note inv = core_invD[OF assms(1)]
  note h = flight_head[OF inv(3,5)]
  have "flight_inv n rs ws l" by (rule flight_pop[OF inv(3,5)]) (use assms(2) in auto)
  moreover have "assigned (rs @ ws) l = assigned ((t # rs) @ ws) l"
  proof (cases "t \<in> set (lb_queue l)")
    case True
    then show ?thesis using h(4) assms(2) by (simp add: assigned_def)
  next
    case False
    then have "filter (\<lambda>e. synchronous l e \<and> e \<notin> set (rs @ ws)) (lb_queue l) =
        filter (\<lambda>e. synchronous l e \<and> e \<notin> set ((t # rs) @ ws)) (lb_queue l)" by (auto intro!: filter_cong)
    then show ?thesis by (simp add: assigned_def)
  qed
  then have "lsn_inv (unat (instance_id cfg)) (rs @ ws) rl (sint mlsn) l"
    using inv(4) unfolding lsn_inv_def by (auto simp: sorted_wrt_append)
  ultimately show ?thesis using inv(1,2) by (simp add: core_inv_def)
qed

lemma lsn_core:
  assumes "core_inv cfg mlsn n (t # rs) ws (sint lsn # rl) l" and "t \<in> set (lb_queue l)" and "synchronous l t"
  shows "core_inv cfg mlsn n rs ws rl (with_lsn t lsn l)"
proof -
  note inv = core_invD[OF assms(1)]
  note h = flight_head[OF inv(3,5)]
  let ?l = "with_lsn t lsn l"
  have lsn: "0 < sint lsn" "lsn \<noteq> - 1" using inv(4) by (auto simp: lsn_inv_def)
  have "queue_inv n ?l"
  proof -
    have "entry_ok ?l e" "ack_ok ?l e" if "e \<in> set (lb_queue l)" for e
      using queue_entry[OF assms(1) that] lsn h(3) assms(3)
      by (auto simp: entry_ok_def ack_ok_def txn_limbo_entry_is_complete_def)
    then show ?thesis using inv(2) by (simp add: queue_inv_def queue_ok_def)
  qed
  moreover have "flight_inv n rs ws ?l" by (rule flight_pop[OF inv(3,5)]) (use lsn(2) in auto)
  moreover have "assigned (rs @ ws) ?l = assigned ((t # rs) @ ws) l @ [sint lsn]"
  proof -
    have "map (lsn_of ?l) (filter (\<lambda>e. synchronous l e \<and> e \<notin> set (t # rs @ ws)) (lb_queue l)) =
        map (lsn_of l) (filter (\<lambda>e. synchronous l e \<and> e \<notin> set (t # rs @ ws)) (lb_queue l))" by simp
    then show ?thesis using h(4)[OF assms(2)] assms(3) by (simp add: assigned_def)
  qed
  then have "lsn_inv (unat (instance_id cfg)) (rs @ ws) rl (sint mlsn) ?l"
    using inv(4) unfolding lsn_inv_def by (auto simp: sorted_wrt_append)
  ultimately show ?thesis using inv(1) by (simp add: core_inv_def cfg_inv_def)
qed

lemma assign_local_eq:
  assumes "core_inv cfg mlsn n (t # rs) ws (sint lsn # rl) l" and "t \<in> set (lb_queue l)" and "synchronous l t"
  shows "txn_limbo_assign_local_lsn cfg t lsn l = Some (with_lsn t lsn l)"
proof -
  note inv = core_invD[OF assms(1)]
  have "le_lsn (lb_entries l t) = - 1" using inv(3) assms(2) by (simp add: flight_inv_def)
  moreover have "0 < sint lsn" using inv(4) by (simp add: lsn_inv_def)
  moreover have "upd_entry t (\<lambda>en. en\<lparr>le_ack_count := k\<rparr>) (upd_entry t (\<lambda>en. en\<lparr>le_lsn := lsn\<rparr>) l) =
      upd_entry t (\<lambda>en. en\<lparr>le_lsn := lsn, le_ack_count := k\<rparr>) l" for k
    by (simp add: upd_entry_def)
  ultimately show ?thesis
    using queue_entry[OF assms(1,2)] inv(1,6) assms(3)
    by (simp add: txn_limbo_assign_local_lsn_def entry_ok_def ack_ok_def cfg_inv_def count_acks_eq with_lsn_def upd_entry_def)
qed

lemma fiber_pop:
  assumes "fiber_inv n (t # fl) fib l" and "t \<notin> set fl" and "f = Fiber_Confirm \<Longrightarrow> tracked l' t" and "\<forall>w. f \<noteq> Fiber_Wait w"
    and "f \<noteq> Fiber_Write" and "\<And>e. e \<noteq> t \<Longrightarrow> tracked l e \<Longrightarrow> tracked l' e"
  shows "fiber_inv n fl (fib(t := f)) l'"
  unfolding fiber_inv_def
proof (intro conjI allI impI)
  fix e
  show "e \<in> set fl \<longleftrightarrow> (fib(t := f)) e = Fiber_Write" using fiber_invD(1)[OF assms(1), of e] assms(2,5) by auto
  show "n \<le> e \<Longrightarrow> (fib(t := f)) e = Fiber_None" using assms(1) fiber_invD(1)[OF assms(1), of t] by (auto simp: fiber_inv_def)
  assume "(fib(t := f)) e = Fiber_Confirm \<or> (\<exists>w. (fib(t := f)) e = Fiber_Wait w \<and> (\<forall>r. w \<noteq> Wait_Done r))"
  then show "tracked l' e"
    using assms(3,4,6) fiber_invD(2,3)[OF assms(1), of e] by (cases "e = t") auto
qed

text \<open>A synchronous transaction that is written, and so acknowledged by the instance itself.\<close>

lemma txn_commit_written_sync:
  assumes "master_inv s" and "ms_ready s = RTxn t lsn # r" and True: "t \<in> set (lb_queue (ms_limbo s))" and sync: "synchronous (ms_limbo s) t"
    and ws: "tx_wait_sync (lb_txns (ms_limbo s) t)" and tr: "tracked (ms_limbo s) t"
  shows "succeeds master_inv (txn_commit_written t lsn (s\<lparr>ms_ready := r\<rparr>))"
proof -
  note inv = master_invD[OF assms(1), unfolded assms(2), simplified]
  note core = inv(1) and cinv = core_invD[OF inv(1)]
  let ?l = "ms_limbo s" and ?ps = "map kind r @ ms_wal s" and ?fl = "txn_ids (map kind r) @ txn_ids (ms_wal s)"
  note h = flight_head[OF cinv(3,5)]
  have pend: "pend_inv ?ps (ms_fiber s) ?l" using pend_inv_Cons(1)[OF inv(2)] by simp
  have wr: "ms_fiber s t = Fiber_Write" using fiber_invD(1)[OF inv(3), of t] by simp
  then have notby: "t \<notin> set (by_ids ?ps)" using pend by (auto simp: pend_inv_def)
  let ?l1 = "with_lsn t lsn ?l"
  have core1: "core_inv (ms_cfg s) (ms_lsn s) (ms_next s) (txn_ids (map kind r)) (txn_ids (ms_wal s)) (ready_lsns r) ?l1"
    by (rule lsn_core[OF core True sync])
  have tr1: "tracked ?l1 e" if "tracked ?l e" for e using that by (auto simp: tracked_def txn_limbo_entry_is_complete_def)
  have fib1: "fiber_inv (ms_next s) ?fl ((ms_fiber s)(t := Fiber_Confirm)) ?l1"
    by (rule fiber_pop[OF inv(3)]) (use h(1) tr tr1 in simp_all)
  have "pend_inv (WTxn t # ?ps) (ms_fiber s) ?l1" by (rule pend_inv_cong[OF _ _ _ _ inv(2)]) auto
  then have pend1: "pend_inv ?ps (ms_fiber s) ?l1" using pend_inv_Cons(1) by simp
  have own: "lb_owner_id ?l1 = instance_id (ms_cfg s)" "unat (instance_id (ms_cfg s)) < VCLOCK_MAX"
    using cinv(1) by (simp_all add: cfg_inv_def)
  have lsn: "sint (vclock_get (lb_vclock ?l1) (unat (instance_id (ms_cfg s)))) \<le> sint lsn"
    "instance_id (ms_cfg s) = instance_id (ms_cfg s) \<longrightarrow> (\<forall>x\<in>set (ready_lsns r). sint lsn < x) \<and> sint lsn \<le> sint (ms_lsn s)"
    using cinv(4) by (auto simp: lsn_inv_def sorted_wrt_append)
  have step: "txn_commit_written t lsn (s\<lparr>ms_ready := r\<rparr>) = do {
      (c, l) \<leftarrow> txn_limbo_ack_begin (ms_cfg s) (instance_id (ms_cfg s)) lsn ?l1;
      case c of
        None \<Rightarrow> txn_commit_wait t (s\<lparr>ms_ready := r, ms_limbo := l\<rparr>)
      | Some clsn \<Rightarrow> Some (s\<lparr>ms_ready := r, ms_limbo := l, ms_wal := ms_wal s @ [WConfirm clsn (ByTxn t)],
                         ms_fiber := (ms_fiber s)(t := Fiber_Confirm)\<rparr>) }"
    using ws sync assign_local_eq[OF core True sync] own(1) by (simp add: txn_commit_written_def cong: option.case_cong)
  from core1 own(2) lsn show ?thesis
  proof (cases rule: ack_begin_cases)
    case same
    have "succeeds master_inv (txn_commit_wait t (s\<lparr>ms_ready := r, ms_limbo := ?l1\<rparr>))"
      using core1 pend1 fib1 notby wr by (intro txn_commit_wait_inv) simp_all
    then show ?thesis using same by (simp add: step)
  next
    case (count A v)
    have "succeeds master_inv (txn_commit_wait t (s\<lparr>ms_ready := r, ms_limbo := counted A v ?l1\<rparr>))"
      using count counted_pend[OF pend1] counted_fiber[OF fib1] notby wr by (intro txn_commit_wait_inv) simp_all
    then show ?thesis using count by (simp add: step)
  next
    case (confirm A v c)
    have "pend_inv ?ps ((ms_fiber s)(t := Fiber_Confirm)) ?l1" by (rule pend_inv_fib[OF pend1]) (use notby wr in auto)
    then have "pend_inv (?ps @ [WConfirm c (ByTxn t)]) ((ms_fiber s)(t := Fiber_Confirm)) (confirming c (counted A v ?l1))"
      using confirm core_invD(1)[OF core1] notby by (intro confirming_pend counted_pend) (simp_all add: cfg_inv_def)
    then show ?thesis
      using confirm confirming_core[OF confirm(2)] confirming_fiber[OF counted_fiber[OF fib1]]
      by (simp add: step master_inv_def pend_def)
  qed
qed

lemma txn_commit_written_inv:
  assumes "master_inv s" and "ms_ready s = RTxn t lsn # r"
  shows "succeeds master_inv (txn_commit_written t lsn (s\<lparr>ms_ready := r\<rparr>))"
proof -
  note inv = master_invD[OF assms(1), unfolded assms(2), simplified]
  note core = inv(1) and cinv = core_invD[OF inv(1)]
  let ?l = "ms_limbo s" and ?ps = "map kind r @ ms_wal s" and ?fl = "txn_ids (map kind r) @ txn_ids (ms_wal s)"
  note h = flight_head[OF cinv(3,5)]
  have pend: "pend_inv ?ps (ms_fiber s) ?l" using pend_inv_Cons(1)[OF inv(2)] by simp
  have wr: "ms_fiber s t = Fiber_Write" using fiber_invD(1)[OF inv(3), of t] by simp
  then have notby: "t \<notin> set (by_ids ?ps)" using pend by (auto simp: pend_inv_def)
  have quiet: "tx_is_done (lb_txns ?l t)" "\<not> tx_wait_sync (lb_txns ?l t)" if "t \<notin> set (lb_queue ?l)"
    using cinv(3) that by (simp_all add: flight_inv_def)
  show ?thesis
  proof (cases "t \<in> set (lb_queue ?l)")
    case False
    have "fiber_inv (ms_next s) ?fl ((ms_fiber s)(t := Fiber_Done None)) ?l"
      by (rule fiber_pop[OF inv(3)]) (use h(1) in simp_all)
    moreover have "pend_inv ?ps ((ms_fiber s)(t := Fiber_Done None)) ?l"
      by (rule pend_inv_fib[OF pend]) (use notby wr in auto)
    ultimately show ?thesis
      using False quiet h(3) pop_core[OF core] by (simp add: txn_commit_written_def master_inv_def pend_def)
  next
    case True
    note e = queue_entry(1)[OF core True]
    have ws: "tx_wait_sync (lb_txns ?l t)" and tr: "tracked ?l t" using e True by (simp_all add: entry_ok_def tracked_def)
    show ?thesis
    proof (cases "synchronous ?l t")
      case False
      have "fiber_inv (ms_next s) ?fl ((ms_fiber s)(t := Fiber_Confirm)) ?l"
        by (rule fiber_pop[OF inv(3)]) (use h(1) tr in simp_all)
      then have "succeeds master_inv (txn_commit_wait t (s\<lparr>ms_ready := r\<rparr>))"
        using pop_core[OF core] pend notby wr False by (intro txn_commit_wait_inv) simp_all
      then show ?thesis using False ws by (simp add: txn_commit_written_def)
    next
      case sync: True
      then show ?thesis using txn_commit_written_sync[OF assms True _ ws tr] by blast
    qed
  qed
qed

section \<open>Rollback\<close>

lemma rolling_only:
  assumes "rolling (WRollback t # ps) fib l u"
  shows "ps = []" and "u = t"
  using assms by (auto simp: rolling_def Cons_eq_append_conv)

lemma aborted_tracked:
  assumes "queue_inv n l" and "lb_queue l = S" and "tracked l e"
  shows "tracked (abort_suffix sig evs S l) e"
proof (cases "e \<in> set S")
  case True
  then have "tx_fiber (lb_txns l e)" using assms(1,2) by (auto simp: queue_inv_def)
  then show ?thesis using True assms(3) by (simp add: tracked_def txn_limbo_entry_is_complete_def aborted_txn_def)
next
  case False
  then show ?thesis using assms(2,3) by (simp add: tracked_def)
qed

lemma rollback_written_inv:
  assumes "master_inv s" and "ms_ready s = RRollback t # r"
  shows "succeeds master_inv (rollback_written t (s\<lparr>ms_ready := r\<rparr>))"
proof -
  note inv = master_invD[OF assms(1), unfolded assms(2), simplified]
  note cinv = core_invD[OF inv(1)]
  let ?l = "ms_limbo s"
  have in_rb: "lb_is_in_rollback ?l" using inv(2) by (auto simp: pend_inv_def split: if_splits)
  then obtain u where "rolling (WRollback t # map kind r @ ms_wal s) (ms_fiber s) ?l u"
    using inv(2) by (auto simp: pend_inv_def)
  note roll = this rolling_only[OF this]
  then obtain S where S: "lb_queue ?l = t # S" by (cases "lb_queue ?l") (auto simp: rolling_def)
  have empty: "r = []" "ms_wal s = []" using roll(2) by auto
  let ?l0 = "txn_limbo_write_rollback_end ?l"
  have l0: "queue_inv (ms_next s) ?l0" "queue_ok ?l0"
    using cinv(2) by (simp_all add: txn_limbo_write_rollback_end_def queue_inv_def queue_ok_def entry_ok_def ack_ok_def)
  define l' where "l' = abort_suffix TXN_SIGNATURE_QUORUM_TIMEOUT (rollback_events (\<lambda>e. [EvWakeup e]) ?l0 (t # S)) (t # S) ?l0"
  have loop: "timeout_rollback_loop (rev (lb_queue ?l0)) t ?l0 = Some l'"
    using timeout_rollback_loop_eq[OF l0(2), of "[]" t S] S unfolding l'_def by (simp add: txn_limbo_write_rollback_end_def)
  have q: "lb_queue l' = []" "lb_is_in_rollback l' = False" using S by (simp_all add: l'_def txn_limbo_write_rollback_end_def)
  have "cfg_inv (ms_cfg s) (ms_lsn s) l'" using cinv(1) by (simp add: l'_def cfg_inv_def txn_limbo_write_rollback_end_def)
  moreover have "queue_inv (ms_next s) l'"
    using q cinv(5) S by (simp add: queue_inv_def queue_ok_def) (simp add: l'_def txn_limbo_write_rollback_end_def)
  moreover have "flight_inv (ms_next s) [] [] l'" using q by (simp add: flight_inv_def flight_ok_def)
  moreover have "lsn_inv (unat (instance_id (ms_cfg s))) [] [] (sint (ms_lsn s)) l'"
    using cinv(4) q by (simp add: lsn_inv_def assigned_def) (simp add: l'_def txn_limbo_write_rollback_end_def)
  ultimately have "core_inv (ms_cfg s) (ms_lsn s) (ms_next s) [] [] [] l'" by (simp add: core_inv_def)
  moreover have "pend_inv [] ((ms_fiber s)(t := Fiber_Wait w)) l'" for w using q by (simp add: pend_inv_def)
  moreover have "fiber_inv (ms_next s) [] ((ms_fiber s)(t := Fiber_Wait (Wait_Done e))) l'" for e
  proof -
    have tr: "tracked l' x" if "tracked (ms_limbo s) x" for x
    proof -
      have "lb_queue ?l0 = t # S" "tracked ?l0 x" using that S by (simp_all add: tracked_def txn_limbo_write_rollback_end_def)
      then show ?thesis unfolding l'_def by (rule aborted_tracked[OF l0(1)])
    qed
    have "fiber_inv (ms_next s) [] (ms_fiber s) (ms_limbo s)" using inv(3) empty by simp
    then have "fiber_inv (ms_next s) [] (ms_fiber s) l'" by (rule fiber_inv_mono) (rule tr)
    moreover have "t < ms_next s" using queue_entry(3)[OF inv(1), of t] S by simp
    ultimately show ?thesis by (auto simp: fiber_inv_def)
  qed
  ultimately show ?thesis
    using loop empty by (simp add: rollback_written_def txn_limbo_wait_complete_rollback_def master_inv_def pend_def)
      (simp add: txn_limbo_write_rollback_end_def)
qed

section \<open>Waiting\<close>

lemma fiber_move:
  assumes "fiber_inv n fl fib l" and "fib t = Fiber_Wait w0" and "\<forall>r. w0 \<noteq> Wait_Done r"
  shows "fiber_inv n fl (fib(t := Fiber_Wait w)) l"
proof -
  have "tracked l t" "t < n" using fiber_invD(3,4)[OF assms(1), of t] assms(2,3) by auto
  then show ?thesis using assms(1,2) by (auto simp: fiber_inv_def)
qed

lemma tracked_return:
  assumes "core_inv cfg mlsn n rs ws rl l" and "tracked l t" and "txn_limbo_entry_is_complete (lb_entries l t)"
  shows "\<exists>r. wait_complete_return t l = Some r"
proof -
  have "t \<notin> set (lb_queue l)" using queue_entry(1)[OF assms(1), of t] assms(3) by (auto simp: entry_ok_def)
  then show ?thesis using assms(2,3) by (simp add: tracked_def wait_complete_return_def bind_c_assert)
qed

lemma wake_move:
  assumes "master_inv s" and f: "ms_fiber s t = Fiber_Wait w0" and w0: "w0 = Wait_Timed \<or> w0 = Wait_Untimed"
  shows "master_inv (s\<lparr>ms_fiber := (ms_fiber s)(t := Fiber_Wait w)\<rparr>)"
proof -
  note inv = master_invD[OF assms(1)]
  let ?l = "ms_limbo s" and ?ps = "map kind (ms_ready s) @ ms_wal s"
  have "pend_inv ?ps ((ms_fiber s)(t := Fiber_Wait w)) ?l"
    by (rule pend_inv_fib[OF inv(2)]) (use f w0 inv(2) in \<open>auto simp: pend_inv_def\<close>)
  moreover have "fiber_inv (ms_next s) (txn_ids (map kind (ms_ready s)) @ txn_ids (ms_wal s)) ((ms_fiber s)(t := Fiber_Wait w)) ?l"
    by (rule fiber_move[OF inv(3) f]) (use w0 in auto)
  ultimately show ?thesis using inv(1) by (simp add: master_inv_def pend_def)
qed

text \<open>The first transaction of the queue has run out of time.\<close>

lemma wake_rollback:
  assumes "master_inv s" and fib: "ms_fiber s t = Fiber_Wait Wait_Timed" and tr: "tracked (ms_limbo s) t"
    and fl: "t \<notin> set (txn_ids (map kind (ms_ready s)) @ txn_ids (ms_wal s))"
    and True: "\<not> txn_limbo_entry_is_complete (lb_entries (ms_limbo s) t) \<and> timed_out \<and> hd (lb_queue (ms_limbo s)) = t \<and>
      sint (lb_confirmed_lsn (ms_limbo s)) < lsn_of (ms_limbo s) t"
  shows "succeeds master_inv (wake_fiber t timed_out s)"
proof -
  note inv = master_invD[OF assms(1)]
  note cinv = core_invD[OF inv(1)]
  let ?l = "ms_limbo s" and ?ps = "map kind (ms_ready s) @ ms_wal s"
  have tq: "t \<in> set (lb_queue ?l)" using tr True by (simp add: tracked_def)
  have "\<not> lb_is_in_rollback ?l" using inv(2) True fib by (auto simp: pend_inv_def rolling_def)
  have pos: "0 < lsn_of ?l t"
    using queue_entry(1)[OF inv(1) tq] True cinv(1) by (auto simp: entry_ok_def cfg_inv_def)
  let ?l' = "emit (EvWrite \<lparr>sr_type = IPROTO_ROLLBACK, sr_replica_id = lb_owner_id ?l, sr_origin_id = 0,
      sr_lsn = le_lsn (lb_entries ?l t), sr_term = 0\<rparr>) (?l\<lparr>lb_is_in_rollback := True\<rparr>)"
  have step: "txn_limbo_wait_complete_resume t timed_out ?l = Some (Wait_Rollback, ?l')"
    using True tq pos \<open>\<not> lb_is_in_rollback ?l\<close>
    by (auto simp: txn_limbo_wait_complete_resume_def txn_limbo_is_empty_def txn_limbo_write_rollback_begin_def txn_limbo_write_synchro_def
        bind_c_assert)
  have "core_inv (ms_cfg s) (ms_lsn s) (ms_next s) (txn_ids (map kind (ms_ready s))) (txn_ids (ms_wal s)) (ready_lsns (ms_ready s))
      (?l\<lparr>lb_is_in_rollback := True\<rparr>)"
    using inv(1) by (simp add: core_inv_def cfg_inv_def queue_inv_def queue_ok_def entry_ok_def ack_ok_def flight_inv_def lsn_inv_def assigned_def)
  moreover have "pend_inv (?ps @ [WRollback t]) ((ms_fiber s)(t := Fiber_Wait Wait_Rollback)) (?l\<lparr>lb_is_in_rollback := True\<rparr>)"
  proof -
    have "t \<notin> set (by_ids ?ps)" using inv(2) fib by (auto simp: pend_inv_def)
    moreover have "WTxn t \<notin> set ?ps" using fl by (simp add: in_txn_ids flip: txn_ids_append)
    moreover have "\<forall>u. WRollback u \<notin> set ?ps" using inv(2) \<open>\<not> lb_is_in_rollback ?l\<close> by (simp add: pend_inv_def)
    moreover have "lb_queue ?l \<noteq> []" using tq by auto
    ultimately have "rolling (?ps @ [WRollback t]) ((ms_fiber s)(t := Fiber_Wait Wait_Rollback)) (?l\<lparr>lb_is_in_rollback := True\<rparr>) t"
      using True by (simp add: rolling_def)
    then show ?thesis using inv(2) \<open>t \<notin> set (by_ids ?ps)\<close> by (auto simp: pend_inv_def)
  qed
  moreover have "fiber_inv (ms_next s) (txn_ids (map kind (ms_ready s)) @ txn_ids (ms_wal s))
      ((ms_fiber s)(t := Fiber_Wait Wait_Rollback)) (?l\<lparr>lb_is_in_rollback := True\<rparr>)"
    by (rule fiber_inv_mono[OF fiber_move[OF inv(3) fib]]) (simp_all add: tracked_def)
  ultimately show ?thesis using fib step by (simp add: wake_fiber_def master_inv_def pend_def)
qed

text \<open>Otherwise nothing changes but the place of the fiber.\<close>

lemma wake_calm:
  assumes "master_inv s" and tr: "tracked (ms_limbo s) t" and fl: "t \<notin> set (txn_ids (map kind (ms_ready s)) @ txn_ids (ms_wal s))"
    and calm: "\<not> (\<not> txn_limbo_entry_is_complete (lb_entries (ms_limbo s) t) \<and> timed_out \<and> hd (lb_queue (ms_limbo s)) = t \<and>
      sint (lb_confirmed_lsn (ms_limbo s)) < lsn_of (ms_limbo s) t)"
  shows "\<exists>w. txn_limbo_wait_complete_resume t timed_out (ms_limbo s) = Some (w, ms_limbo s) \<and> w \<noteq> Wait_Rollback"
proof -
  note inv = master_invD[OF assms(1)]
  note cinv = core_invD[OF inv(1)]
  show ?thesis
  proof (cases "txn_limbo_entry_is_complete (lb_entries (ms_limbo s) t)")
    case True
    then show ?thesis using tracked_return[OF inv(1) tr] by (auto simp: txn_limbo_wait_complete_resume_def)
  next
    case pending: False
    then have tq: "t \<in> set (lb_queue (ms_limbo s))" using tr by (simp add: tracked_def)
    have "hd (lb_queue (ms_limbo s)) = t \<Longrightarrow> 0 < lsn_of (ms_limbo s) t"
    proof -
      assume "hd (lb_queue (ms_limbo s)) = t"
      then have "synchronous (ms_limbo s) t" using cinv(2) tq by (auto simp: queue_inv_def)
      then show "0 < lsn_of (ms_limbo s) t" using queue_entry(1)[OF inv(1) tq] cinv(3) tq fl by (auto simp: entry_ok_def flight_inv_def)
    qed
    then show ?thesis
      using pending calm tq by (auto simp: txn_limbo_wait_complete_resume_def txn_limbo_is_empty_def bind_c_assert)
  qed
qed

lemma wake_fiber_inv:
  assumes "master_inv s"
  shows "succeeds master_inv (wake_fiber t timed_out s)"
proof -
  note inv = master_invD[OF assms]
  let ?l = "ms_limbo s"
  consider "ms_fiber s t = Fiber_Wait Wait_Timed" | "ms_fiber s t = Fiber_Wait Wait_Untimed"
    | "ms_fiber s t \<noteq> Fiber_Wait Wait_Timed" "ms_fiber s t \<noteq> Fiber_Wait Wait_Untimed" by blast
  then show ?thesis
  proof cases
    case 1
    have tr: "tracked ?l t" using fiber_invD(3)[OF inv(3) 1] by simp
    have fl: "t \<notin> set (txn_ids (map kind (ms_ready s)) @ txn_ids (ms_wal s))" using fiber_invD(1)[OF inv(3), of t] 1 by auto
    show ?thesis
    proof (cases "\<not> txn_limbo_entry_is_complete (lb_entries ?l t) \<and> timed_out \<and> hd (lb_queue ?l) = t \<and> sint (lb_confirmed_lsn ?l) < lsn_of ?l t")
      case True
      then show ?thesis by (rule wake_rollback[OF assms 1 tr fl])
    next
      case False
      from wake_calm[OF assms tr fl this] show ?thesis using 1 wake_move[OF assms 1] by (auto simp: wake_fiber_def)
    qed
  next
    case 2
    have "tracked ?l t" using fiber_invD(3)[OF inv(3) 2] by simp
    then obtain w where "txn_limbo_wait_complete_yielded t ?l = Some w"
      using tracked_return[OF inv(1), of t]
      by (cases "txn_limbo_entry_is_complete (lb_entries ?l t)") (auto simp: txn_limbo_wait_complete_yielded_def)
    then show ?thesis using 2 wake_move[OF assms 2] by (simp add: wake_fiber_def)
  next
    case 3
    then show ?thesis using assms by (simp add: wake_fiber_def split: commit_fiber.splits wait_state.splits)
  qed
qed

section \<open>New transactions and parameters\<close>

text \<open>A transaction with a new identity, refused or appended.\<close>

definition new_txn :: "nat \<Rightarrow> txn \<Rightarrow> limbo \<Rightarrow> limbo" where
  "new_txn t tx l = l\<lparr>lb_txns := (lb_txns l)(t := tx)\<rparr>"

definition appended :: "nat \<Rightarrow> txn \<Rightarrow> limbo \<Rightarrow> limbo" where
  "appended t tx l = (upd_entry t (\<lambda>_. \<lparr>le_txn = Some t, le_lsn = - 1, le_ack_count = 0, le_is_commit = False, le_is_rollback = False\<rparr>)
     (new_txn t tx l))\<lparr>lb_queue := lb_queue l @ [t], lb_len := lb_len l + 1\<rparr>"

lemma new_txn_sel [simp]:
  "lb_entries (new_txn t tx l) = lb_entries l" "lb_queue (new_txn t tx l) = lb_queue l" "lb_len (new_txn t tx l) = lb_len l"
  "lb_owner_id (new_txn t tx l) = lb_owner_id l" "lb_vclock (new_txn t tx l) = lb_vclock l"
  "lb_confirmed_lsn (new_txn t tx l) = lb_confirmed_lsn l" "lb_is_in_rollback (new_txn t tx l) = lb_is_in_rollback l"
  "lb_txns (new_txn t tx l) e = (if e = t then tx else lb_txns l e)" "lb_log (new_txn t tx l) = lb_log l"
  by (simp_all add: new_txn_def)

lemma appended_sel [simp]:
  "lb_entries (appended t tx l) e = (if e = t then \<lparr>le_txn = Some t, le_lsn = - 1, le_ack_count = 0, le_is_commit = False, le_is_rollback = False\<rparr>
     else lb_entries l e)"
  "lb_queue (appended t tx l) = lb_queue l @ [t]" "lb_len (appended t tx l) = lb_len l + 1"
  "lb_owner_id (appended t tx l) = lb_owner_id l" "lb_vclock (appended t tx l) = lb_vclock l"
  "lb_confirmed_lsn (appended t tx l) = lb_confirmed_lsn l" "lb_is_in_rollback (appended t tx l) = lb_is_in_rollback l"
  "lb_txns (appended t tx l) e = (if e = t then tx else lb_txns l e)" "lb_log (appended t tx l) = lb_log l"
  by (simp_all add: appended_def upd_entry_def)

lemma fresh_facts:
  assumes "core_inv cfg mlsn n rs ws rl l"
  shows "n \<notin> set (lb_queue l)" "n \<notin> set (rs @ ws)" "\<And>e. e \<in> set (lb_queue l) \<Longrightarrow> e < n" "\<And>e. e \<in> set (rs @ ws) \<Longrightarrow> e < n"
  using core_invD(2,3)[OF assms] by (auto simp: queue_inv_def flight_inv_def)

lemma new_txn_core:
  assumes "core_inv cfg mlsn n rs ws rl l"
  shows "core_inv cfg mlsn (Suc n) rs ws rl (new_txn n tx l)"
proof -
  note inv = core_invD[OF assms] and f = fresh_facts[OF assms]
  let ?l = "new_txn n tx l"
  have same: "e \<in> set (lb_queue l) \<or> e \<in> set (rs @ ws) \<Longrightarrow> lb_txns ?l e = lb_txns l e" for e using f by auto
  have "queue_inv (Suc n) ?l"
    using inv(2) same by (auto simp: queue_inv_def queue_ok_def entry_ok_def ack_ok_def less_SucI)
  moreover have "flight_inv (Suc n) rs ws ?l"
    using inv(3) same unfolding flight_inv_def new_txn_sel(1,2) by (simp add: less_SucI)
  moreover have "assigned (rs @ ws) ?l = assigned (rs @ ws) l"
    unfolding assigned_def new_txn_sel(1,2) using same by (metis (mono_tags, lifting) filter_cong)
  ultimately show ?thesis using inv(1,4) by (simp add: core_inv_def cfg_inv_def lsn_inv_def)
qed

lemma appended_core:
  assumes "core_inv cfg mlsn n rs ws rl l" and "tx = \<lparr>tx_is_done = False, tx_wait_sync = True, tx_wait_ack = is_sync,
      tx_signature = TXN_SIGNATURE_UNKNOWN, tx_status = TXN_PREPARED, tx_fiber = True\<rparr>" and "is_sync \<or> lb_queue l \<noteq> []"
  shows "core_inv cfg mlsn (Suc n) rs (ws @ [n]) rl (appended n tx l)"
proof -
  note inv = core_invD[OF assms(1)] and f = fresh_facts[OF assms(1)]
  let ?l = "appended n tx l"
  have same: "e \<noteq> n" if "e \<in> set (lb_queue l) \<or> e \<in> set (rs @ ws)" for e using f that by auto
  have "queue_inv (Suc n) ?l"
    unfolding queue_inv_def
  proof (intro conjI)
    have "entry_ok ?l e" if "e \<in> set (lb_queue l)" for e
      using queue_entry(1)[OF assms(1) that] same that by (simp add: entry_ok_def)
    moreover have "entry_ok ?l n" by (simp add: entry_ok_def assms(2) txn_limbo_entry_is_complete_def)
    ultimately show "queue_ok ?l" using inv(5) f(1) by (auto simp: queue_ok_def)
    show "\<forall>e\<in>set (lb_queue ?l). ack_ok ?l e \<and> tx_fiber (lb_txns ?l e) \<and> e < Suc n"
      using inv(2) by (auto simp: queue_inv_def ack_ok_def assms(2))
    show "lb_queue ?l \<noteq> [] \<longrightarrow> synchronous ?l (hd (lb_queue ?l))"
      using inv(2) assms(2,3) same by (cases "lb_queue l") (auto simp: queue_inv_def)
    show "sorted_wrt (<) (lb_queue ?l)" using inv(2) f(3) by (simp add: queue_inv_def sorted_wrt_append)
  qed
  moreover have "flight_inv (Suc n) rs (ws @ [n]) ?l"
    unfolding flight_inv_def
  proof (intro conjI)
    show "sorted_wrt (<) (rs @ ws @ [n])" using inv(3) f(4) by (auto simp: flight_inv_def sorted_wrt_append)
    show "\<forall>e\<in>set (rs @ ws @ [n]). e < Suc n" using f(4) by (auto intro: less_SucI)
    show "flight_ok (lb_queue ?l) (rs @ ws @ [n])"
      using flight_ok_snoc[of "lb_queue l" "rs @ ws" n] inv(3) f(1,2) by (simp add: flight_inv_def)
    show "\<forall>e\<in>set (lb_queue ?l). if e \<in> set (rs @ ws @ [n]) then le_lsn (lb_entries ?l e) = - 1
        else 0 \<le> sint (tx_signature (lb_txns ?l e)) \<and> (synchronous ?l e \<longrightarrow> le_lsn (lb_entries ?l e) \<noteq> - 1)"
      using inv(3) same by (auto simp: flight_inv_def)
    show "\<forall>e\<in>set (ws @ [n]). tx_signature (lb_txns ?l e) = TXN_SIGNATURE_UNKNOWN \<and> \<not> tx_is_done (lb_txns ?l e) \<and> tx_fiber (lb_txns ?l e) \<and>
        (e \<notin> set (lb_queue ?l) \<longrightarrow> \<not> tx_wait_sync (lb_txns ?l e) \<and> \<not> synchronous ?l e \<and> (\<forall>x\<in>set (lb_queue ?l). e < x))"
      using inv(3) f(4) same assms(2) by (auto simp: flight_inv_def)
    show "\<forall>e\<in>set rs. 0 \<le> sint (tx_signature (lb_txns ?l e)) \<and>
        (e \<notin> set (lb_queue ?l) \<longrightarrow> \<not> tx_wait_sync (lb_txns ?l e) \<and> tx_is_done (lb_txns ?l e))"
      using inv(3) same by (auto simp: flight_inv_def)
    show "\<forall>e\<in>set (lb_queue ?l) - set (ws @ [n]). \<forall>w\<in>set (ws @ [n]). e < w"
      using inv(3) f(3) by (auto simp: flight_inv_def)
  qed
  moreover have "assigned (rs @ ws @ [n]) ?l = assigned (rs @ ws) l"
  proof -
    have "filter (\<lambda>e. synchronous ?l e \<and> e \<notin> set (rs @ ws @ [n])) (lb_queue l) =
        filter (\<lambda>e. synchronous l e \<and> e \<notin> set (rs @ ws)) (lb_queue l)"
      using same by (intro filter_cong) auto
    moreover have "map (lsn_of ?l) (filter P (lb_queue l)) = map (lsn_of l) (filter P (lb_queue l))" for P using same by auto
    ultimately show ?thesis by (simp add: assigned_def)
  qed
  ultimately show ?thesis using inv(1,4) by (simp add: core_inv_def cfg_inv_def lsn_inv_def)
qed

lemma fiber_new:
  assumes "fiber_inv n fl fib l" and "\<And>e. e \<noteq> n \<Longrightarrow> tracked l e \<Longrightarrow> tracked l' e" and "n \<notin> set fl"
  shows "fiber_inv (Suc n) fl (fib(n := Fiber_Done r)) l'" and "fiber_inv (Suc n) (fl @ [n]) (fib(n := Fiber_Write)) l'"
proof -
  have n: "fib n = Fiber_None" using assms(1) by (simp add: fiber_inv_def)
  have fl: "e \<in> set fl \<longleftrightarrow> fib e = Fiber_Write" for e by (rule fiber_invD(1)[OF assms(1)])
  have none: "Suc n \<le> e \<Longrightarrow> fib e = Fiber_None" for e using assms(1) by (simp add: fiber_inv_def)
  have tr: "tracked l' e" if "fib e = Fiber_Confirm \<or> (\<exists>w. fib e = Fiber_Wait w \<and> (\<forall>r. w \<noteq> Wait_Done r))" for e
    using that n assms(2)[of e] fiber_invD(2,3)[OF assms(1), of e] by (cases "e = n") auto
  show "fiber_inv (Suc n) fl (fib(n := Fiber_Done r)) l'" unfolding fiber_inv_def using fl assms(3) none tr n by auto
  show "fiber_inv (Suc n) (fl @ [n]) (fib(n := Fiber_Write)) l'" unfolding fiber_inv_def using fl none tr n by auto
qed

lemma txn_commit_begin_inv:
  assumes "master_inv s" and "is_sync \<or> lb_queue (ms_limbo s) \<noteq> []"
  shows "succeeds master_inv (txn_commit_begin is_sync memory s)"
proof -
  note inv = master_invD[OF assms(1)]
  note cinv = core_invD[OF inv(1)] and f = fresh_facts[OF inv(1)]
  let ?l = "ms_limbo s" and ?n = "ms_next s" and ?ps = "map kind (ms_ready s) @ ms_wal s"
    and ?fl = "txn_ids (map kind (ms_ready s)) @ txn_ids (ms_wal s)"
  define tx where "tx = \<lparr>tx_is_done = False, tx_wait_sync = True, tx_wait_ack = is_sync,
      tx_signature = TXN_SIGNATURE_UNKNOWN, tx_status = TXN_PREPARED, tx_fiber = True\<rparr>"
  have flags: "txn_sync_flags is_sync ?l = (True, is_sync)" using assms(2) by (auto simp: txn_sync_flags_def txn_limbo_is_empty_def)
  have step: "txn_commit_begin is_sync memory s =
      (txn_limbo_append (ms_cfg s) memory 0 ?n (new_txn ?n tx ?l) \<bind> (\<lambda>(r, l).
         Some (case r of
             Inl err \<Rightarrow> s\<lparr>ms_limbo := l, ms_fiber := (ms_fiber s)(?n := Fiber_Done (Some err)), ms_next := Suc ?n\<rparr>
           | Inr _ \<Rightarrow> s\<lparr>ms_limbo := l, ms_fiber := (ms_fiber s)(?n := Fiber_Write), ms_next := Suc ?n, ms_wal := ms_wal s @ [WTxn ?n]\<rparr>)))"
    unfolding txn_commit_begin_def flags new_txn_def tx_def Let_def by (simp cong: sum.case_cong)
  have none: "ms_fiber s ?n = Fiber_None" using inv(3) by (simp add: fiber_inv_def)
  have tr: "tracked (new_txn ?n tx ?l) e" "tracked (appended ?n tx ?l) e" if "e \<noteq> ?n" "tracked ?l e" for e
    using that by (simp_all add: tracked_def)
  have pend: "pend_inv ?ps ((ms_fiber s)(?n := x)) ?l" for x
    by (rule pend_inv_fib[OF inv(2)]) (use none inv(2) in \<open>auto simp: pend_inv_def\<close>)
  have append: "txn_limbo_append (ms_cfg s) memory 0 ?n (new_txn ?n tx ?l) =
      Some (if lb_is_in_rollback ?l then (Inl ER_SYNC_ROLLBACK, new_txn ?n tx ?l)
            else if \<not> memory then (Inl OutOfMemory, new_txn ?n tx ?l) else (Inr ?n, appended ?n tx ?l))"
    using cinv(1) by (simp add: txn_limbo_append_def tx_def cfg_inv_def appended_def upd_entry_def Let_def)
  show ?thesis
  proof (cases "lb_is_in_rollback ?l \<or> \<not> memory")
    case True
    have "pend_inv ?ps ((ms_fiber s)(?n := Fiber_Done r)) (new_txn ?n tx ?l)" for r
      by (rule pend_inv_cong[OF _ _ _ _ pend]) simp_all
    then show ?thesis
      unfolding step append using True new_txn_core[OF inv(1)] fiber_new(1)[OF inv(3) tr(1) f(2)]
      by (auto simp: master_inv_def pend_def)
  next
    case False
    have "pend_inv (?ps @ [WTxn ?n]) ((ms_fiber s)(?n := Fiber_Write)) (appended ?n tx ?l)"
      using pend[of Fiber_Write] False by (simp add: pend_inv_def)
    then show ?thesis
      unfolding step append using False appended_core[OF inv(1) tx_def assms(2)] fiber_new(2)[OF inv(3) tr(2) f(2)]
      by (simp add: master_inv_def pend_def)
  qed
qed

lemma params_loop_spec:
  assumes "\<forall>e\<in>set es. le_txn (lb_entries l e) = Some e \<and> le_ack_count (lb_entries l e) \<le> int VCLOCK_MAX \<and>
      (synchronous l e \<or> le_lsn (lb_entries l e) = - 1) \<and> (quorum \<le> le_ack_count (lb_entries l e) \<longrightarrow> 0 < lsn_of l e)"
  shows "\<exists>c. params_loop quorum es c0 l = Some c \<and>
    (c = c0 \<or> (\<exists>e\<in>set es. c = le_lsn (lb_entries l e) \<and> quorum \<le> le_ack_count (lb_entries l e)))"
  using assms
proof (induction es arbitrary: c0)
  case (Cons e es)
  note IH = Cons.IH[of c0] Cons.IH[of "le_lsn (lb_entries l e)"]
  consider "\<not> synchronous l e" | "synchronous l e" "le_ack_count (lb_entries l e) < quorum"
    | "synchronous l e" "quorum \<le> le_ack_count (lb_entries l e)" by linarith
  then show ?case
    by cases (use IH Cons.prems in \<open>auto simp: bind_c_assert\<close>)
qed simp

lemma set_quorum_inv:
  assumes "master_inv s" and "0 < quorum"
  shows "succeeds master_inv (set_quorum quorum s)"
proof -
  note inv = master_invD[OF assms(1)]
  note cinv = core_invD[OF inv(1)]
  let ?l = "ms_limbo s" and ?ps = "map kind (ms_ready s) @ ms_wal s" and ?cfg = "(ms_cfg s)\<lparr>replication_synchro_quorum := quorum\<rparr>"
  have core: "core_inv ?cfg mlsn n rs ws rl l = core_inv (ms_cfg s) mlsn n rs ws rl l" if "core_inv (ms_cfg s) mlsn n rs ws rl l" for mlsn n rs ws rl l
    using that assms(2) by (simp add: core_inv_def cfg_inv_def)
  have "0 < lsn_of ?l e" if "e \<in> set (lb_queue ?l)" "quorum \<le> le_ack_count (lb_entries ?l e)" for e
    using queue_entry[OF inv(1) that(1)] that(2) assms(2) by (auto simp: entry_ok_def ack_ok_def)
  then obtain c where c: "params_loop quorum (lb_queue ?l) (- 1) ?l = Some c"
    using params_loop_spec[of "lb_queue ?l" ?l quorum "- 1"] queue_entry[OF inv(1)] ack_ok_bound by (fastforce simp: entry_ok_def)
  show ?thesis
  proof (cases "lb_queue ?l \<noteq> [] \<and> sint (lb_confirmed_lsn ?l) < sint c \<and> \<not> lb_is_in_rollback ?l")
    case True
    have "txn_limbo_write_confirm c ?l = Some (confirming c ?l)"
      using True cinv(1) by (intro confirm_begin) (simp_all add: cfg_inv_def)
    moreover have "pend_inv (?ps @ [WConfirm c ByParams]) (ms_fiber s) (confirming c ?l)"
      using True cinv(1) by (intro confirming_pend inv(2)) (simp_all add: cfg_inv_def)
    moreover have "core_inv ?cfg (ms_lsn s) (ms_next s) (txn_ids (map kind (ms_ready s))) (txn_ids (ms_wal s)) (ready_lsns (ms_ready s)) (confirming c ?l)"
      using confirming_core[OF inv(1), of c] core True by simp
    ultimately show ?thesis
      using True c confirming_fiber[OF inv(3)]
      by (simp add: set_quorum_def txn_limbo_on_parameters_change_begin_def master_inv_def pend_def)
  next
    case False
    then have "\<exists>l. txn_limbo_on_parameters_change_begin ?cfg ?l = Some (None, l) \<and> (l = ?l \<or> l = emit EvBroadcast ?l)"
      using c by (auto simp: txn_limbo_on_parameters_change_begin_def)
    then show ?thesis using inv core[OF inv(1)] by (auto simp: set_quorum_def master_inv_def pend_def)
  qed
qed

lemma master_exec_inv:
  assumes "master_inv s" and "master_enabled a s"
  shows "succeeds master_inv (master_exec a s)"
proof (cases a)
  case Run
  then show ?thesis
    using assms(1) txn_commit_written_inv[OF assms(1)] confirm_written_inv[OF assms(1)] rollback_written_inv[OF assms(1)]
    by (auto simp: run_ready_def split: list.splits ready_item.splits)
qed (use assms txn_commit_begin_inv journal_complete_inv wake_fiber_inv relay_ack_inv set_quorum_inv in auto)

section \<open>The log\<close>

text \<open>The LSNs of the CONFIRM and ROLLBACK requests in a log, and the transactions that it completes.\<close>

fun requests_of :: "synchro_type \<Rightarrow> limbo_event list \<Rightarrow> i64 list" where
  "requests_of ty [] = []"
| "requests_of ty (EvWrite req # evs) = (if sr_type req = ty then sr_lsn req # requests_of ty evs else requests_of ty evs)"
| "requests_of ty (_ # evs) = requests_of ty evs"

fun commit_ids :: "limbo_event list \<Rightarrow> nat list" where
  "commit_ids [] = []"
| "commit_ids (EvCommit e # evs) = e # commit_ids evs"
| "commit_ids (_ # evs) = commit_ids evs"

fun done_ids :: "limbo_event list \<Rightarrow> nat list" where
  "done_ids [] = []"
| "done_ids (EvCommit e # evs) = e # done_ids evs"
| "done_ids (EvAbort e # evs) = e # done_ids evs"
| "done_ids (_ # evs) = done_ids evs"

lemma requests_of_append [simp]: "requests_of ty (xs @ ys) = requests_of ty xs @ requests_of ty ys"
  by (induction ty xs rule: requests_of.induct) auto

lemma commit_ids_append [simp]: "commit_ids (xs @ ys) = commit_ids xs @ commit_ids ys"
  by (induction xs rule: commit_ids.induct) auto

lemma done_ids_append [simp]: "done_ids (xs @ ys) = done_ids xs @ done_ids ys"
  by (induction xs rule: done_ids.induct) auto

lemma in_commit_ids: "e \<in> set (commit_ids evs) \<longleftrightarrow> EvCommit e \<in> set evs"
  by (induction evs rule: commit_ids.induct) auto

lemma commit_done: "e \<in> set (commit_ids evs) \<Longrightarrow> e \<in> set (done_ids evs)"
  by (induction evs rule: commit_ids.induct) auto

lemma event_done: "EvCommit e \<in> set evs \<or> EvAbort e \<in> set evs \<Longrightarrow> e \<in> set (done_ids evs)"
  by (induction evs rule: done_ids.induct) auto

text \<open>
  A synchronous transaction is committed only after a CONFIRM that covers it has been submitted, and rolled back only after
  a ROLLBACK that covers it and no CONFIRM that does.
\<close>

definition commit_ok :: "(nat \<Rightarrow> i64) \<Rightarrow> limbo_event list \<Rightarrow> nat \<Rightarrow> bool" where
  "commit_ok f lg e \<longleftrightarrow> (f e \<noteq> - 1 \<longrightarrow> (\<exists>c\<in>set (requests_of IPROTO_CONFIRM lg). sint (f e) \<le> sint c))"

definition abort_ok :: "(nat \<Rightarrow> i64) \<Rightarrow> limbo_event list \<Rightarrow> nat \<Rightarrow> bool" where
  "abort_ok f lg e \<longleftrightarrow> (f e \<noteq> - 1 \<longrightarrow> (\<exists>c\<in>set (requests_of IPROTO_ROLLBACK lg). sint c \<le> sint (f e)) \<and>
     (\<forall>c\<in>set (requests_of IPROTO_CONFIRM lg). sint c < sint (f e)))"

fun decided :: "(nat \<Rightarrow> i64) \<Rightarrow> limbo_event list \<Rightarrow> limbo_event \<Rightarrow> bool" where
  "decided f lg (EvCommit e) \<longleftrightarrow> commit_ok f lg e"
| "decided f lg (EvAbort e) \<longleftrightarrow> abort_ok f lg e"
| "decided f lg _ \<longleftrightarrow> True"

definition decisions_ok :: "(nat \<Rightarrow> i64) \<Rightarrow> limbo_event list \<Rightarrow> bool" where
  "decisions_ok f lg \<longleftrightarrow> (\<forall>xs ev ys. lg = xs @ ev # ys \<longrightarrow> decided f xs ev)"

lemma decisions_ok_snoc: "decisions_ok f (lg @ [ev]) \<longleftrightarrow> decisions_ok f lg \<and> decided f lg ev"
proof -
  have split: "lg @ [ev] = xs @ v # ys \<longleftrightarrow> (ys = [] \<and> lg = xs \<and> ev = v) \<or> (\<exists>zs. ys = zs @ [ev] \<and> lg = xs @ v # zs)" for xs v ys
    by (cases ys rule: rev_cases) auto
  show ?thesis unfolding decisions_ok_def split by blast
qed

lemma decisions_ok_append:
  assumes "decisions_ok f lg" and "\<And>ty. requests_of ty evs = []" and "\<And>ev. ev \<in> set evs \<Longrightarrow> decided f lg ev"
  shows "decisions_ok f (lg @ evs)"
  using assms(2-)
proof (induction evs rule: rev_induct)
  case (snoc ev evs)
  have "decided f lg ev" "\<And>ty. requests_of ty evs = []" using snoc.prems by auto
  then have "decided f (lg @ evs) ev" by (cases ev) (auto simp: commit_ok_def abort_ok_def)
  moreover have "decisions_ok f (lg @ evs)" using snoc by auto
  ultimately show ?case using decisions_ok_snoc[of f "lg @ evs" ev] by simp
qed (use assms(1) in simp)

lemma decisions_ok_cong:
  assumes "decisions_ok f lg" and "\<And>e. e \<in> set (done_ids lg) \<Longrightarrow> g e = f e"
  shows "decisions_ok g lg"
  unfolding decisions_ok_def
proof (intro allI impI)
  fix xs ev ys assume lg: "lg = xs @ ev # ys"
  then have "decided f xs ev" using assms(1) unfolding decisions_ok_def by blast
  moreover have "ev = EvCommit e \<or> ev = EvAbort e \<Longrightarrow> g e = f e" for e
    by (rule assms(2)) (use lg in \<open>auto intro: event_done\<close>)
  ultimately show "decided g xs ev" by (cases ev) (auto simp: commit_ok_def abort_ok_def)
qed

definition log_inv :: "nat \<Rightarrow> nat list \<Rightarrow> write_item list \<Rightarrow> limbo \<Rightarrow> bool" where
  "log_inv n ws ps l \<longleftrightarrow>
     (\<forall>c\<in>set (requests_of IPROTO_CONFIRM (lb_log l)). sint c \<le> sint (lb_confirmed_lsn l)) \<and>
     (\<forall>lsn by. WConfirm lsn by \<in> set ps \<longrightarrow> lsn \<in> set (requests_of IPROTO_CONFIRM (lb_log l))) \<and>
     (\<forall>t. WRollback t \<in> set ps \<longrightarrow> le_lsn (lb_entries l t) \<in> set (requests_of IPROTO_ROLLBACK (lb_log l))) \<and>
     distinct (done_ids (lb_log l)) \<and> (\<forall>c\<in>set (done_ids (lb_log l)). c \<notin> set (lb_queue l) \<and> c \<notin> set ws \<and> c < n) \<and>
     sorted_wrt (<) (commit_ids (lb_log l)) \<and> (\<forall>c\<in>set (commit_ids (lb_log l)). \<forall>x\<in>set (lb_queue l) \<union> set ws. c < x) \<and>
     (\<forall>w\<in>set ws. le_lsn (lb_entries l w) = - 1) \<and> decisions_ok (\<lambda>e. le_lsn (lb_entries l e)) (lb_log l)"

text \<open>Steps that only add events other than completions.\<close>

lemma log_inv_quiet:
  assumes "log_inv n ws ps l" and "lb_log l' = lb_log l @ evs" and "done_ids evs = []" and "commit_ids evs = []"
    and "\<forall>c\<in>set (requests_of IPROTO_CONFIRM evs). sint c \<le> sint (lb_confirmed_lsn l')"
    and "sint (lb_confirmed_lsn l) \<le> sint (lb_confirmed_lsn l')"
    and "\<And>lsn by. WConfirm lsn by \<in> set ps' \<Longrightarrow> WConfirm lsn by \<in> set ps \<or> lsn \<in> set (requests_of IPROTO_CONFIRM evs)"
    and "\<And>t. WRollback t \<in> set ps' \<Longrightarrow> (WRollback t \<in> set ps \<and> le_lsn (lb_entries l' t) = le_lsn (lb_entries l t)) \<or>
      le_lsn (lb_entries l' t) \<in> set (requests_of IPROTO_ROLLBACK evs)"
    and "\<And>e. e \<in> set (done_ids (lb_log l)) \<Longrightarrow> le_lsn (lb_entries l' e) = le_lsn (lb_entries l e)"
    and "set (lb_queue l') \<subseteq> set (lb_queue l) \<union> {n}" and "set ws' \<subseteq> set ws \<union> {n}" and "n \<le> n'"
    and "\<forall>w\<in>set ws'. le_lsn (lb_entries l' w) = - 1"
  shows "log_inv n' ws' ps' l'"
proof -
  let ?f = "\<lambda>e. le_lsn (lb_entries l' e)"
  have "decisions_ok ?f (lb_log l)"
    by (rule decisions_ok_cong[of "\<lambda>e. le_lsn (lb_entries l e)"]) (use assms(1,9) in \<open>auto simp: log_inv_def\<close>)
  then have dec: "decisions_ok ?f (lb_log l @ evs)"
    using assms(3)
  proof (induction evs rule: rev_induct)
    case (snoc ev evs)
    then have "decisions_ok ?f (lb_log l @ evs)" by simp
    moreover have "decided ?f (lb_log l @ evs) ev" using snoc.prems(2) by (cases ev) auto
    ultimately show ?case using decisions_ok_snoc[of ?f "lb_log l @ evs" ev] by simp
  qed simp
  have "\<forall>c\<in>set (done_ids (lb_log l)). c \<notin> set (lb_queue l') \<and> c \<notin> set ws' \<and> c < n'"
    using assms(1,10,11,12) unfolding log_inv_def by fastforce
  moreover have "\<forall>c\<in>set (commit_ids (lb_log l)). \<forall>x\<in>set (lb_queue l') \<union> set ws'. c < x"
  proof (intro ballI)
    fix c x assume c: "c \<in> set (commit_ids (lb_log l))" and x: "x \<in> set (lb_queue l') \<union> set ws'"
    have "c < n" using assms(1) commit_done[OF c] by (simp add: log_inv_def)
    moreover have "x \<in> set (lb_queue l) \<union> set ws \<Longrightarrow> c < x" using assms(1) c by (simp add: log_inv_def)
    ultimately show "c < x" using x assms(10,11) by auto
  qed
  moreover have "sint c \<le> sint (lb_confirmed_lsn l')" if "c \<in> set (requests_of IPROTO_CONFIRM (lb_log l'))" for c
    using that assms(1,2,5,6) by (auto simp: log_inv_def intro: order_trans)
  moreover have "lsn \<in> set (requests_of IPROTO_CONFIRM (lb_log l'))" if "WConfirm lsn by \<in> set ps'" for lsn "by"
    using assms(7)[OF that] assms(1,2) by (auto simp: log_inv_def)
  moreover have "le_lsn (lb_entries l' t) \<in> set (requests_of IPROTO_ROLLBACK (lb_log l'))" if "WRollback t \<in> set ps'" for t
    using assms(8)[OF that] assms(1,2) by (auto simp: log_inv_def)
  ultimately show ?thesis
    using assms(1-4,13) dec unfolding log_inv_def by simp
qed

lemma confirm_events_ids [simp]:
  "requests_of ty (concat (map (confirm_events l) P)) = []"
  "done_ids (concat (map (confirm_events l) P)) = filter (\<lambda>e. \<not> unwritten l e) P"
  "commit_ids (concat (map (confirm_events l) P)) = filter (\<lambda>e. \<not> unwritten l e) P"
  by (induction P) (auto simp: confirm_events_def)

lemma confirmed_lsn [simp]: "le_lsn (lb_entries (confirm_prefix P l) e) = le_lsn (lb_entries l e)"
  by (simp add: confirmed_entry_def)

lemma log_confirm:
  assumes "core_inv cfg mlsn n rs ws rl l" and "log_inv n ws (WConfirm lsn by # ps) l"
  shows "log_inv n ws ps (confirm_prefix (covered lsn l) l)"
proof -
  let ?P = "covered lsn l" and ?f = "\<lambda>e. le_lsn (lb_entries l e)"
  define C where "C = filter (\<lambda>e. \<not> unwritten l e) ?P"
  note inv = core_invD[OF assms(1)]
  note cov = covered_facts[OF inv(2,3), where lsn = lsn]
  have log: "lb_log (confirm_prefix ?P l) = lb_log l @ concat (map (confirm_events l) ?P)" by simp
  have C: "c \<in> set (lb_queue l)" "c \<notin> set ws" "c \<in> set ?P" if "c \<in> set C" for c
    using that cov(4)[of c] by (auto simp: C_def) (subst cov(1), simp)
  have "sorted_wrt (<) C" "distinct C"
    using inv(2,5) cov(1) cov(2) by (auto simp: C_def queue_inv_def sorted_wrt_append intro: sorted_wrt_filter)
  moreover have "c < x" if "c \<in> set C" "x \<in> set (uncovered lsn l) \<union> set ws" for c x
    using C[OF that(1)] that(2) cov(5) inv(3) by (auto simp: flight_inv_def)
  moreover have "c < n" "c \<notin> set (uncovered lsn l)" if "c \<in> set C" for c
    using C[OF that] fresh_facts(3)[OF assms(1)] cov(2) by auto
  moreover have "c \<notin> set (done_ids (lb_log l))" "d \<in> set (commit_ids (lb_log l)) \<Longrightarrow> d < c" if "c \<in> set C" for c d
    using assms(2) C(1)[OF that] by (auto simp: log_inv_def)
  moreover have "decisions_ok ?f (lb_log l @ concat (map (confirm_events l) ?P))"
  proof (rule decisions_ok_append)
    show "decided ?f (lb_log l) ev" if ev: "ev \<in> set (concat (map (confirm_events l) ?P))" for ev
    proof (cases ev)
      case (EvCommit e)
      then have e: "e \<in> set ?P" using ev by (auto simp: confirm_events_def split: if_splits)
      then have "\<not> confirm_stops lsn l e" "e \<in> set (lb_queue l)" by (auto simp: covered_def dest: set_takeWhileD)
      then have "?f e \<noteq> - 1 \<Longrightarrow> sint (?f e) \<le> sint lsn"
        using queue_entry(1)[OF assms(1), of e] by (auto simp: confirm_stops_def entry_ok_def)
      moreover have "lsn \<in> set (requests_of IPROTO_CONFIRM (lb_log l))" using assms(2) by (auto simp: log_inv_def)
      ultimately show ?thesis using EvCommit by (auto simp: commit_ok_def)
    qed (use ev in \<open>auto simp: confirm_events_def split: if_splits\<close>)
  qed (use assms(2) in \<open>simp_all add: log_inv_def\<close>)
  moreover have "set (uncovered lsn l) \<subseteq> set (lb_queue l)" by (auto simp: uncovered_def dest: set_dropWhileD)
  ultimately show ?thesis
    using assms(2) unfolding log_inv_def log confirmed_queue confirmed_lsn
    by (auto simp: sorted_wrt_append C_def[symmetric])
qed

lemma log_written:
  assumes "core_inv cfg mlsn n rs (t # ws) rl l" and "log_inv n (t # ws) ps l"
  shows "log_inv n ws ps (written t res l)"
proof (cases "tx_wait_sync (lb_txns l t)")
  case True
  then show ?thesis
    by (intro log_inv_quiet[OF assms(2), where evs = "[EvWakeup t]"]) (use assms(2) in \<open>auto simp: log_inv_def\<close>)
next
  case False
  note inv = core_invD[OF assms(1)]
  have t: "t \<notin> set (lb_queue l)" using inv(5) False by (auto simp: queue_ok_def entry_ok_def)
  then have lt: "t < x" if "x \<in> set (lb_queue l) \<union> set ws" for x
    using that inv(3) by (auto simp: flight_inv_def sorted_wrt_append)
  have "t < n" using fresh_facts(4)[OF assms(1)] by simp
  moreover have "le_lsn (lb_entries l t) = - 1" "t \<notin> set (done_ids (lb_log l))" "\<forall>c\<in>set (commit_ids (lb_log l)). c < t"
    using assms(2) by (auto simp: log_inv_def)
  moreover have "decisions_ok (\<lambda>e. le_lsn (lb_entries l e)) (lb_log l @ [EvCommit t, EvWakeup t])"
    by (rule decisions_ok_append) (use assms(2) calculation(2) in \<open>auto simp: log_inv_def commit_ok_def\<close>)
  moreover have "lb_log (written t res l) = lb_log l @ [EvCommit t, EvWakeup t]" using False by simp
  ultimately show ?thesis
    using assms(2) t lt unfolding log_inv_def written_sel(1,5,7) by (auto simp: sorted_wrt_append)
qed

lemma rollback_events_ids [simp]:
  "requests_of ty (rollback_events (\<lambda>e. [EvWakeup e]) l S) = []"
  "commit_ids (rollback_events (\<lambda>e. [EvWakeup e]) l S) = []"
  "done_ids (rollback_events (\<lambda>e. [EvWakeup e]) l (t # S)) = rev (t # S)"
proof -
  have turns: "requests_of ty (concat (map (\<lambda>e. abort_events l e @ [EvWakeup e]) xs)) = []"
    "commit_ids (concat (map (\<lambda>e. abort_events l e @ [EvWakeup e]) xs)) = []"
    "done_ids (concat (map (\<lambda>e. abort_events l e @ [EvWakeup e]) xs)) = xs" for xs
    by (induction xs) (simp_all add: abort_events_def)
  show "requests_of ty (rollback_events (\<lambda>e. [EvWakeup e]) l S) = []" "commit_ids (rollback_events (\<lambda>e. [EvWakeup e]) l S) = []"
    "done_ids (rollback_events (\<lambda>e. [EvWakeup e]) l (t # S)) = rev (t # S)"
    unfolding rollback_events_def requests_of_append commit_ids_append done_ids_append turns by (simp_all add: abort_events_def)
qed

lemma rollback_events_set:
  "ev \<in> set (rollback_events (\<lambda>e. [EvWakeup e]) l (t # S)) \<Longrightarrow> (\<exists>e\<in>set (t # S). ev = EvAbort e) \<or> (\<exists>e. ev = EvWakeup e)"
  by (auto simp: rollback_events_def abort_events_def split: if_splits)

lemma log_rollback:
  assumes "core_inv cfg mlsn n [] [] [] l" and "log_inv n [] [WRollback t] l" and q: "lb_queue l = t # S"
    and "sint (lb_confirmed_lsn l) < lsn_of l t"
  shows "log_inv n [] [] (abort_suffix sig (rollback_events (\<lambda>e. [EvWakeup e]) l (t # S)) (t # S) l)"
proof -
  let ?f = "\<lambda>e. le_lsn (lb_entries l e)" and ?evs = "rollback_events (\<lambda>e. [EvWakeup e]) l (t # S)"
  note inv = core_invD[OF assms(1)]
  have first: "lsn_of l t \<le> lsn_of l e" if "e \<in> set (t # S)" "?f e \<noteq> - 1" for e
  proof -
    have "synchronous l t" "synchronous l e"
      using inv(2) queue_entry(1)[OF assms(1), of e] that q by (auto simp: queue_inv_def entry_ok_def)
    then show ?thesis using inv(4) that(1) by (auto simp: lsn_inv_def assigned_def q)
  qed
  have "decisions_ok ?f (lb_log l @ ?evs)"
  proof (rule decisions_ok_append)
    show "decided ?f (lb_log l) ev" if "ev \<in> set ?evs" for ev
      using rollback_events_set[OF that]
    proof
      assume "\<exists>e\<in>set (t # S). ev = EvAbort e"
      then obtain e where e: "e \<in> set (t # S)" "ev = EvAbort e" by blast
      have "?f t \<in> set (requests_of IPROTO_ROLLBACK (lb_log l))"
        "\<forall>c\<in>set (requests_of IPROTO_CONFIRM (lb_log l)). sint c \<le> sint (lb_confirmed_lsn l)"
        using assms(2) by (auto simp: log_inv_def)
      then have "abort_ok ?f (lb_log l) e" using first[OF e(1)] assms(4) unfolding abort_ok_def by fastforce
      then show ?thesis using e(2) by simp
    qed auto
  qed (use assms(2) in \<open>simp_all add: log_inv_def\<close>)
  moreover have "set (done_ids (lb_log l)) \<inter> set (t # S) = {}" using assms(2) q by (auto simp: log_inv_def)
  moreover have "distinct (t # S)" "\<forall>e\<in>set (t # S). e < n" using inv(5) q fresh_facts(3)[OF assms(1)] by (simp_all add: queue_ok_def)
  moreover have "(\<lambda>e. le_lsn (lb_entries (abort_suffix sig ?evs (t # S) l) e)) = ?f" by auto
  ultimately show ?thesis using assms(2) q unfolding log_inv_def by auto
qed

definition log_ok :: "master \<Rightarrow> bool" where
  "log_ok s \<longleftrightarrow> log_inv (ms_next s) (txn_ids (ms_wal s)) (pend s) (ms_limbo s)"

lemma log_counted:
  assumes "log_inv n ws ps l"
  shows "log_inv n ws ps (counted A v l)"
  by (rule log_inv_quiet[OF assms, where evs = "[]"]) (use assms in \<open>auto simp: log_inv_def\<close>)

lemma log_confirming:
  assumes "log_inv n ws ps l" and "sint (lb_confirmed_lsn l) < sint c"
  shows "log_inv n ws (ps @ [WConfirm c by]) (confirming c l)"
  by (rule log_inv_quiet[OF assms(1), where evs = "[EvWrite (confirm_request c l)]"])
    (use assms in \<open>auto simp: log_inv_def confirm_request_def\<close>)

lemma log_with_lsn:
  assumes "log_inv n ws (WTxn t # ps) l" and "t \<in> set (lb_queue l)" and "t \<notin> set ws" and "WRollback t \<notin> set ps"
  shows "log_inv n ws ps (with_lsn t lsn l)"
  by (rule log_inv_quiet[OF assms(1), where evs = "[]"]) (use assms in \<open>auto simp: log_inv_def\<close>)

lemma log_pop:
  assumes "log_inv n ws (WTxn t # ps) l"
  shows "log_inv n ws ps l"
  by (rule log_inv_quiet[OF assms, where evs = "[]"]) (use assms in \<open>auto simp: log_inv_def\<close>)

lemma log_broadcast:
  assumes "log_inv n ws ps l"
  shows "log_inv n ws ps (emit EvBroadcast l)"
  by (rule log_inv_quiet[OF assms, where evs = "[EvBroadcast]"]) (use assms in \<open>auto simp: log_inv_def emit_def\<close>)

lemma txn_commit_wait_log: "txn_commit_wait t s = Some s' \<Longrightarrow> log_ok s \<Longrightarrow> log_ok s'"
  by (auto simp: txn_commit_wait_def log_ok_def pend_def bind_eq_Some_conv)

lemma relay_ack_log:
  assumes "master_inv s" and "log_ok s" and "master_enabled (Ack r lsn) s" and "relay_ack r lsn s = Some s'"
  shows "log_ok s'"
proof (cases "lb_owner_id (ms_limbo s) = instance_id (ms_cfg s)")
  case True
  note inv = master_invD[OF assms(1)]
  have "unat r < VCLOCK_MAX" "sint (vclock_get (lb_vclock (ms_limbo s)) (unat r)) \<le> sint lsn"
    "r = instance_id (ms_cfg s) \<longrightarrow> (\<forall>x\<in>set (ready_lsns (ms_ready s)). sint lsn < x) \<and> sint lsn \<le> sint (ms_lsn s)"
    using assms(3) by simp_all
  with inv(1) show ?thesis
  proof (cases rule: ack_begin_cases)
    case same
    then show ?thesis using True assms by (auto simp: relay_ack_def)
  next
    case (count A v)
    then show ?thesis
      using True assms(2,4) log_counted by (auto simp: relay_ack_def log_ok_def pend_def)
  next
    case (confirm A v c)
    have "log_inv (ms_next s) (txn_ids (ms_wal s)) (pend s @ [WConfirm c ByAck]) (confirming c (counted A v (ms_limbo s)))"
      by (rule log_confirming[OF log_counted]) (use assms(2) confirm(4) in \<open>simp_all add: log_ok_def\<close>)
    then show ?thesis using True confirm(1) assms(4) by (auto simp: relay_ack_def log_ok_def pend_def)
  qed
qed (use assms in \<open>auto simp: relay_ack_def\<close>)

lemma set_quorum_log:
  assumes "master_inv s" and "log_ok s" and "0 < quorum" and "set_quorum quorum s = Some s'"
  shows "log_ok s'"
proof -
  let ?cfg = "(ms_cfg s)\<lparr>replication_synchro_quorum := quorum\<rparr>" and ?l = "ms_limbo s"
  have cfg: "0 \<le> sint (lb_confirmed_lsn ?l)" using core_invD(1)[OF master_invD(1)[OF assms(1)]] by (simp add: cfg_inv_def)
  obtain c l where change: "txn_limbo_on_parameters_change_begin ?cfg ?l = Some (c, l)"
    and s': "s' = s\<lparr>ms_cfg := ?cfg, ms_limbo := l, ms_wal := ms_wal s @ (case c of None \<Rightarrow> [] | Some clsn \<Rightarrow> [WConfirm clsn ByParams])\<rparr>"
    using assms(4) by (auto simp: set_quorum_def Let_def bind_eq_Some_conv)
  consider "c = None" "l = ?l \<or> l = emit EvBroadcast ?l"
    | clsn where "c = Some clsn" "l = confirming clsn ?l" "sint (lb_confirmed_lsn ?l) < sint clsn"
  proof -
    assume a: "c = None \<Longrightarrow> l = ?l \<or> l = emit EvBroadcast ?l \<Longrightarrow> thesis"
      "\<And>clsn. c = Some clsn \<Longrightarrow> l = confirming clsn ?l \<Longrightarrow> sint (lb_confirmed_lsn ?l) < sint clsn \<Longrightarrow> thesis"
    show thesis
      using change confirm_begin[OF _ _ cfg] a by (auto simp: txn_limbo_on_parameters_change_begin_def bind_eq_Some_conv split: if_splits)
  qed
  then show ?thesis
  proof cases
    case 1
    then show ?thesis using assms(2) log_broadcast s' by (auto simp: log_ok_def pend_def)
  next
    case 2
    have "log_inv (ms_next s) (txn_ids (ms_wal s)) (pend s @ [WConfirm clsn ByParams]) (confirming clsn ?l)"
      by (rule log_confirming) (use assms(2) 2 in \<open>simp_all add: log_ok_def\<close>)
    then show ?thesis using 2 s' by (simp add: log_ok_def pend_def)
  qed
qed

lemma confirm_written_log:
  assumes "master_inv s" and "log_ok s" and "ms_ready s = RConfirm lsn by # r" and "confirm_written lsn by (s\<lparr>ms_ready := r\<rparr>) = Some s'"
  shows "log_ok s'"
proof -
  let ?l = "confirm_prefix (covered lsn (ms_limbo s)) (ms_limbo s)"
  note inv = master_invD[OF assms(1), unfolded assms(3), simplified]
  have read: "txn_limbo_read_confirm lsn (ms_limbo s) = Some ?l"
    using read_confirm_eq core_invD(5,6)[OF inv(1)] by (simp add: covered_def)
  have "log_inv (ms_next s) (txn_ids (ms_wal s)) (map kind r @ ms_wal s) ?l"
    by (rule log_confirm[OF inv(1)]) (use assms(2,3) in \<open>simp add: log_ok_def pend_def\<close>)
  then have "log_ok (s\<lparr>ms_ready := r, ms_limbo := ?l\<rparr>)" "log_ok (s\<lparr>ms_ready := r, ms_limbo := emit EvBroadcast ?l\<rparr>)"
    using log_broadcast by (simp_all add: log_ok_def pend_def)
  then show ?thesis using assms(4) read txn_commit_wait_log by (cases "by") (auto simp: confirm_written_def)
qed

lemma journal_complete_log:
  assumes "master_inv s" and "log_ok s" and "0 \<le> sint res" and "journal_complete lsn res s = Some s'"
  shows "log_ok s'"
proof (cases "ms_wal s")
  case (Cons p w)
  note inv = master_invD[OF assms(1), unfolded Cons]
  show ?thesis
  proof (cases p)
    case (WTxn t)
    note inv' = inv[unfolded WTxn, simplified]
    have "log_inv (ms_next s) (txn_ids w) (pend s) (written t res (ms_limbo s))"
      by (rule log_written[OF inv'(1)]) (use assms(2) Cons WTxn in \<open>simp add: log_ok_def\<close>)
    then show ?thesis
      using assms(4) Cons WTxn journal_write_eq[OF core_invD(3)[OF inv'(1)] assms(3)] by (auto simp: journal_complete_def log_ok_def pend_def)
  qed (use assms(2,4) Cons in \<open>auto simp: journal_complete_def log_ok_def pend_def\<close>)
qed (use assms(2,4) in \<open>simp add: journal_complete_def\<close>)


lemma rolling_unique: "rolling ps fib l t \<Longrightarrow> WRollback u \<in> set ps \<Longrightarrow> u = t"
  by (auto simp: rolling_def)

lemma core_in_rollback [simp]: "core_inv cfg mlsn n rs ws rl (l\<lparr>lb_is_in_rollback := b\<rparr>) = core_inv cfg mlsn n rs ws rl l"
  by (simp add: core_inv_def cfg_inv_def queue_inv_def queue_ok_def entry_ok_def ack_ok_def flight_inv_def lsn_inv_def assigned_def)

lemma txn_commit_wait_same:
  "txn_commit_wait t s = Some s' \<Longrightarrow>
     ms_limbo s' = ms_limbo s \<and> ms_wal s' = ms_wal s \<and> ms_ready s' = ms_ready s \<and> ms_next s' = ms_next s \<and> ms_cfg s' = ms_cfg s"
  by (auto simp: txn_commit_wait_def bind_eq_Some_conv)

text \<open>What the fiber of a written transaction does to the limbo and the journal.\<close>

lemma commit_written_cases:
  assumes "master_inv s" and ready: "ms_ready s = RTxn t lsn # r" and step: "txn_commit_written t lsn (s\<lparr>ms_ready := r\<rparr>) = Some s'"
  obtains (same) "ms_limbo s' = ms_limbo s" "ms_wal s' = ms_wal s"
  | (count) l where "t \<in> set (lb_queue (ms_limbo s))" "l = with_lsn t lsn (ms_limbo s)" "ms_limbo s' = l \<or> (\<exists>A v. ms_limbo s' = counted A v l)"
      "ms_wal s' = ms_wal s"
  | (confirm) l A v c where "t \<in> set (lb_queue (ms_limbo s))" "l = with_lsn t lsn (ms_limbo s)" "ms_limbo s' = confirming c (counted A v l)"
      "ms_wal s' = ms_wal s @ [WConfirm c (ByTxn t)]" "sint (lb_confirmed_lsn l) < sint c"
      "replication_synchro_quorum (ms_cfg s) \<le> int (card (acks v c))"
proof -
  note inv = master_invD[OF assms(1), unfolded ready, simplified]
  note core = inv(1) and cinv = core_invD[OF inv(1)]
  let ?l = "ms_limbo s"
  show ?thesis
  proof (cases "t \<in> set (lb_queue ?l) \<and> synchronous ?l t")
    case False
    then have "\<not> (tx_wait_sync (lb_txns ?l t) \<and> synchronous ?l t)" using cinv(3) by (auto simp: flight_inv_def)
    then consider "txn_commit_wait t (s\<lparr>ms_ready := r\<rparr>) = Some s'" | "s' = s\<lparr>ms_ready := r, ms_fiber := (ms_fiber s)(t := Fiber_Done None)\<rparr>"
      using step by (auto simp: txn_commit_written_def bind_eq_Some_conv c_assert_def split: if_splits)
    then show ?thesis by cases (use txn_commit_wait_same in \<open>auto intro!: same\<close>)
  next
    case True
    let ?l1 = "with_lsn t lsn ?l"
    have core1: "core_inv (ms_cfg s) (ms_lsn s) (ms_next s) (txn_ids (map kind r)) (txn_ids (ms_wal s)) (ready_lsns r) ?l1"
      using lsn_core[OF core] True by simp
    have own: "lb_owner_id ?l1 = instance_id (ms_cfg s)" "unat (instance_id (ms_cfg s)) < VCLOCK_MAX"
      using cinv(1) by (simp_all add: cfg_inv_def)
    have lsn: "sint (vclock_get (lb_vclock ?l1) (unat (instance_id (ms_cfg s)))) \<le> sint lsn"
      "instance_id (ms_cfg s) = instance_id (ms_cfg s) \<longrightarrow> (\<forall>x\<in>set (ready_lsns r). sint lsn < x) \<and> sint lsn \<le> sint (ms_lsn s)"
      using cinv(4) by (auto simp: lsn_inv_def sorted_wrt_append)
    have ws: "tx_wait_sync (lb_txns ?l t)" using queue_entry(1)[OF core] True by (simp add: entry_ok_def)
    have eq: "Some s' = do {
        (c, l) \<leftarrow> txn_limbo_ack_begin (ms_cfg s) (instance_id (ms_cfg s)) lsn ?l1;
        case c of
          None \<Rightarrow> txn_commit_wait t (s\<lparr>ms_ready := r, ms_limbo := l\<rparr>)
        | Some clsn \<Rightarrow> Some (s\<lparr>ms_ready := r, ms_limbo := l, ms_wal := ms_wal s @ [WConfirm clsn (ByTxn t)],
                           ms_fiber := (ms_fiber s)(t := Fiber_Confirm)\<rparr>) }"
      using ws True assign_local_eq[OF core] own(1) step by (simp add: txn_commit_written_def cong: option.case_cong)
    from core1 own(2) lsn show ?thesis
    proof (cases rule: ack_begin_cases)
      case same
      then show ?thesis using eq txn_commit_wait_same[of t "s\<lparr>ms_ready := r, ms_limbo := ?l1\<rparr>" s'] True
        by (intro count[of ?l1]) simp_all
    next
      case (count A v)
      then show ?thesis using eq txn_commit_wait_same[of t "s\<lparr>ms_ready := r, ms_limbo := counted A v ?l1\<rparr>" s'] True
        by (intro that(2)[of ?l1]) auto
    next
      case (confirm A v c)
      then show ?thesis using eq True by (intro that(3)[of ?l1 c A v]) simp_all
    qed
  qed
qed

lemma txn_commit_written_same:
  "txn_commit_written t lsn s = Some s' \<Longrightarrow> ms_ready s' = ms_ready s \<and> ms_next s' = ms_next s \<and> ms_cfg s' = ms_cfg s"
  by (auto simp: txn_commit_written_def bind_eq_Some_conv c_assert_def split: if_splits option.splits dest!: txn_commit_wait_same)

lemma txn_commit_written_log:
  assumes "master_inv s" and "log_ok s" and "ms_ready s = RTxn t lsn # r" and "txn_commit_written t lsn (s\<lparr>ms_ready := r\<rparr>) = Some s'"
  shows "log_ok s'"
proof -
  note inv = master_invD[OF assms(1), unfolded assms(3), simplified]
  note h = flight_head[OF core_invD(3,5)[OF inv(1)]]
  let ?l = "ms_limbo s" and ?ps = "map kind r @ ms_wal s"
  have lg: "log_inv (ms_next s) (txn_ids (ms_wal s)) (WTxn t # ?ps) ?l" using assms(2,3) by (simp add: log_ok_def pend_def)
  have no_rb: "WRollback t \<notin> set ?ps"
  proof
    assume t: "WRollback t \<in> set ?ps"
    then obtain u where "rolling (WTxn t # ?ps) (ms_fiber s) ?l u" using inv(2) by (auto simp: pend_inv_def split: if_splits)
    moreover from this have "u = t" using rolling_unique t by fastforce
    ultimately show False by (simp add: rolling_def)
  qed
  have lg1: "log_inv (ms_next s) (txn_ids (ms_wal s)) ?ps (with_lsn t lsn ?l)" if "t \<in> set (lb_queue ?l)"
    using log_with_lsn[OF lg that] h(1) no_rb by simp
  note rest = txn_commit_written_same[OF assms(4), simplified]
  from assms(1,3,4) show ?thesis
  proof (cases rule: commit_written_cases)
    case same
    then show ?thesis using log_pop[OF lg] rest by (simp add: log_ok_def pend_def)
  next
    case (count l)
    then show ?thesis using lg1 log_counted[OF lg1] rest by (auto simp: log_ok_def pend_def)
  next
    case (confirm l A v c)
    have "log_inv (ms_next s) (txn_ids (ms_wal s)) (?ps @ [WConfirm c (ByTxn t)]) (confirming c (counted A v l))"
      by (rule log_confirming[OF log_counted]) (use confirm lg1 in simp_all)
    then show ?thesis using confirm(3,4) rest by (simp add: log_ok_def pend_def)
  qed
qed

text \<open>A written rollback aborts the whole queue; nothing else is in flight.\<close>

lemma rollback_written_facts:
  assumes "master_inv s" and ready: "ms_ready s = RRollback t # r" and step: "rollback_written t (s\<lparr>ms_ready := r\<rparr>) = Some s'"
  obtains S l where "r = []" "ms_wal s = []" "l = txn_limbo_write_rollback_end (ms_limbo s)" "lb_queue l = t # S"
    "core_inv (ms_cfg s) (ms_lsn s) (ms_next s) [] [] [] l" "sint (lb_confirmed_lsn l) < lsn_of l t"
    "s' = s\<lparr>ms_ready := [], ms_limbo := abort_suffix TXN_SIGNATURE_QUORUM_TIMEOUT (rollback_events (\<lambda>e. [EvWakeup e]) l (t # S)) (t # S) l,
           ms_fiber := (ms_fiber s)(t := Fiber_Wait (Wait_Done (Some ER_SYNC_QUORUM_TIMEOUT)))\<rparr>"
proof -
  note inv = master_invD[OF assms(1), unfolded ready, simplified]
  let ?l = "ms_limbo s"
  have "lb_is_in_rollback ?l" using inv(2) by (auto simp: pend_inv_def split: if_splits)
  then obtain u where "rolling (WRollback t # map kind r @ ms_wal s) (ms_fiber s) ?l u"
    using inv(2) by (auto simp: pend_inv_def)
  note roll = this rolling_only[OF this]
  then obtain S where S: "lb_queue ?l = t # S" by (cases "lb_queue ?l") (auto simp: rolling_def)
  have empty: "r = []" "ms_wal s = []" using roll(2) by auto
  let ?l0 = "txn_limbo_write_rollback_end ?l"
  have core0: "core_inv (ms_cfg s) (ms_lsn s) (ms_next s) [] [] [] ?l0"
    using inv(1) empty by (simp add: txn_limbo_write_rollback_end_def)
  have q0: "lb_queue ?l0 = t # S" "sint (lb_confirmed_lsn ?l0) < lsn_of ?l0 t"
    using S roll by (auto simp: txn_limbo_write_rollback_end_def rolling_def)
  have "timeout_rollback_loop (rev (lb_queue ?l0)) t ?l0 =
      Some (abort_suffix TXN_SIGNATURE_QUORUM_TIMEOUT (rollback_events (\<lambda>e. [EvWakeup e]) ?l0 (t # S)) (t # S) ?l0)"
    using timeout_rollback_loop_eq[OF core_invD(5)[OF core0], of "[]" t S] q0(1) by simp
  then show ?thesis
    using step empty S q0 core0 by (intro that[OF _ _ refl]) (auto simp: rollback_written_def txn_limbo_wait_complete_rollback_def)
qed

lemma rollback_written_log:
  assumes "master_inv s" and "log_ok s" and "ms_ready s = RRollback t # r" and "rollback_written t (s\<lparr>ms_ready := r\<rparr>) = Some s'"
  shows "log_ok s'"
proof -
  obtain S l where f: "r = []" "ms_wal s = []" "l = txn_limbo_write_rollback_end (ms_limbo s)" "lb_queue l = t # S"
    "core_inv (ms_cfg s) (ms_lsn s) (ms_next s) [] [] [] l" "sint (lb_confirmed_lsn l) < lsn_of l t"
    and s': "s' = s\<lparr>ms_ready := [], ms_limbo := abort_suffix TXN_SIGNATURE_QUORUM_TIMEOUT (rollback_events (\<lambda>e. [EvWakeup e]) l (t # S)) (t # S) l,
      ms_fiber := (ms_fiber s)(t := Fiber_Wait (Wait_Done (Some ER_SYNC_QUORUM_TIMEOUT)))\<rparr>"
    using rollback_written_facts[OF assms(1,3,4)] .
  have "log_inv (ms_next s) [] [WRollback t] l"
    using assms(2,3) f(1-3) by (simp add: log_ok_def pend_def log_inv_def txn_limbo_write_rollback_end_def)
  from log_rollback[OF f(5) this f(4,6)] show ?thesis using f(2) unfolding s' log_ok_def pend_def by simp
qed

lemma wake_fiber_log:
  assumes "log_ok s" and "wake_fiber t timed_out s = Some s'"
  shows "log_ok s'"
proof -
  have "log_inv (ms_next s) (txn_ids (ms_wal s)) (pend s @ [WRollback t])
      (emit (EvWrite \<lparr>sr_type = IPROTO_ROLLBACK, sr_replica_id = o', sr_origin_id = 0, sr_lsn = le_lsn (lb_entries (ms_limbo s) t), sr_term = 0\<rparr>)
        ((ms_limbo s)\<lparr>lb_is_in_rollback := True\<rparr>))" for o'
    by (rule log_inv_quiet[OF assms(1)[unfolded log_ok_def], where evs = "[EvWrite \<lparr>sr_type = IPROTO_ROLLBACK,
          sr_replica_id = o', sr_origin_id = 0, sr_lsn = le_lsn (lb_entries (ms_limbo s) t), sr_term = 0\<rparr>]"])
      (use assms(1) in \<open>auto simp: log_ok_def log_inv_def emit_def\<close>)
  then show ?thesis
    using assms
    by (auto simp: wake_fiber_def txn_limbo_wait_complete_resume_def txn_limbo_write_rollback_begin_def txn_limbo_write_synchro_def
        log_ok_def pend_def bind_eq_Some_conv c_assert_def split: commit_fiber.splits wait_state.splits if_splits)
qed


lemma txn_commit_begin_cases:
  assumes "txn_commit_begin is_sync memory s = Some s'"
  obtains (refused) tx err where "s' = s\<lparr>ms_limbo := new_txn (ms_next s) tx (ms_limbo s),
      ms_fiber := (ms_fiber s)(ms_next s := Fiber_Done (Some err)), ms_next := Suc (ms_next s)\<rparr>"
  | (accepted) tx where "s' = s\<lparr>ms_limbo := appended (ms_next s) tx (ms_limbo s), ms_fiber := (ms_fiber s)(ms_next s := Fiber_Write),
      ms_next := Suc (ms_next s), ms_wal := ms_wal s @ [WTxn (ms_next s)]\<rparr>"
proof -
  let ?l = "ms_limbo s" and ?n = "ms_next s"
  obtain wait_sync wait_ack where flags: "txn_sync_flags is_sync ?l = (wait_sync, wait_ack)" by fastforce
  define tx where "tx = \<lparr>tx_is_done = False, tx_wait_sync = wait_sync, tx_wait_ack = wait_ack,
      tx_signature = TXN_SIGNATURE_UNKNOWN, tx_status = TXN_PREPARED, tx_fiber = True\<rparr>"
  have step: "txn_commit_begin is_sync memory s =
      (txn_limbo_append (ms_cfg s) memory 0 ?n (new_txn ?n tx ?l) \<bind> (\<lambda>(r, l).
         Some (case r of
             Inl err \<Rightarrow> s\<lparr>ms_limbo := l, ms_fiber := (ms_fiber s)(?n := Fiber_Done (Some err)), ms_next := Suc ?n\<rparr>
           | Inr _ \<Rightarrow> s\<lparr>ms_limbo := l, ms_fiber := (ms_fiber s)(?n := Fiber_Write), ms_next := Suc ?n, ms_wal := ms_wal s @ [WTxn ?n]\<rparr>)))"
    unfolding txn_commit_begin_def flags new_txn_def tx_def Let_def by (simp cong: sum.case_cong)
  obtain r l where append: "txn_limbo_append (ms_cfg s) memory 0 ?n (new_txn ?n tx ?l) = Some (r, l)"
    using assms unfolding step by (cases "txn_limbo_append (ms_cfg s) memory 0 ?n (new_txn ?n tx ?l)") auto
  note s' = assms[unfolded step append, simplified, symmetric]
  consider err where "r = Inl err" "l = new_txn ?n tx ?l" | "r = Inr ?n" "l = appended ?n tx ?l"
    using append
    by (auto simp: txn_limbo_append_def Let_def bind_eq_Some_conv c_assert_def appended_def upd_entry_def split: if_splits)
  then show ?thesis
  proof cases
    case 1
    then show ?thesis using s' by (intro refused) simp
  next
    case 2
    then show ?thesis using s' by (intro accepted) simp
  qed
qed

lemma txn_commit_begin_log:
  assumes "master_inv s" and "log_ok s" and "txn_commit_begin is_sync memory s = Some s'"
  shows "log_ok s'"
proof -
  let ?l = "ms_limbo s" and ?n = "ms_next s"
  note inv = master_invD[OF assms(1)]
  note f = fresh_facts[OF inv(1)]
  have lg: "log_inv ?n (txn_ids (ms_wal s)) (pend s) ?l" using assms(2) by (simp add: log_ok_def)
  have "WRollback ?n \<notin> set (pend s)"
  proof
    assume "WRollback ?n \<in> set (pend s)"
    moreover from this obtain u where u: "rolling (pend s) (ms_fiber s) ?l u"
      using inv(2) by (auto simp: pend_inv_def pend_def split: if_splits)
    ultimately have "u = ?n" using rolling_unique by blast
    then show False using u f(1) hd_in_set[of "lb_queue ?l"] by (auto simp: rolling_def)
  qed
  then have app: "log_inv (Suc ?n) (txn_ids (ms_wal s) @ [?n]) (pend s @ [WTxn ?n]) (appended ?n tx ?l)" for tx
    by (intro log_inv_quiet[OF lg, where evs = "[]"]) (use lg f(2) in \<open>auto simp: log_inv_def\<close>)
  have new: "log_inv (Suc ?n) (txn_ids (ms_wal s)) (pend s) (new_txn ?n tx ?l)" for tx
    by (rule log_inv_quiet[OF lg, where evs = "[]"]) (use lg in \<open>auto simp: log_inv_def\<close>)
  from assms(3) show ?thesis
  proof (cases rule: txn_commit_begin_cases)
    case (refused tx err)
    then show ?thesis using new[of tx] by (simp add: log_ok_def pend_def)
  next
    case (accepted tx)
    then show ?thesis using app[of tx] by (simp add: log_ok_def pend_def)
  qed
qed

lemma run_ready_log:
  assumes "master_inv s" and "log_ok s" and "run_ready s = Some s'"
  shows "log_ok s'"
proof (cases "ms_ready s")
  case (Cons p r)
  note step = assms(3)[unfolded run_ready_def Cons list.case]
  show ?thesis
  proof (cases p)
    case (RTxn t lsn)
    show ?thesis by (rule txn_commit_written_log[OF assms(1,2)]) (use step Cons RTxn in simp_all)
  next
    case (RConfirm lsn c)
    show ?thesis by (rule confirm_written_log[OF assms(1,2)]) (use step Cons RConfirm in simp_all)
  next
    case (RRollback t)
    show ?thesis by (rule rollback_written_log[OF assms(1,2)]) (use step Cons RRollback in simp_all)
  qed
qed (use assms in \<open>simp add: run_ready_def\<close>)

lemma master_exec_log:
  assumes "master_inv s" and "log_ok s" and "master_enabled a s" and "master_exec a s = Some s'"
  shows "log_ok s'"
proof (cases a)
  case (Begin is_sync memory)
  then show ?thesis using txn_commit_begin_log[OF assms(1,2), of is_sync memory s'] assms(4) by simp
next
  case (Journal lsn res)
  then show ?thesis using journal_complete_log[OF assms(1,2), of res lsn s'] assms(3,4) by simp
next
  case Run
  then show ?thesis using run_ready_log[OF assms(1,2)] assms(4) by simp
next
  case (Wake t timed_out)
  then show ?thesis using wake_fiber_log[OF assms(2), of t timed_out s'] assms(4) by simp
next
  case (Ack r lsn)
  then show ?thesis using relay_ack_log[OF assms(1,2), of r lsn s'] assms(3,4) by simp
next
  case (Quorum quorum)
  then show ?thesis using set_quorum_log[OF assms(1,2), of quorum s'] assms(3,4) by simp
qed


section \<open>Quorum\<close>

text \<open>The confirmations that a turn submits have been acknowledged by a quorum.\<close>

definition new_confirms :: "master \<Rightarrow> master \<Rightarrow> i64 list \<Rightarrow> bool" where
  "new_confirms s s' cs \<longleftrightarrow>
     requests_of IPROTO_CONFIRM (lb_log (ms_limbo s')) = requests_of IPROTO_CONFIRM (lb_log (ms_limbo s)) @ cs \<and>
     (\<forall>c\<in>set cs. replication_synchro_quorum (ms_cfg s') \<le> int (card (acks (lb_vclock (ms_limbo s')) c)))"

lemma no_new_confirms:
  "requests_of IPROTO_CONFIRM (lb_log (ms_limbo s')) = requests_of IPROTO_CONFIRM (lb_log (ms_limbo s)) \<Longrightarrow> \<exists>cs. new_confirms s s' cs"
  by (rule exI[of _ "[]"]) (simp add: new_confirms_def)

lemma relay_ack_confirms:
  assumes "master_inv s" and "master_enabled (Ack r lsn) s" and "relay_ack r lsn s = Some s'"
  shows "\<exists>cs. new_confirms s s' cs"
proof (cases "lb_owner_id (ms_limbo s) = instance_id (ms_cfg s)")
  case True
  have "unat r < VCLOCK_MAX" "sint (vclock_get (lb_vclock (ms_limbo s)) (unat r)) \<le> sint lsn"
    "r = instance_id (ms_cfg s) \<longrightarrow> (\<forall>x\<in>set (ready_lsns (ms_ready s)). sint lsn < x) \<and> sint lsn \<le> sint (ms_lsn s)"
    using assms(2) by simp_all
  with master_invD(1)[OF assms(1)] show ?thesis
  proof (cases rule: ack_begin_cases)
    case (confirm A v c)
    then have "new_confirms s s' [c]" using True assms(3) by (auto simp: relay_ack_def new_confirms_def confirm_request_def)
    then show ?thesis by blast
  qed (use True assms(3) in \<open>auto simp: relay_ack_def intro!: no_new_confirms\<close>)
qed (use assms(3) in \<open>auto simp: relay_ack_def intro: no_new_confirms\<close>)

lemma set_quorum_confirms:
  assumes "master_inv s" and "0 < quorum" and "set_quorum quorum s = Some s'"
  shows "\<exists>cs. new_confirms s s' cs"
proof -
  let ?cfg = "(ms_cfg s)\<lparr>replication_synchro_quorum := quorum\<rparr>" and ?l = "ms_limbo s"
  note core = master_invD(1)[OF assms(1)]
  have pos: "0 < lsn_of ?l e" if "e \<in> set (lb_queue ?l)" "quorum \<le> le_ack_count (lb_entries ?l e)" for e
    using queue_entry[OF core that(1)] that(2) assms(2) by (auto simp: entry_ok_def ack_ok_def)
  then obtain c where c: "params_loop quorum (lb_queue ?l) (- 1) ?l = Some c"
    "c = - 1 \<or> (\<exists>e\<in>set (lb_queue ?l). c = le_lsn (lb_entries ?l e) \<and> quorum \<le> le_ack_count (lb_entries ?l e))"
    using params_loop_spec[of "lb_queue ?l" ?l quorum "- 1"] queue_entry[OF core] ack_ok_bound by (fastforce simp: entry_ok_def)
  have cfg: "0 \<le> sint (lb_confirmed_lsn ?l)" using core_invD(1)[OF core] by (simp add: cfg_inv_def)
  show ?thesis
  proof (cases "lb_queue ?l \<noteq> [] \<and> sint (lb_confirmed_lsn ?l) < sint c \<and> \<not> lb_is_in_rollback ?l")
    case True
    then obtain e where e: "e \<in> set (lb_queue ?l)" "c = le_lsn (lb_entries ?l e)" "quorum \<le> le_ack_count (lb_entries ?l e)"
      using c(2) cfg by auto
    have "quorum \<le> int (card (acks (lb_vclock ?l) c))"
      using queue_entry(2)[OF core e(1)] pos[OF e(1,3)] e(2,3) by (auto simp: ack_ok_def)
    then have "new_confirms s s' [c]"
      using True assms(3) c(1) confirm_begin[of ?l c] cfg
      by (auto simp: set_quorum_def txn_limbo_on_parameters_change_begin_def new_confirms_def confirm_request_def Let_def)
    then show ?thesis by blast
  next
    case False
    then have "\<exists>l. txn_limbo_on_parameters_change_begin ?cfg ?l = Some (None, l) \<and> (l = ?l \<or> l = emit EvBroadcast ?l)"
      using c(1) by (auto simp: txn_limbo_on_parameters_change_begin_def)
    then show ?thesis using assms(3) by (intro no_new_confirms) (auto simp: set_quorum_def emit_def Let_def)
  qed
qed


lemma run_ready_confirms:
  assumes "master_inv s" and "run_ready s = Some s'"
  shows "\<exists>cs. new_confirms s s' cs"
proof (cases "ms_ready s")
  case (Cons p r)
  note step = assms(2)[unfolded run_ready_def Cons list.case]
  note inv = master_invD[OF assms(1), unfolded Cons]
  show ?thesis
  proof (cases p)
    case (RTxn t lsn)
    then have ready: "ms_ready s = RTxn t lsn # r" and run: "txn_commit_written t lsn (s\<lparr>ms_ready := r\<rparr>) = Some s'"
      using Cons step by simp_all
    note cfg = txn_commit_written_same[OF run, simplified]
    from assms(1) ready run show ?thesis
    proof (cases rule: commit_written_cases)
      case (confirm l A v c)
      then have "new_confirms s s' [c]" using cfg by (simp add: new_confirms_def confirm_request_def)
      then show ?thesis by blast
    qed (auto intro!: no_new_confirms)
  next
    case (RConfirm lsn c)
    then have run: "confirm_written lsn c (s\<lparr>ms_ready := r\<rparr>) = Some s'" using step by simp
    have "txn_limbo_read_confirm lsn (ms_limbo s) = Some (confirm_prefix (covered lsn (ms_limbo s)) (ms_limbo s))"
      using read_confirm_eq core_invD(5,6)[OF inv(1)] by (simp add: covered_def)
    then show ?thesis
      using run
      by (cases c) (auto simp: confirm_written_def emit_def dest!: txn_commit_wait_same intro!: no_new_confirms)
  next
    case (RRollback t)
    then have ready: "ms_ready s = RRollback t # r" and run: "rollback_written t (s\<lparr>ms_ready := r\<rparr>) = Some s'"
      using Cons step by simp_all
    show ?thesis
      by (rule rollback_written_facts[OF assms(1) ready run])
        (auto simp: txn_limbo_write_rollback_end_def intro!: no_new_confirms)
  qed
qed (use assms(2) in \<open>auto simp: run_ready_def intro: no_new_confirms\<close>)


lemma txn_commit_begin_log_same:
  assumes "txn_commit_begin is_sync memory s = Some s'"
  shows "lb_log (ms_limbo s') = lb_log (ms_limbo s)"
  using assms by (cases rule: txn_commit_begin_cases) simp_all

lemma wake_fiber_confirms:
  assumes "wake_fiber t timed_out s = Some s'"
  shows "requests_of IPROTO_CONFIRM (lb_log (ms_limbo s')) = requests_of IPROTO_CONFIRM (lb_log (ms_limbo s))"
  using assms
  by (auto simp: wake_fiber_def txn_limbo_wait_complete_resume_def txn_limbo_write_rollback_begin_def txn_limbo_write_synchro_def
      bind_eq_Some_conv c_assert_def emit_def split: commit_fiber.splits wait_state.splits if_splits)

lemma journal_complete_confirms:
  assumes "master_inv s" and "0 \<le> sint res" and "journal_complete lsn res s = Some s'"
  shows "requests_of IPROTO_CONFIRM (lb_log (ms_limbo s')) = requests_of IPROTO_CONFIRM (lb_log (ms_limbo s))"
proof (cases "ms_wal s")
  case (Cons p w)
  note inv = master_invD[OF assms(1), unfolded Cons]
  show ?thesis
  proof (cases p)
    case (WTxn t)
    have "txn_on_journal_write t res (ms_limbo s) = Some (written t res (ms_limbo s))"
      by (rule journal_write_eq[OF core_invD(3)[OF inv(1)[unfolded WTxn, simplified]] assms(2)])
    then show ?thesis using assms(3) Cons WTxn by (auto simp: journal_complete_def)
  qed (use assms(3) Cons in \<open>auto simp: journal_complete_def\<close>)
qed (use assms(3) in \<open>auto simp: journal_complete_def\<close>)

lemma master_exec_confirms:
  assumes "master_inv s" and "master_enabled a s" and "master_exec a s = Some s'"
  shows "\<exists>cs. new_confirms s s' cs"
proof (cases a)
  case (Begin is_sync memory)
  then show ?thesis using txn_commit_begin_log_same[of is_sync memory s s'] assms(3) by (intro no_new_confirms) simp
next
  case (Journal lsn res)
  then show ?thesis using journal_complete_confirms[OF assms(1), of res lsn s'] assms(2,3) by (intro no_new_confirms) simp
next
  case (Wake t timed_out)
  then show ?thesis using wake_fiber_confirms[of t timed_out s s'] assms(3) by (intro no_new_confirms) simp
qed (use assms run_ready_confirms relay_ack_confirms[OF assms(1)] set_quorum_confirms in auto)

lemma master_reach_inv:
  assumes "master_reach s0 s" and "master_inv s0" and "log_ok s0"
  shows "master_inv s \<and> log_ok s"
  using assms(1)
proof induction
  case (master_reach_step s a s')
  then have "master_inv s'" using master_exec_inv[of s a] by simp
  then show ?case using master_reach_step master_exec_log by blast
qed (use assms in simp)


section \<open>Guarantees\<close>

text \<open>A quorum of at least one, an instance with an id, a vector clock without negative components and behind the journal.\<close>

definition start_ok :: "u32 \<Rightarrow> int \<Rightarrow> limbo \<Rightarrow> i64 \<Rightarrow> bool" where
  "start_ok iid quorum l lsn \<longleftrightarrow> iid \<noteq> REPLICA_ID_NIL \<and> unat iid < VCLOCK_MAX \<and> 0 < quorum \<and> vclock_wf (lb_vclock l) \<and>
     (\<forall>i<VCLOCK_MAX. 0 \<le> sint (vclock_get (lb_vclock l) i)) \<and> sint (vclock_get (lb_vclock l) (unat iid)) \<le> sint lsn"

lemma master_start_inv:
  assumes "start_ok iid quorum l lsn"
  shows "master_inv (master_start iid quorum l lsn)" "log_ok (master_start iid quorum l lsn)"
proof -
  have "0 \<le> sint lsn" using assms order_trans by (auto simp: start_ok_def)
  then show "master_inv (master_start iid quorum l lsn)"
    using assms
    by (simp add: start_ok_def master_start_def master_inv_def core_inv_def cfg_inv_def queue_inv_def queue_ok_def flight_inv_def
        flight_ok_def lsn_inv_def assigned_def pend_inv_def pend_def fiber_inv_def)
  show "log_ok (master_start iid quorum l lsn)"
    by (simp add: log_ok_def log_inv_def master_start_def pend_def decisions_ok_def)
qed

text \<open>A run of the instance: every action must be possible where it is taken.\<close>

fun master_run :: "master_action list \<Rightarrow> master \<Rightarrow> master option" where
  "master_run [] s = Some s"
| "master_run (a # as) s = (if master_enabled a s then master_exec a s \<bind> master_run as else None)"

lemma master_run_reach: "master_run as s = Some s' \<Longrightarrow> master_reach s0 s \<Longrightarrow> master_reach s0 s'"
  by (induction as arbitrary: s) (auto simp: bind_eq_Some_conv split: if_splits intro: master_reach_step)

definition sample_master :: master where
  "sample_master = master_start 1 2 sample_limbo 0"

lemma sample_start_ok: "start_ok 1 2 sample_limbo 0"
  by (simp add: start_ok_def sample_limbo_def vclock_wf_def vclock_get_cases VCLOCK_MAX_def REPLICA_ID_NIL_def)

text \<open>The list of the components makes runs quick to evaluate.\<close>

declare vclock_foreach_eq [code]

definition sample_run :: "master_action list" where
  "sample_run = [Begin True True, Begin True True, Journal 1 1, Journal 2 2, Run, Run, Ack 2 1]"

definition sample_stuck :: "master_action list" where
  "sample_stuck = sample_run @ [Wake 0 True, Wake 1 True, Journal 3 3, Run, Wake 0 False]"



text \<open>
  C3. A CONFIRM is submitted only when a quorum of instances, this one included, has the transaction it
  names.  At the moment of the submission at least \<^verbatim>\<open>replication_synchro_quorum\<close> components of the
  vector clock of the limbo have reached the LSN, also when the quorum has just been lowered.
\<close>

theorem limbo_confirm_needs_quorum:
  assumes "start_ok iid quorum l lsn" and "master_reach (master_start iid quorum l lsn) s" and "master_enabled a s"
    and "master_exec a s = Some s'"
  shows "\<exists>cs. requests_of IPROTO_CONFIRM (lb_log (ms_limbo s')) = requests_of IPROTO_CONFIRM (lb_log (ms_limbo s)) @ cs \<and>
    (\<forall>c\<in>set cs. replication_synchro_quorum (ms_cfg s')
       \<le> int (card {i. i < VCLOCK_MAX \<and> sint c \<le> sint (vclock_get (lb_vclock (ms_limbo s')) i)}))"
proof -
  have "master_inv s" using master_reach_inv[OF assms(2) master_start_inv[OF assms(1)]] by blast
  then show ?thesis using master_exec_confirms[OF _ assms(3,4)] by (simp add: new_confirms_def acks_def)
qed

theorem limbo_confirm_needs_quorum_witness:
  "\<exists>s s' cs. master_run (butlast sample_run) sample_master = Some s \<and> master_exec (Ack 2 1) s = Some s' \<and>
     requests_of IPROTO_CONFIRM (lb_log (ms_limbo s')) = requests_of IPROTO_CONFIRM (lb_log (ms_limbo s)) @ cs \<and>
     2 \<le> int (card {i. i < VCLOCK_MAX \<and> 1 \<le> sint (vclock_get (lb_vclock (ms_limbo s')) i)})"
proof -
  have "case master_run (butlast sample_run) sample_master of None \<Rightarrow> False
      | Some s \<Rightarrow> requests_of IPROTO_CONFIRM (lb_log (ms_limbo s)) = [] \<and> master_enabled (Ack 2 1) s \<and>
          (case master_exec (Ack 2 1) s of None \<Rightarrow> False
           | Some s' \<Rightarrow> requests_of IPROTO_CONFIRM (lb_log (ms_limbo s')) = [1] \<and> replication_synchro_quorum (ms_cfg s') = 2)"
    unfolding sample_run_def sample_master_def by code_simp
  then obtain s s' where s: "master_run (butlast sample_run) sample_master = Some s" "requests_of IPROTO_CONFIRM (lb_log (ms_limbo s)) = []"
      "master_enabled (Ack 2 1) s" "master_exec (Ack 2 1) s = Some s'"
      "requests_of IPROTO_CONFIRM (lb_log (ms_limbo s')) = [1]" "replication_synchro_quorum (ms_cfg s') = 2"
    by (auto split: option.splits)
  have "master_reach (master_start 1 2 sample_limbo 0) s"
    using master_run_reach[OF s(1)] master_reach_start by (simp add: sample_master_def)
  from limbo_confirm_needs_quorum[OF sample_start_ok this s(3,4)] show ?thesis using s by auto
qed

text \<open>
  C4. The outcome of every transaction is consistent with what is in the journal.  No transaction is
  completed twice; commits happen in the order in which the transactions entered the limbo; a synchronous one that
  has an LSN is committed only after a CONFIRM of that LSN or a later one has been submitted, and rolled back only
  after a ROLLBACK of that LSN or an earlier one, with no CONFIRM that covers it.
\<close>

theorem limbo_decisions_consistent:
  assumes "start_ok iid quorum l lsn" and "master_reach (master_start iid quorum l lsn) s"
  shows "distinct (done_ids (lb_log (ms_limbo s))) \<and> sorted_wrt (<) (commit_ids (lb_log (ms_limbo s))) \<and>
    decisions_ok (\<lambda>e. le_lsn (lb_entries (ms_limbo s) e)) (lb_log (ms_limbo s))"
proof -
  have "log_ok s" using master_reach_inv[OF assms(2) master_start_inv[OF assms(1)]] by blast
  then show ?thesis by (simp add: log_ok_def log_inv_def)
qed

theorem limbo_decisions_consistent_witness:
  "\<exists>s. master_run sample_stuck sample_master = Some s \<and> commit_ids (lb_log (ms_limbo s)) = [0] \<and>
     decisions_ok (\<lambda>e. le_lsn (lb_entries (ms_limbo s) e)) (lb_log (ms_limbo s))"
proof -
  have "case master_run sample_stuck sample_master of None \<Rightarrow> False | Some s \<Rightarrow> commit_ids (lb_log (ms_limbo s)) = [0]"
    unfolding sample_stuck_def sample_run_def sample_master_def by code_simp
  then obtain s where s: "master_run sample_stuck sample_master = Some s" "commit_ids (lb_log (ms_limbo s)) = [0]"
    by (auto split: option.splits)
  have "master_reach (master_start 1 2 sample_limbo 0) s"
    using master_run_reach[OF s(1)] master_reach_start by (simp add: sample_master_def)
  from limbo_decisions_consistent[OF sample_start_ok this] show ?thesis using s by auto
qed

text \<open>A fiber that has returned, or waits at the label \<^verbatim>\<open>wait\<close> for an entry that is not complete, does nothing when woken up.\<close>

lemma wake_idle:
  assumes "ms_fiber s t = Fiber_None \<or> ms_fiber s t = Fiber_Wait (Wait_Done r) \<or>
    ms_fiber s t = Fiber_Wait Wait_Untimed \<and> \<not> txn_limbo_entry_is_complete (lb_entries (ms_limbo s) t)"
  shows "wake_fiber t timed_out s = Some s"
  using assms by (auto simp: wake_fiber_def txn_limbo_wait_complete_yielded_def fun_upd_idem)

text \<open>
  C34. A timeout can be lost.  A transaction that times out while an earlier one is being confirmed goes to the label
  \<^verbatim>\<open>wait\<close> and never looks at its timeout again.  There is a reachable state in which it is the only
  entry, no write is pending, no CONFIRM covers it, and yet no sequence of wake-ups, timed out or not, rolls it back or changes
  anything: the commit waits for as long as the replicas are silent.
\<close>

theorem limbo_timeout_lost:
  "\<exists>s. master_reach sample_master s \<and> lb_queue (ms_limbo s) = [1] \<and> pend s = [] \<and>
     sint (lb_confirmed_lsn (ms_limbo s)) < lsn_of (ms_limbo s) 1 \<and> ms_fiber s 1 = Fiber_Wait Wait_Untimed \<and>
     (\<forall>wakes. master_run (map (\<lambda>(t, timed_out). Wake t timed_out) wakes) s = Some s)"
proof -
  have "case master_run sample_stuck sample_master of None \<Rightarrow> False
    | Some s \<Rightarrow> lb_queue (ms_limbo s) = [1] \<and> pend s = [] \<and> sint (lb_confirmed_lsn (ms_limbo s)) < lsn_of (ms_limbo s) 1 \<and>
        ms_fiber s 1 = Fiber_Wait Wait_Untimed \<and> ms_fiber s 0 = Fiber_Wait (Wait_Done None) \<and> ms_next s = 2 \<and>
        \<not> txn_limbo_entry_is_complete (lb_entries (ms_limbo s) 1)"
    unfolding sample_stuck_def sample_run_def sample_master_def by code_simp
  then obtain s where s: "master_run sample_stuck sample_master = Some s" "lb_queue (ms_limbo s) = [1]" "pend s = []"
    "sint (lb_confirmed_lsn (ms_limbo s)) < lsn_of (ms_limbo s) 1" "ms_fiber s 1 = Fiber_Wait Wait_Untimed"
    "ms_fiber s 0 = Fiber_Wait (Wait_Done None)" "ms_next s = 2" "\<not> txn_limbo_entry_is_complete (lb_entries (ms_limbo s) 1)"
    by (auto split: option.splits)
  have reach: "master_reach sample_master s" using master_run_reach[OF s(1)] master_reach_start by simp
  then have "master_inv s" using master_reach_inv master_start_inv[OF sample_start_ok] by (auto simp: sample_master_def)
  then have "ms_fiber s t = Fiber_None" if "2 \<le> t" for t using that s(7) by (simp add: master_inv_def fiber_inv_def)
  then have idle: "wake_fiber t timed_out s = Some s" for t timed_out
    using s by (cases "t = 0"; cases "t = 1") (auto intro!: wake_idle[where r = None])
  have "master_run (map (\<lambda>(t, timed_out). Wake t timed_out) wakes) s = Some s" for wakes
    by (induction wakes) (auto simp: idle)
  then show ?thesis using reach s by blast
qed

end
