(* ===== verification/Heap.thy ===== *)
theory Heap
  imports Prelude "HOL-Library.Multiset"
begin

text \<open>
  The intrusive binary heap of \<^verbatim>\<open>src/src/lib/salad/heap.h\<close>.  Values are named by numbers and have the
  name of their node; \<open>hp_pos\<close> is the \<^verbatim>\<open>pos\<close> field of all nodes.  \<open>HEAP_LESS\<close> is a parameter, a
  relation on names under the values at the time of the call.  An access outside of the array is \<^const>\<open>None\<close>; the loops are
  partial functions, so that a loop that does not end is \<^const>\<open>None\<close> as well.
\<close>

section \<open>Heap\<close>

definition HEAP_INITIAL_CAPACITY :: u32 where
  "HEAP_INITIAL_CAPACITY = 8"

definition HEAP_NODE_STRAY_POS :: u32 where
  "HEAP_NODE_STRAY_POS = - 1"

record heap =
  hp_size :: u32
  hp_capacity :: u32
  hp_harr :: "nat list"
  hp_pos :: "nat \<Rightarrow> u32"

type_synonym heap_less = "nat \<Rightarrow> nat \<Rightarrow> bool"

definition heap_node_create :: "nat \<Rightarrow> heap \<Rightarrow> heap" where
  "heap_node_create n h = h\<lparr>hp_pos := (hp_pos h)(n := HEAP_NODE_STRAY_POS)\<rparr>"

definition heap_node_is_stray :: "nat \<Rightarrow> heap \<Rightarrow> bool" where
  "heap_node_is_stray n h \<longleftrightarrow> hp_pos h n = HEAP_NODE_STRAY_POS"

definition heap_create :: "heap \<Rightarrow> heap" where
  "heap_create h = h\<lparr>hp_size := 0, hp_capacity := 0, hp_harr := []\<rparr>"

definition harr_get :: "heap \<Rightarrow> u32 \<Rightarrow> nat option" where
  "harr_get h i = (if unat i < length (hp_harr h) then Some (hp_harr h ! unat i) else None)"

definition harr_set :: "u32 \<Rightarrow> nat \<Rightarrow> heap \<Rightarrow> heap option" where
  "harr_set i n h = (if unat i < length (hp_harr h) then Some (h\<lparr>hp_harr := (hp_harr h)[unat i := n]\<rparr>) else None)"

definition heap_update_link :: "u32 \<Rightarrow> heap \<Rightarrow> heap option" where
  "heap_update_link pos h = do { n \<leftarrow> harr_get h pos; Some (h\<lparr>hp_pos := (hp_pos h)(n := pos)\<rparr>) }"

partial_function (option) sift_up_loop :: "heap_less \<Rightarrow> u32 \<Rightarrow> nat \<Rightarrow> heap \<Rightarrow> heap option" where
  "sift_up_loop lt curr_pos node h =
     (let parent = (curr_pos - 1) div 2
      in if 0 < curr_pos then do {
           p \<leftarrow> harr_get h parent;
           if lt node p then do {
             node \<leftarrow> harr_get h curr_pos;
             h \<leftarrow> harr_set curr_pos p h;
             h \<leftarrow> heap_update_link curr_pos h;
             h \<leftarrow> harr_set parent node h;
             h \<leftarrow> heap_update_link parent h;
             sift_up_loop lt parent node h }
           else Some h }
         else Some h)"

definition heap_sift_up :: "heap_less \<Rightarrow> nat \<Rightarrow> heap \<Rightarrow> heap option" where
  "heap_sift_up lt node h = sift_up_loop lt (hp_pos h node) node h"

definition min_child :: "heap_less \<Rightarrow> u32 \<Rightarrow> heap \<Rightarrow> u32 option" where
  "min_child lt curr_pos h =
     (let left = 2 * curr_pos + 1; right = 2 * curr_pos + 2
      in if right < hp_size h then do {
           r \<leftarrow> harr_get h right;
           l \<leftarrow> harr_get h left;
           Some (if lt r l then right else left) }
         else Some left)"

partial_function (option) sift_down_loop :: "heap_less \<Rightarrow> u32 \<Rightarrow> heap \<Rightarrow> heap option" where
  "sift_down_loop lt curr_pos h = do {
     m \<leftarrow> min_child lt curr_pos h;
     if hp_size h \<le> 2 * curr_pos + 1 then Some h
     else do {
       node \<leftarrow> harr_get h curr_pos;
       c \<leftarrow> harr_get h m;
       if lt node c then Some h
       else do {
         h \<leftarrow> harr_set curr_pos c h;
         h \<leftarrow> harr_set m node h;
         h \<leftarrow> heap_update_link curr_pos h;
         h \<leftarrow> heap_update_link m h;
         sift_down_loop lt m h } } }"

definition heap_sift_down :: "heap_less \<Rightarrow> nat \<Rightarrow> heap \<Rightarrow> heap option" where
  "heap_sift_down lt node h = sift_down_loop lt (hp_pos h node) h"

definition heap_update_node :: "heap_less \<Rightarrow> nat \<Rightarrow> heap \<Rightarrow> heap option" where
  "heap_update_node lt node h = do { h \<leftarrow> heap_sift_down lt node h; heap_sift_up lt node h }"

text \<open>\<open>memory\<close> tells whether \<^verbatim>\<open>realloc\<close> succeeds, \<open>junk\<close> is what the new cells hold.\<close>

definition heap_reserve :: "bool \<Rightarrow> nat \<Rightarrow> heap \<Rightarrow> bool \<times> heap" where
  "heap_reserve memory junk h =
     (if hp_size h < hp_capacity h then (True, h)
      else
        let capacity = (if hp_capacity h = 0 then HEAP_INITIAL_CAPACITY else push_bit 1 (hp_capacity h))
        in if \<not> memory then (False, h)
           else (True, h\<lparr>hp_harr := take (unat capacity) (hp_harr h @ replicate (unat capacity - length (hp_harr h)) junk),
                         hp_capacity := capacity\<rparr>))"

definition heap_insert :: "heap_less \<Rightarrow> bool \<Rightarrow> nat \<Rightarrow> nat \<Rightarrow> heap \<Rightarrow> (bool \<times> heap) option" where
  "heap_insert lt memory junk value h =
     (case heap_reserve memory junk h of
        (False, h) \<Rightarrow> Some (False, h)
      | (True, h) \<Rightarrow> do {
          h \<leftarrow> harr_set (hp_size h) value h;
          h \<leftarrow> heap_update_link (hp_size h) (h\<lparr>hp_size := hp_size h + 1\<rparr>);
          h \<leftarrow> heap_sift_up lt value h;
          Some (True, h) })"

text \<open>\<open>Some None\<close> is a null result.\<close>

definition heap_top :: "heap \<Rightarrow> nat option option" where
  "heap_top h = (if hp_size h = 0 then Some None else map_option Some (harr_get h 0))"

definition heap_delete :: "heap_less \<Rightarrow> nat \<Rightarrow> heap \<Rightarrow> heap option" where
  "heap_delete lt value h =
     (if hp_size h = 0 then Some h
      else do {
        h \<leftarrow> c_assert (\<not> heap_node_is_stray value h) h;
        let h = h\<lparr>hp_size := hp_size h - 1\<rparr>;
        let curr_pos = hp_pos h value;
        let h = heap_node_create value h;
        if curr_pos = hp_size h then Some h
        else do {
          n \<leftarrow> harr_get h (hp_size h);
          h \<leftarrow> harr_set curr_pos n h;
          h \<leftarrow> heap_update_link curr_pos h;
          n \<leftarrow> harr_get h curr_pos;
          heap_update_node lt n h } })"

definition heap_pop :: "heap_less \<Rightarrow> heap \<Rightarrow> (nat option \<times> heap) option" where
  "heap_pop lt h =
     (if hp_size h = 0 then Some (None, h)
      else do { res \<leftarrow> harr_get h 0; h \<leftarrow> heap_delete lt res h; Some (Some res, h) })"

definition heap_update :: "heap_less \<Rightarrow> nat \<Rightarrow> heap \<Rightarrow> heap option" where
  "heap_update = heap_update_node"

text \<open>The loop of \<^verbatim>\<open>update_all\<close>, from a position down to the root.\<close>

fun update_all_loop :: "heap_less \<Rightarrow> nat \<Rightarrow> heap \<Rightarrow> heap option" where
  "update_all_loop lt curr_pos h = do {
     n \<leftarrow> harr_get h (of_nat curr_pos);
     h \<leftarrow> heap_sift_down lt n h;
     case curr_pos of 0 \<Rightarrow> Some h | Suc k \<Rightarrow> update_all_loop lt k h }"

definition heap_update_all :: "heap_less \<Rightarrow> heap \<Rightarrow> heap option" where
  "heap_update_all lt h = (if hp_size h \<le> 1 then Some h else update_all_loop lt (unat ((hp_size h - 2) div 2)) h)"

definition heap_iterator_init :: u32 where
  "heap_iterator_init = 0"

definition heap_iterator_next :: "heap \<Rightarrow> u32 \<Rightarrow> (nat option \<times> u32) option" where
  "heap_iterator_next h curr_pos =
     (if curr_pos = hp_size h then Some (None, curr_pos)
      else do { n \<leftarrow> harr_get h curr_pos; Some (Some n, curr_pos + 1) })"

text \<open>The result is true when the invariant holds.\<close>

partial_function (option) check_loop :: "heap_less \<Rightarrow> u32 \<Rightarrow> heap \<Rightarrow> bool option" where
  "check_loop lt curr_pos h =
     (if 2 * curr_pos + 1 < hp_size h then do {
        m \<leftarrow> min_child lt curr_pos h;
        c \<leftarrow> harr_get h m;
        n \<leftarrow> harr_get h curr_pos;
        if lt c n then Some False else check_loop lt (curr_pos + 1) h }
      else Some True)"

definition heap_check :: "heap_less \<Rightarrow> heap \<Rightarrow> bool option" where
  "heap_check lt h = check_loop lt 0 h"

declare sift_up_loop.simps [code] sift_down_loop.simps [code] check_loop.simps [code]

section \<open>Sifting a list\<close>

text \<open>The loops on a list of names, without the array and the links.\<close>

abbreviation parent :: "nat \<Rightarrow> nat" where
  "parent i \<equiv> (i - 1) div 2"

definition swapped :: "nat \<Rightarrow> nat \<Rightarrow> 'a list \<Rightarrow> 'a list" where
  "swapped i j xs = xs[i := xs ! j, j := xs ! i]"

definition child :: "heap_less \<Rightarrow> nat list \<Rightarrow> nat \<Rightarrow> nat" where
  "child lt xs i = (if 2 * i + 2 < length xs \<and> lt (xs ! (2 * i + 2)) (xs ! (2 * i + 1)) then 2 * i + 2 else 2 * i + 1)"

lemma length_swapped [simp]: "length (swapped i j xs) = length xs"
  by (simp add: swapped_def)

lemma mset_swapped: "i < length xs \<Longrightarrow> j < length xs \<Longrightarrow> mset (swapped i j xs) = mset xs"
  unfolding swapped_def by (metis list_update_swap mset_swap list_update_id)

lemma swapped_nth:
  "i < length xs \<Longrightarrow> j < length xs \<Longrightarrow> k < length xs \<Longrightarrow>
   swapped i j xs ! k = (if k = j then xs ! i else if k = i then xs ! j else xs ! k)"
  by (auto simp: swapped_def nth_list_update)

lemma child_cases:
  assumes "2 * i + 1 < length xs"
  shows "child lt xs i < length xs" "i < child lt xs i" "parent (child lt xs i) = i" "0 < child lt xs i"
  using assms by (auto simp: child_def)

function siftup :: "heap_less \<Rightarrow> nat list \<Rightarrow> nat \<Rightarrow> nat list" where
  "siftup lt xs i = (if 0 < i \<and> lt (xs ! i) (xs ! parent i) then siftup lt (swapped i (parent i) xs) (parent i) else xs)"
  by pat_completeness auto
termination by (relation "measure (\<lambda>(lt, xs, i). i)") auto

function siftdown :: "heap_less \<Rightarrow> nat list \<Rightarrow> nat \<Rightarrow> nat list" where
  "siftdown lt xs i =
     (if length xs \<le> 2 * i + 1 \<or> lt (xs ! i) (xs ! child lt xs i) then xs
      else siftdown lt (swapped i (child lt xs i) xs) (child lt xs i))"
  by pat_completeness auto
termination
  by (relation "measure (\<lambda>(lt, xs, i). length xs - i)") (auto simp: child_def)

declare siftup.simps [simp del] siftdown.simps [simp del]

lemma siftup_mset: "i < length xs \<Longrightarrow> mset (siftup lt xs i) = mset xs"
proof (induction lt xs i rule: siftup.induct)
  case (1 lt xs i)
  have "parent i < length xs" using 1(2) by linarith
  then show ?case using 1 by (subst siftup.simps) (auto simp: mset_swapped)
qed

lemma siftdown_mset: "i < length xs \<Longrightarrow> mset (siftdown lt xs i) = mset xs"
proof (induction lt xs i rule: siftdown.induct)
  case (1 lt xs i)
  show ?case
  proof (cases "length xs \<le> 2 * i + 1 \<or> lt (xs ! i) (xs ! child lt xs i)")
    case False
    then have "child lt xs i < length xs" by (intro child_cases) simp
    then show ?thesis using 1 False by (subst siftdown.simps) (auto simp: mset_swapped)
  qed (subst siftdown.simps, simp)
qed

section \<open>The order of a heap\<close>

text \<open>What \<open>HEAP_LESS\<close> has to be: a strict weak order.\<close>

locale heap_order =
  fixes lt :: "'a \<Rightarrow> 'a \<Rightarrow> bool"
  assumes asym: "lt x y \<Longrightarrow> \<not> lt y x"
    and negtrans: "\<not> lt x y \<Longrightarrow> \<not> lt y z \<Longrightarrow> \<not> lt x z"

text \<open>The edges whose upper end is at \<open>b\<close> or later are in order; \<open>b = 0\<close> is the whole heap.\<close>

definition edge_ok :: "heap_less \<Rightarrow> nat list \<Rightarrow> nat \<Rightarrow> bool" where
  "edge_ok lt xs j \<longleftrightarrow> \<not> lt (xs ! j) (xs ! parent j)"

definition heap_from :: "heap_less \<Rightarrow> nat \<Rightarrow> nat list \<Rightarrow> bool" where
  "heap_from lt b xs \<longleftrightarrow> (\<forall>j. 0 < j \<and> j < length xs \<and> b \<le> parent j \<longrightarrow> edge_ok lt xs j)"

abbreviation heap_ordered :: "heap_less \<Rightarrow> nat list \<Rightarrow> bool" where
  "heap_ordered lt \<equiv> heap_from lt 0"

text \<open>The same but for the edges at \<open>i\<close>: the ones above and below it, or the one above it.\<close>

definition around :: "heap_less \<Rightarrow> nat \<Rightarrow> nat list \<Rightarrow> nat \<Rightarrow> bool" where
  "around lt b xs i \<longleftrightarrow>
     (\<forall>j. 0 < j \<and> j < length xs \<and> b \<le> parent j \<and> parent j \<noteq> i \<and> j \<noteq> i \<longrightarrow> edge_ok lt xs j) \<and>
     (\<forall>j. 0 < j \<and> j < length xs \<and> parent j = i \<and> 0 < i \<and> b \<le> parent i \<longrightarrow> \<not> lt (xs ! j) (xs ! parent i))"

definition below :: "heap_less \<Rightarrow> nat list \<Rightarrow> nat \<Rightarrow> bool" where
  "below lt xs i \<longleftrightarrow> (\<forall>j. 0 < j \<and> j < length xs \<and> parent j = i \<longrightarrow> edge_ok lt xs j)"

lemma parent_child: "0 < j \<Longrightarrow> parent j = i \<longleftrightarrow> j = 2 * i + 1 \<or> j = 2 * i + 2"
  by auto

lemma parent_less: "0 < i \<Longrightarrow> parent i < i"
  by auto

context heap_order
begin

lemma irrefl: "\<not> lt x x"
  using asym by blast

end

text \<open>
  The order of the names of values.  The operations compare with \<open>lt\<close>; the heap is in order for \<open>c\<close>, which may
  be coarser: it may leave apart values that \<open>lt\<close> tells apart, and whose places nobody relies on.
\<close>

locale node_order = heap_order c for c :: heap_less +
  fixes lt :: heap_less
  assumes finer: "c x y \<Longrightarrow> lt x y"
    and compatible: "lt x y \<Longrightarrow> \<not> c y x"
begin

lemma around_ordered:
  assumes "heap_from c b xs" and "i < length xs"
  shows "around c b xs i"
proof -
  have "\<not> c (xs ! j) (xs ! parent i)" if "0 < j" "j < length xs" "parent j = i" "0 < i" "b \<le> parent i" for j
  proof -
    have "edge_ok c xs j" "edge_ok c xs i" using assms that parent_less[of i] unfolding heap_from_def by auto
    then show ?thesis using negtrans that(3) unfolding edge_ok_def by blast
  qed
  then show ?thesis using assms(1) by (auto simp: around_def heap_from_def)
qed

lemma child_least:
  assumes "2 * i + 1 < length xs" and "0 < j" "j < length xs" "parent j = i"
  shows "\<not> c (xs ! j) (xs ! child lt xs i)"
  using assms finer compatible irrefl parent_child[OF assms(2), of i] by (auto simp: child_def)

lemma not_below:
  assumes "length xs \<le> 2 * i + 1 \<or> \<not> c (xs ! child lt xs i) (xs ! i)"
  shows "below c xs i"
  unfolding below_def
proof (intro allI impI)
  fix j assume j: "0 < j \<and> j < length xs \<and> parent j = i"
  then have l: "2 * i + 1 < length xs" using parent_child[of j i] by auto
  then have "\<not> c (xs ! child lt xs i) (xs ! i)" using assms by simp
  moreover have "\<not> c (xs ! j) (xs ! child lt xs i)" using child_least[OF l] j by blast
  ultimately show "edge_ok c xs j" using negtrans j unfolding edge_ok_def by blast
qed

text \<open>One turn of \<^const>\<open>siftdown\<close> moves the gap to the child.\<close>

lemma siftdown_turn:
  assumes "around c b xs i" and "b \<le> i" and l: "2 * i + 1 < length xs" and "\<not> c (xs ! i) (xs ! child lt xs i)"
  defines "m \<equiv> child lt xs i"
  shows "around c b (swapped i m xs) m" and "edge_ok c (swapped i m xs) m"
proof -
  let ?ys = "swapped i m xs"
  note m = child_cases[OF l, of lt, folded m_def]
  have i: "i < length xs" using m by simp
  have nth: "?ys ! k = (if k = m then xs ! i else if k = i then xs ! m else xs ! k)" if "k < length xs" for k
    by (rule swapped_nth[OF i m(1) that])
  show em: "edge_ok c ?ys m" using assms(4) nth[OF m(1)] nth[OF i] m by (simp add: edge_ok_def m_def)
  have ei: "edge_ok c ?ys i" if "0 < i" "b \<le> parent i"
  proof -
    have p: "parent i < i" using that parent_less by blast
    then have "?ys ! parent i = xs ! parent i" using nth[of "parent i"] i m(2) by auto
    moreover have "\<not> c (xs ! m) (xs ! parent i)" using assms(1) m that unfolding around_def by blast
    ultimately show ?thesis using nth[OF i] m(2) by (simp add: edge_ok_def)
  qed
  have rest: "edge_ok c ?ys j" if j: "j < length xs" "0 < j" "b \<le> parent j" "parent j \<noteq> m" "j \<noteq> m" for j
  proof -
    consider "j = i" | "parent j = i" | "parent j \<noteq> i" "j \<noteq> i" by blast
    then show ?thesis
    proof cases
      case 2
      then have "\<not> c (xs ! j) (xs ! m)" using child_least[OF l] j unfolding m_def by blast
      moreover have "j \<noteq> i" using 2 j(2) by auto
      ultimately show ?thesis using 2 j(5) nth[OF j(1)] nth[OF i] m(2) by (simp add: edge_ok_def)
    next
      case 3
      have "parent j < length xs" using j parent_less[of j] by linarith
      then show ?thesis using 3 j nth[OF j(1)] nth[of "parent j"] assms(1) unfolding around_def edge_ok_def by auto
    qed (use ei j in auto)
  qed
  have "\<not> c (?ys ! j) (?ys ! parent m)" if j: "0 < j" "j < length xs" "parent j = m" for j
  proof -
    have ne: "j \<noteq> m" "j \<noteq> i" "m \<noteq> i" using j m by auto
    have "edge_ok c xs j" using assms(1,2) j m ne unfolding around_def by auto
    then show ?thesis using nth[OF j(2)] nth[OF i] ne m(3) j(3) by (simp add: edge_ok_def)
  qed
  then show "around c b ?ys m" using rest unfolding around_def by auto
qed

lemma around_close:
  assumes "around c b xs i" and "below c xs i" and "0 < i \<Longrightarrow> b \<le> parent i \<Longrightarrow> edge_ok c xs i"
  shows "heap_from c b xs"
  using assms unfolding around_def below_def heap_from_def by blast

lemma siftdown_from:
  "around c b xs i \<Longrightarrow> b \<le> i \<Longrightarrow> (0 < i \<Longrightarrow> b \<le> parent i \<Longrightarrow> edge_ok c xs i) \<Longrightarrow> heap_from c b (siftdown lt xs i)"
proof (induction "length xs - i" arbitrary: xs i rule: less_induct)
  case less
  show ?case
  proof (cases "length xs \<le> 2 * i + 1 \<or> lt (xs ! i) (xs ! child lt xs i)")
    case True
    then have "below c xs i" using compatible by (intro not_below) blast
    then show ?thesis using True less.prems by (subst siftdown.simps) (auto intro: around_close)
  next
    case False
    then have l: "2 * i + 1 < length xs" by simp
    note m = child_cases[OF l, of lt] and turn = siftdown_turn[OF less.prems(1,2) l]
    have "heap_from c b (siftdown lt (swapped i (child lt xs i) xs) (child lt xs i))"
      using m less.prems(2) turn False finer by (intro less.hyps) auto
    then show ?thesis using False by (subst siftdown.simps) simp
  qed
qed

text \<open>\<^const>\<open>siftdown\<close> either leaves the list alone or puts everything in order.\<close>

lemma siftdown_moves:
  assumes "around c b xs i" and "b \<le> i"
  shows "siftdown lt xs i = xs \<and> below c xs i \<or> heap_from c b (siftdown lt xs i)"
proof (cases "length xs \<le> 2 * i + 1 \<or> lt (xs ! i) (xs ! child lt xs i)")
  case True
  then have "below c xs i" using compatible by (intro not_below) blast
  then show ?thesis using True by (subst siftdown.simps) simp
next
  case False
  then have l: "2 * i + 1 < length xs" by simp
  have "heap_from c b (siftdown lt (swapped i (child lt xs i) xs) (child lt xs i))"
    using child_cases[OF l, of lt] siftdown_turn[OF assms l] assms(2) False finer by (intro siftdown_from) auto
  then show ?thesis using False by (subst (2) siftdown.simps) simp
qed

lemma siftup_turn:
  assumes "around c 0 xs i" and "below c xs i" and "i < length xs" and "0 < i" and "lt (xs ! i) (xs ! parent i)"
  shows "around c 0 (swapped i (parent i) xs) (parent i)" and "below c (swapped i (parent i) xs) (parent i)"
proof -
  define p where "p = parent i"
  let ?ys = "swapped i p xs"
  have p: "p < i" "p < length xs" using assms(3,4) by (auto simp: p_def)
  have nth: "?ys ! k = (if k = p then xs ! i else if k = i then xs ! p else xs ! k)" if "k < length xs" for k
    by (rule swapped_nth[OF assms(3) p(2) that])
  have lt: "lt (xs ! i) (xs ! p)" "\<not> c (xs ! p) (xs ! i)" using assms(5) compatible by (auto simp: p_def)
  have edges: "edge_ok c xs j" if "0 < j" "j < length xs" "j \<noteq> i" for j
    using assms(1,2) that unfolding around_def below_def by blast
  have sibling: "\<not> c (xs ! j) (xs ! p)" if "0 < j" "j < length xs" "parent j = p" "j \<noteq> i" for j
    using edges[OF that(1,2,4)] that(3) by (simp add: edge_ok_def)
  have "edge_ok c ?ys j" if j: "0 < j" "j < length xs" "parent j = p" for j
  proof (cases "j = i")
    case False
    then have "\<not> c (xs ! j) (xs ! i)" using sibling[OF j] lt(2) negtrans by blast
    moreover have "j \<noteq> p" using j by auto
    ultimately show ?thesis using False j nth[OF j(2)] nth[OF p(2)] by (simp add: edge_ok_def)
  qed (use nth[OF assms(3)] nth[OF p(2)] p(1) lt(2) j(3) in \<open>simp add: edge_ok_def\<close>)
  then show "below c (swapped i (parent i) xs) (parent i)" unfolding p_def[symmetric] below_def by simp
  have "edge_ok c ?ys j" if j: "0 < j" "j < length xs" "parent j \<noteq> p" "j \<noteq> p" for j
  proof (cases "parent j = i")
    case True
    then have "\<not> c (xs ! j) (xs ! p)" using assms(1,4) j unfolding around_def p_def by blast
    moreover have "j \<noteq> i" using True j by auto
    ultimately show ?thesis using True j nth[OF j(2)] nth[OF assms(3)] p(1) by (simp add: edge_ok_def)
  next
    case False
    then have "j \<noteq> i" "parent j < length xs" using j parent_less[of j] by (auto simp: p_def)
    then show ?thesis using edges[of j] False j nth[OF j(2)] nth[of "parent j"] by (simp add: edge_ok_def)
  qed
  moreover have "\<not> c (?ys ! j) (?ys ! parent p)" if j: "0 < j" "j < length xs" "parent j = p" "0 < p" for j
  proof -
    have pp: "parent p < p" "?ys ! parent p = xs ! parent p" using parent_less[OF j(4)] nth[of "parent p"] p by auto
    have "\<not> c (xs ! p) (xs ! parent p)" using edges[of p] j(4) p by (simp add: edge_ok_def)
    then have "\<not> c (xs ! j) (xs ! parent p)" if "j \<noteq> i" using sibling[OF j(1-3) that] negtrans by blast
    then show ?thesis using \<open>\<not> c (xs ! p) (xs ! parent p)\<close> pp(2) nth[OF j(2)] j by (auto split: if_splits)
  qed
  ultimately show "around c 0 (swapped i (parent i) xs) (parent i)" unfolding around_def p_def[symmetric] by auto
qed

lemma siftup_ordered: "around c 0 xs i \<Longrightarrow> below c xs i \<Longrightarrow> i < length xs \<Longrightarrow> heap_ordered c (siftup lt xs i)"
proof (induction i arbitrary: xs rule: less_induct)
  case (less i)
  show ?case
  proof (cases "0 < i \<and> lt (xs ! i) (xs ! parent i)")
    case True
    have "heap_ordered c (siftup lt (swapped i (parent i) xs) (parent i))"
      using siftup_turn[OF less.prems] True less.prems(3) by (intro less.IH) auto
    then show ?thesis using True by (subst siftup.simps) simp
  next
    case False
    then have "0 < i \<Longrightarrow> edge_ok c xs i" using finer by (auto simp: edge_ok_def)
    then have "heap_ordered c xs" using around_close[OF less.prems(1,2)] by simp
    then show ?thesis using False by (subst siftup.simps) auto
  qed
qed

text \<open>Changing one value and sifting down and up again restores the order.\<close>

lemma update_ordered:
  assumes "around c 0 xs i" and "i < length xs" and "distinct xs" and "k < length xs" and "siftdown lt xs i ! k = xs ! i"
  shows "heap_ordered c (siftup lt (siftdown lt xs i) k)"
  using siftdown_moves[OF assms(1)]
proof
  assume same: "siftdown lt xs i = xs \<and> below c xs i"
  then have "k = i" using assms by (simp add: nth_eq_iff_index_eq)
  then show ?thesis using same assms(1,2) siftup_ordered by simp
next
  assume o: "heap_ordered c (siftdown lt xs i)"
  have len: "length (siftdown lt xs i) = length xs" using siftdown_mset[OF assms(2), of lt] by (rule mset_eq_length)
  then have "below c (siftdown lt xs i) k" using o by (auto simp: below_def heap_from_def)
  then show ?thesis using siftup_ordered[OF around_ordered[OF o]] assms(4) len by simp
qed simp

lemma ordered_least: "heap_ordered c xs \<Longrightarrow> j < length xs \<Longrightarrow> \<not> c (xs ! j) (xs ! 0)"
proof (induction j rule: less_induct)
  case (less j)
  show ?case
  proof (cases "j = 0")
    case False
    then have "\<not> c (xs ! j) (xs ! parent j)" using less.prems by (auto simp: heap_from_def edge_ok_def)
    moreover have "\<not> c (xs ! parent j) (xs ! 0)" using less False by auto
    ultimately show ?thesis using negtrans by blast
  qed (simp add: irrefl)
qed

end

section \<open>The array and the links\<close>

text \<open>
  The heap holds the names \<open>xs\<close>: the array starts with them, the links point back, and every other node is
  stray.  Positions of children stay below \<open>2 ^ 32\<close> when there are fewer than \<open>2 ^ 31\<close> values.
\<close>

definition heap_repr :: "heap \<Rightarrow> nat list \<Rightarrow> bool" where
  "heap_repr h xs \<longleftrightarrow> length (hp_harr h) = unat (hp_capacity h) \<and> hp_size h = of_nat (length xs) \<and> length xs < 2 ^ 31 \<and>
     length xs \<le> length (hp_harr h) \<and> (\<forall>i<length xs. hp_harr h ! i = xs ! i) \<and> distinct xs \<and>
     (\<forall>i<length xs. hp_pos h (xs ! i) = of_nat i) \<and> (\<forall>n. n \<notin> set xs \<longrightarrow> heap_node_is_stray n h)"

lemma heap_reprI:
  assumes "length (hp_harr h) = unat (hp_capacity h)" "hp_size h = of_nat (length xs)" "length xs < 2 ^ 31" "length xs \<le> length (hp_harr h)"
    "\<And>i. i < length xs \<Longrightarrow> hp_harr h ! i = xs ! i" "distinct xs" "\<And>i. i < length xs \<Longrightarrow> hp_pos h (xs ! i) = of_nat i"
    "\<And>n. n \<notin> set xs \<Longrightarrow> hp_pos h n = HEAP_NODE_STRAY_POS"
  shows "heap_repr h xs"
  using assms by (simp add: heap_repr_def heap_node_is_stray_def)

definition heap_swap :: "nat \<Rightarrow> nat \<Rightarrow> heap \<Rightarrow> heap" where
  "heap_swap i j h = h\<lparr>hp_harr := swapped i j (hp_harr h),
     hp_pos := (hp_pos h)(hp_harr h ! j := of_nat i, hp_harr h ! i := of_nat j)\<rparr>"

lemma parent_word:
  assumes "0 < i" and "i < 2 ^ 32"
  shows "(of_nat i - 1 :: u32) div 2 = of_nat (parent i)"
proof -
  have "(of_nat i - 1 :: u32) = of_nat (i - 1)" using assms(1) by (simp add: of_nat_diff)
  moreover have "unat ((of_nat (i - 1) :: u32) div 2) = parent i"
    using assms(2) by (simp add: unat_div unat_of_nat_u32)
  ultimately show ?thesis by (metis unat_of_nat_u32_inv)
qed

lemma harr_get_repr:
  assumes "heap_repr h xs" and "i < length xs"
  shows "harr_get h (of_nat i) = Some (xs ! i)" "unat (of_nat i :: u32) = i" "i < length (hp_harr h)"
proof -
  show "unat (of_nat i :: u32) = i" "i < length (hp_harr h)" using assms unat_of_nat_u32[of i] by (auto simp: heap_repr_def)
  then show "harr_get h (of_nat i) = Some (xs ! i)" using assms by (simp add: harr_get_def heap_repr_def)
qed

lemma heap_swap_repr:
  assumes "heap_repr h xs" and "i < length xs" and "j < length xs"
  shows "heap_repr (heap_swap i j h) (swapped i j xs)"
proof -
  have len: "i < length (hp_harr h)" "j < length (hp_harr h)" using harr_get_repr(3)[OF assms(1)] assms(2,3) by auto
  have m: "mset (swapped i j xs) = mset xs" by (rule mset_swapped[OF assms(2,3)])
  have same: "set (swapped i j xs) = set xs" "distinct (swapped i j xs)"
    using mset_eq_setD[OF m] mset_eq_imp_distinct_iff[OF m] assms(1) by (auto simp: heap_repr_def)
  have nth: "hp_harr h ! k = xs ! k" if "k < length xs" for k using assms(1) that by (simp add: heap_repr_def)
  have "swapped i j (hp_harr h) ! k = swapped i j xs ! k" if k: "k < length xs" for k
    using k assms len harr_get_repr(3)[OF assms(1) k] by (simp add: swapped_nth nth)
  moreover have "hp_pos (heap_swap i j h) (swapped i j xs ! k) = of_nat k" if "k < length xs" for k
    using assms that by (auto simp: swapped_nth heap_swap_def nth heap_repr_def nth_eq_iff_index_eq)
  moreover have "heap_node_is_stray n (heap_swap i j h)" if "n \<notin> set xs" for n
  proof -
    have "n \<noteq> xs ! i" "n \<noteq> xs ! j" using that assms(2,3) by auto
    then show ?thesis
      using that assms nth by (simp add: heap_node_is_stray_def heap_swap_def heap_repr_def)
  qed
  ultimately show ?thesis
    using assms(1) same unfolding heap_repr_def by (simp add: heap_swap_def)
qed

lemma sift_up_loop_eq:
  "heap_repr h xs \<Longrightarrow> i < length xs \<Longrightarrow>
   \<exists>h'. sift_up_loop lt (of_nat i) (xs ! i) h = Some h' \<and> heap_repr h' (siftup lt xs i) \<and> hp_capacity h' = hp_capacity h"
proof (induction i arbitrary: h xs rule: less_induct)
  case (less i)
  note get = harr_get_repr[OF less.prems(1)]
  have bound: "i < 2 ^ 31" using less.prems by (simp add: heap_repr_def)
  show ?case
  proof (cases "0 < i")
    case True
    let ?p = "parent i"
    have p: "?p < i" "?p < length xs" using True less.prems(2) by auto
    have par: "(of_nat i - 1 :: u32) div 2 = of_nat ?p" using parent_word[OF True] bound by simp
    have pos: "(0::u32) < of_nat i" using of_nat_less_u32[of 0 i] bound True by simp
    show ?thesis
    proof (cases "lt (xs ! i) (xs ! ?p)")
      case lt: True
      have "sift_up_loop lt (of_nat i) (xs ! i) h = sift_up_loop lt (of_nat ?p) (xs ! i) (heap_swap i ?p h)"
        using lt pos get[OF less.prems(2)] get[OF p(2)] p(1) less.prems(1,2)
        by (subst sift_up_loop.simps)
          (simp add: par Let_def harr_set_def heap_update_link_def harr_get_def heap_swap_def swapped_def heap_repr_def)
      moreover have "xs ! i = swapped i ?p xs ! ?p" using p less.prems(2) by (simp add: swapped_nth)
      moreover obtain h' where "sift_up_loop lt (of_nat ?p) (swapped i ?p xs ! ?p) (heap_swap i ?p h) = Some h'"
        "heap_repr h' (siftup lt (swapped i ?p xs) ?p)" "hp_capacity h' = hp_capacity (heap_swap i ?p h)"
        using less.IH[OF p(1) heap_swap_repr[OF less.prems p(2)]] p(2) by auto
      ultimately show ?thesis using lt True by (subst siftup.simps) (simp add: heap_swap_def)
    next
      case False
      then show ?thesis using True pos get[OF p(2)] less.prems
        by (subst sift_up_loop.simps, subst siftup.simps) (simp add: par Let_def)
    qed
  next
    case False
    then show ?thesis using less.prems by (subst sift_up_loop.simps, subst siftup.simps) simp
  qed
qed


lemma min_child_eq:
  assumes "heap_repr h xs" and "i < length xs"
  shows "min_child lt (of_nat i) h = Some (of_nat (child lt xs i))"
proof -
  have bound: "2 * i + 2 < 2 ^ 32" "length xs < 2 ^ 32" and size: "hp_size h = of_nat (length xs)"
    using assms by (auto simp: heap_repr_def)
  have w: "2 * of_nat i + 1 = (of_nat (2 * i + 1) :: u32)" "2 * of_nat i + 2 = (of_nat (2 * i + 2) :: u32)" by simp_all
  show ?thesis
  proof (cases "2 * i + 2 < length xs")
    case True
    then have "harr_get h (of_nat (2 * i + 1)) = Some (xs ! (2 * i + 1))" "harr_get h (of_nat (2 * i + 2)) = Some (xs ! (2 * i + 2))"
      using harr_get_repr(1)[OF assms(1), of "2 * i + 1"] harr_get_repr(1)[OF assms(1), of "2 * i + 2"] by simp_all
    moreover have "(of_nat (2 * i + 2) :: u32) < hp_size h" using True of_nat_less_u32[OF bound] size by simp
    ultimately show ?thesis using True unfolding min_child_def Let_def w child_def by simp
  next
    case False
    then have "\<not> (of_nat (2 * i + 2) :: u32) < hp_size h" using of_nat_less_u32[OF bound] size by simp
    then show ?thesis using False unfolding min_child_def Let_def w child_def by simp
  qed
qed

lemma sift_down_loop_eq:
  "heap_repr h xs \<Longrightarrow> i < length xs \<Longrightarrow>
   \<exists>h'. sift_down_loop lt (of_nat i) h = Some h' \<and> heap_repr h' (siftdown lt xs i) \<and> hp_capacity h' = hp_capacity h"
proof (induction "length xs - i" arbitrary: h xs i rule: less_induct)
  case less
  note get = harr_get_repr[OF less.prems(1)]
  have bound: "2 * i + 1 < 2 ^ 32" "length xs < 2 ^ 32" and size: "hp_size h = of_nat (length xs)"
    using less.prems by (auto simp: heap_repr_def)
  let ?m = "child lt xs i"
  have w: "2 * of_nat i + 1 = (of_nat (2 * i + 1) :: u32)" by simp
  have le: "hp_size h \<le> 2 * of_nat i + 1 \<longleftrightarrow> length xs \<le> 2 * i + 1" unfolding w size using of_nat_le_u32[OF bound(2,1)] .
  note min = min_child_eq[OF less.prems, of lt]
  show ?case
  proof (cases "length xs \<le> 2 * i + 1 \<or> lt (xs ! i) (xs ! ?m)")
    case True
    have "2 * i + 1 < length xs \<Longrightarrow> harr_get h (of_nat ?m) = Some (xs ! ?m)" using get(1) child_cases(1)[of i xs lt] by simp
    then show ?thesis
      using True less.prems(1) get(1)[OF less.prems(2)] le min
      by (subst sift_down_loop.simps, subst siftdown.simps) (cases "length xs \<le> 2 * i + 1"; simp)
  next
    case False
    then have l: "2 * i + 1 < length xs" by simp
    note m = child_cases[OF l, of lt]
    have ne: "i \<noteq> ?m" using m(2) by simp
    have "sift_down_loop lt (of_nat i) h = sift_down_loop lt (of_nat ?m) (heap_swap i ?m h)"
      using False get[OF less.prems(2)] get[OF m(1)] le min ne less.prems(1)
      by (subst sift_down_loop.simps)
        (simp add: harr_set_def heap_update_link_def harr_get_def heap_swap_def swapped_def heap_repr_def)
    moreover have "length (swapped i ?m xs) - ?m < length xs - i" using m(1,2) by (simp only: length_swapped)
    moreover from this obtain h' where "sift_down_loop lt (of_nat ?m) (heap_swap i ?m h) = Some h'"
      "heap_repr h' (siftdown lt (swapped i ?m xs) ?m)" "hp_capacity h' = hp_capacity (heap_swap i ?m h)"
      using less.hyps[OF _ heap_swap_repr[OF less.prems m(1)]] m(1) by auto
    ultimately show ?thesis using False by (subst siftdown.simps) (simp add: heap_swap_def)
  qed
qed

lemma siftdown_length: "i < length xs \<Longrightarrow> length (siftdown lt xs i) = length xs" "i < length xs \<Longrightarrow> set (siftdown lt xs i) = set xs"
  using siftdown_mset[of i xs lt] by (auto dest: mset_eq_length mset_eq_setD)

lemma siftup_length: "i < length xs \<Longrightarrow> length (siftup lt xs i) = length xs" "i < length xs \<Longrightarrow> set (siftup lt xs i) = set xs"
  using siftup_mset[of i xs lt] by (auto dest: mset_eq_length mset_eq_setD)

lemma repr_pos:
  assumes "heap_repr h xs" and "n \<in> set xs"
  obtains i where "i < length xs" "xs ! i = n" "hp_pos h n = of_nat i"
  using assms by (auto simp: heap_repr_def in_set_conv_nth)

lemma repr_stray:
  assumes "heap_repr h xs"
  shows "heap_node_is_stray n h \<longleftrightarrow> n \<notin> set xs"
proof
  assume n: "heap_node_is_stray n h"
  show "n \<notin> set xs"
  proof
    assume "n \<in> set xs"
    then obtain i where "i < length xs" "hp_pos h n = of_nat i" by (rule repr_pos[OF assms])
    then have "unat (of_nat i :: u32) = unat (- 1 :: u32)" "i < 2 ^ 31"
      using n assms by (auto simp: heap_node_is_stray_def HEAP_NODE_STRAY_POS_def heap_repr_def)
    then show False using unat_of_nat_u32[of i] by (simp add: unsigned_minus_1_eq_mask mask_eq_exp_minus_1)
  qed
qed (use assms in \<open>simp add: heap_repr_def\<close>)

lemma repr_top:
  assumes "heap_repr h xs"
  shows "heap_top h = Some (if xs = [] then None else Some (xs ! 0))"
proof (cases "xs = []")
  case False
  then have "hp_size h \<noteq> 0" using assms unat_of_nat_u32[of "length xs"] by (auto simp: heap_repr_def)
  then show ?thesis using False harr_get_repr(1)[OF assms, of 0] by (simp add: heap_top_def)
qed (use assms in \<open>simp add: heap_top_def heap_repr_def\<close>)

lemma heap_update_node_eq:
  assumes "heap_repr h xs" and "i < length xs"
  obtains h' k where "heap_update_node lt (xs ! i) h = Some h'" "k < length xs" "siftdown lt xs i ! k = xs ! i"
    "heap_repr h' (siftup lt (siftdown lt xs i) k)" "hp_capacity h' = hp_capacity h"
proof -
  let ?ys = "siftdown lt xs i"
  have pos: "hp_pos h (xs ! i) = of_nat i" using assms by (simp add: heap_repr_def)
  obtain h1 where h1: "sift_down_loop lt (of_nat i) h = Some h1" "heap_repr h1 ?ys" "hp_capacity h1 = hp_capacity h"
    using sift_down_loop_eq[OF assms] by blast
  have "xs ! i \<in> set ?ys" using siftdown_length(2)[OF assms(2)] assms(2) by simp
  then obtain k where k: "k < length ?ys" "?ys ! k = xs ! i" "hp_pos h1 (xs ! i) = of_nat k" by (rule repr_pos[OF h1(2)])
  obtain h2 where "sift_up_loop lt (of_nat k) (?ys ! k) h1 = Some h2" "heap_repr h2 (siftup lt ?ys k)" "hp_capacity h2 = hp_capacity h1"
    using sift_up_loop_eq[OF h1(2) k(1)] by blast
  then show ?thesis
    using that[of h2 k] h1 k pos siftdown_length(1)[OF assms(2)]
    by (simp add: heap_update_node_def heap_sift_down_def heap_sift_up_def)
qed


section \<open>Operations\<close>

lemma reserve_repr:
  assumes "heap_repr h xs" and "heap_reserve memory junk h = (True, h')"
  shows "heap_repr h' xs" "length xs < length (hp_harr h')"
proof -
  have r: "length (hp_harr h) = unat (hp_capacity h)" "unat (hp_size h) = length xs" "length xs < 2 ^ 31"
    using assms(1) unat_of_nat_u32[of "length xs"] by (auto simp: heap_repr_def)
  have "heap_repr h' xs \<and> length xs < length (hp_harr h')"
  proof (cases "hp_size h < hp_capacity h")
    case True
    then show ?thesis using assms r by (simp add: heap_reserve_def word_less_nat_alt)
  next
    case False
    let ?k = "length xs"
    have cap: "unat (hp_capacity h) = ?k" using False r assms(1) by (simp add: word_less_nat_alt heap_repr_def)
    define c where "c = (if hp_capacity h = 0 then HEAP_INITIAL_CAPACITY else push_bit 1 (hp_capacity h))"
    have "unat (push_bit 1 (hp_capacity h)) = 2 * ?k"
      using cap r(3) by (simp add: push_bit_eq_mult unat_mult_lem[THEN iffD1] mult.commute)
    then have c: "?k < unat c" using cap by (auto simp: c_def HEAP_INITIAL_CAPACITY_def unat_eq_0)
    have h': "h' = h\<lparr>hp_harr := take (unat c) (hp_harr h @ replicate (unat c - length (hp_harr h)) junk), hp_capacity := c\<rparr>"
      using assms(2) False by (simp add: heap_reserve_def Let_def c_def split: if_splits)
    show ?thesis
      using assms(1) c r(1) cap by (auto simp: h' heap_repr_def nth_append heap_node_is_stray_def)
  qed
  then show "heap_repr h' xs" "length xs < length (hp_harr h')" by simp_all
qed

lemma insert_repr:
  assumes "heap_repr h xs" and "length xs < length (hp_harr h)" and "n \<notin> set xs" and "Suc (length xs) < 2 ^ 31"
  shows "heap_repr (h\<lparr>hp_harr := (hp_harr h)[length xs := n], hp_size := hp_size h + 1, hp_pos := (hp_pos h)(n := hp_size h)\<rparr>) (xs @ [n])"
    (is "heap_repr ?h _")
proof -
  have nth: "hp_harr ?h ! i = (xs @ [n]) ! i" "hp_pos ?h ((xs @ [n]) ! i) = of_nat i" if i: "i < length (xs @ [n])" for i
  proof -
    have "i < length xs \<Longrightarrow> xs ! i \<noteq> n" using assms(3) by (metis nth_mem)
    then consider "i < length xs" "xs ! i \<noteq> n" | "i = length xs" using i by fastforce
    then show "hp_harr ?h ! i = (xs @ [n]) ! i" "hp_pos ?h ((xs @ [n]) ! i) = of_nat i"
      by (cases; use assms(1,2) in \<open>simp add: heap_repr_def nth_append\<close>)+
  qed
  show ?thesis by (rule heap_reprI[OF _ _ _ _ nth(1) _ nth(2)]) (use assms in \<open>simp_all add: heap_repr_def heap_node_is_stray_def\<close>)
qed

text \<open>The last value takes the place of the one at \<open>i\<close>.\<close>

definition without :: "nat \<Rightarrow> 'a list \<Rightarrow> 'a list" where
  "without i xs = (butlast xs)[i := last xs]"

lemma without_nth:
  assumes "i < length xs"
  shows "length (without i xs) = length xs - 1"
    and "j < length xs - 1 \<Longrightarrow> without i xs ! j = (if j = i then xs ! (length xs - 1) else xs ! j)"
proof -
  have "xs \<noteq> []" using assms by auto
  then show "length (without i xs) = length xs - 1"
    "j < length xs - 1 \<Longrightarrow> without i xs ! j = (if j = i then xs ! (length xs - 1) else xs ! j)"
    by (auto simp: without_def nth_list_update nth_butlast last_conv_nth)
qed

lemma without_set:
  assumes "distinct xs" and "i < length xs"
  shows "set (without i xs) = set xs - {xs ! i}" "distinct (without i xs)"
proof -
  let ?k = "length xs - 1"
  note w = without_nth[OF assms(2)]
  have idx: "xs ! a = xs ! b \<longleftrightarrow> a = b" if "a < length xs" "b < length xs" for a b
    using assms(1) that by (rule nth_eq_iff_index_eq)
  have in_w: "without i xs ! j \<in> set xs - {xs ! i}" if "j < ?k" for j using that w(2)[OF that] idx[of _ i] assms(2) by auto
  have "xs ! j \<in> set (without i xs)" if "j < length xs" "j \<noteq> i" for j
  proof (cases "j = ?k")
    case True
    then have "i < ?k" using that assms(2) by auto
    then show ?thesis using w(1) w(2)[of i] True by (metis nth_mem)
  next
    case False
    then have "j < ?k" using that by auto
    then show ?thesis using w(1) w(2)[of j] that(2) by (metis nth_mem)
  qed
  then have "set xs - {xs ! i} \<subseteq> set (without i xs)" by (metis DiffE in_set_conv_nth insertI1 subsetI)
  moreover have "set (without i xs) \<subseteq> set xs - {xs ! i}" using in_w w(1) by (metis in_set_conv_nth subsetI)
  ultimately show "set (without i xs) = set xs - {xs ! i}" by blast
  show "distinct (without i xs)"
    unfolding distinct_conv_nth w(1)
  proof (intro allI impI)
    fix a b assume "a < ?k" "b < ?k" "a \<noteq> b"
    then show "without i xs ! a \<noteq> without i xs ! b" using w(2)[of a] w(2)[of b] idx[of a b] idx[of a ?k] idx[of ?k b] by auto
  qed
qed

text \<open>The heap without its last value, and with the last value in the place of another one.\<close>

lemma delete_last_repr:
  assumes "heap_repr h xs" and i: "i < length xs" and last: "i = length xs - 1"
  shows "heap_repr (heap_node_create (xs ! i) (h\<lparr>hp_size := hp_size h - 1\<rparr>)) (without i xs)"
proof (rule heap_reprI)
  let ?h = "heap_node_create (xs ! i) (h\<lparr>hp_size := hp_size h - 1\<rparr>)" and ?ys = "without i xs"
  note r = assms(1)[unfolded heap_repr_def] and w = without_nth[OF i] and ws = without_set[OF _ i]
  have k: "hp_size h - 1 = of_nat (length xs - 1)" using r i by auto
  show "hp_pos ?h m = HEAP_NODE_STRAY_POS" if "m \<notin> set ?ys" for m
    using that ws(1) r by (auto simp: heap_node_create_def heap_node_is_stray_def)
  show "hp_harr ?h ! j = ?ys ! j" "hp_pos ?h (?ys ! j) = of_nat j" if "j < length ?ys" for j
  proof -
    have "j < length xs - 1" "?ys ! j = xs ! j" using that w last by auto
    moreover from this have "xs ! j \<noteq> xs ! i" using i last r nth_eq_iff_index_eq[of xs j i] by auto
    ultimately show "hp_harr ?h ! j = ?ys ! j" "hp_pos ?h (?ys ! j) = of_nat j" using r by (auto simp: heap_node_create_def)
  qed
  show "length (hp_harr ?h) = unat (hp_capacity ?h)" "hp_size ?h = of_nat (length ?ys)" "length ?ys < 2 ^ 31"
      "length ?ys \<le> length (hp_harr ?h)" "distinct ?ys"
    using r k w(1) ws(2) by (auto simp: heap_node_create_def)
qed

lemma delete_moved_repr:
  assumes "heap_repr h xs" and ik: "i < length xs - 1"
  defines "h1 \<equiv> heap_node_create (xs ! i) (h\<lparr>hp_size := hp_size h - 1\<rparr>)"
  shows "heap_repr (h1\<lparr>hp_harr := (hp_harr h)[i := xs ! (length xs - 1)], hp_pos := (hp_pos h1)(xs ! (length xs - 1) := of_nat i)\<rparr>) (without i xs)"
proof (rule heap_reprI)
  let ?k = "length xs - 1" and ?ys = "without i xs"
  let ?h' = "h1\<lparr>hp_harr := (hp_harr h)[i := xs ! ?k], hp_pos := (hp_pos h1)(xs ! ?k := of_nat i)\<rparr>"
  have i: "i < length xs" "?k < length xs" using ik by auto
  note r = assms(1)[unfolded heap_repr_def] and w = without_nth[OF i(1)] and ws = without_set[OF _ i(1)]
  have k: "hp_size h - 1 = of_nat ?k" using r i by auto
  have last_n: "xs ! ?k \<noteq> xs ! i" using ik i r nth_eq_iff_index_eq[of xs ?k i] by auto
  show "hp_pos ?h' m = HEAP_NODE_STRAY_POS" if "m \<notin> set ?ys" for m
  proof -
    have "xs ! ?k \<in> set ?ys" using ws(1) r i(2) last_n by auto
    then show ?thesis using that ws(1) r by (auto simp: h1_def heap_node_create_def heap_node_is_stray_def)
  qed
  show "hp_harr ?h' ! j = ?ys ! j" "hp_pos ?h' (?ys ! j) = of_nat j" if "j < length ?ys" for j
  proof -
    have j: "j < ?k" "j < length xs" using that w(1) by auto
    then have "xs ! j = xs ! i \<longleftrightarrow> j = i" "xs ! j = xs ! ?k \<longleftrightarrow> j = ?k"
      using ik i r nth_eq_iff_index_eq[of xs j i] nth_eq_iff_index_eq[of xs j ?k] by auto
    then show "hp_harr ?h' ! j = ?ys ! j" "hp_pos ?h' (?ys ! j) = of_nat j"
      using w(2)[OF j(1)] r j by (auto simp: h1_def heap_node_create_def nth_list_update)
  qed
  show "length (hp_harr ?h') = unat (hp_capacity ?h')" "hp_size ?h' = of_nat (length ?ys)" "length ?ys < 2 ^ 31"
      "length ?ys \<le> length (hp_harr ?h')" "distinct ?ys"
    using r k w(1) ws(2) by (auto simp: h1_def heap_node_create_def)
qed

lemma ordered_take: "heap_ordered lt xs \<Longrightarrow> heap_ordered lt (take k xs)"
  by (auto simp: heap_from_def edge_ok_def)

context node_order
begin

lemma around_update: "heap_ordered c xs \<Longrightarrow> i < length xs \<Longrightarrow> around c 0 (xs[i := v]) i"
  using around_ordered[of 0 xs i] unfolding around_def edge_ok_def by (metis length_list_update nth_list_update_neq parent_less less_irrefl)

lemma insert_ok:
  assumes "heap_repr h xs" and "heap_ordered c xs" and "n \<notin> set xs" and "Suc (length xs) < 2 ^ 31"
  shows "heap_insert lt memory junk n h = Some (False, h) \<and> \<not> memory \<or>
    (\<exists>h' ys. heap_insert lt memory junk n h = Some (True, h') \<and> heap_repr h' ys \<and> heap_ordered c ys \<and> set ys = insert n (set xs))"
proof -
  obtain r h1 where res: "heap_reserve memory junk h = (r, h1)" by fastforce
  show ?thesis
  proof (cases r)
    case True
    then have "heap_reserve memory junk h = (True, h1)" using res by simp
    note h1 = reserve_repr[OF assms(1) this]
    let ?h = "h1\<lparr>hp_harr := (hp_harr h1)[length xs := n], hp_size := hp_size h1 + 1, hp_pos := (hp_pos h1)(n := hp_size h1)\<rparr>"
    let ?xs = "xs @ [n]" and ?k = "length xs"
    have repr: "heap_repr ?h ?xs" by (rule insert_repr[OF h1 assms(3,4)])
    have s: "hp_size h1 = of_nat ?k" "unat (hp_size h1) = ?k" using h1(1) unat_of_nat_u32[of ?k] by (simp_all add: heap_repr_def)
    obtain h2 where h2: "sift_up_loop lt (of_nat ?k) n ?h = Some h2" "heap_repr h2 (siftup lt ?xs ?k)"
      using sift_up_loop_eq[OF repr, of ?k lt] by auto
    have "heap_insert lt memory junk n h = Some (True, h2)"
      using res True h1(2) s h2(1)
      by (simp add: heap_insert_def harr_set_def heap_update_link_def harr_get_def heap_sift_up_def)
    moreover have "around c 0 ?xs ?k \<and> below c ?xs ?k"
    proof -
      have up: "parent j < ?k" if "0 < j" "j < Suc ?k" for j using that by auto
      have "edge_ok c ?xs j" if "0 < j" "j < ?k" for j
        using assms(2) that up[of j] by (simp add: heap_from_def edge_ok_def nth_append)
      moreover have "parent j \<noteq> ?k" if "0 < j" "j < Suc ?k" for j using up[OF that] by simp
      ultimately show ?thesis unfolding around_def below_def by (auto simp: less_Suc_eq)
    qed
    then have "heap_ordered c (siftup lt ?xs ?k)" by (intro siftup_ordered) simp_all
    moreover have "set (siftup lt ?xs ?k) = insert n (set xs)" using siftup_length(2)[of ?k ?xs lt] by simp
    ultimately show ?thesis using h2(2) by blast
  next
    case False
    then show ?thesis using res by (simp add: heap_insert_def heap_reserve_def Let_def split: if_splits)
  qed
qed

lemma update_node_ok:
  assumes "heap_repr h xs" and "around c 0 xs i" and "i < length xs"
  shows "\<exists>h' ys. heap_update_node lt (xs ! i) h = Some h' \<and> heap_repr h' ys \<and> heap_ordered c ys \<and> set ys = set xs"
proof -
  obtain h' k where h': "heap_update_node lt (xs ! i) h = Some h'" "k < length xs" "siftdown lt xs i ! k = xs ! i"
    "heap_repr h' (siftup lt (siftdown lt xs i) k)"
    by (rule heap_update_node_eq[OF assms(1,3)])
  have "distinct xs" using assms(1) by (simp add: heap_repr_def)
  note ordered = update_ordered[OF assms(2,3) this h'(2,3)]
  have "set (siftup lt (siftdown lt xs i) k) = set xs" using siftup_length(2) siftdown_length assms(3) h'(2) by simp
  then show ?thesis using h'(1,4) ordered by blast
qed

lemma delete_ok:
  assumes "heap_repr h xs" and "heap_ordered c xs" and "n \<in> set xs"
  shows "\<exists>h' ys. heap_delete lt n h = Some h' \<and> heap_repr h' ys \<and> heap_ordered c ys \<and> set ys = set xs - {n}"
proof -
  obtain i where i: "i < length xs" "xs ! i = n" "hp_pos h n = of_nat i" by (rule repr_pos[OF assms(1,3)])
  let ?k = "length xs - 1" and ?ys = "without i xs"
  let ?h = "heap_node_create n (h\<lparr>hp_size := hp_size h - 1\<rparr>)"
  note r = assms(1)[unfolded heap_repr_def]
  have k: "hp_size h = of_nat (Suc ?k)" "hp_size h - 1 = of_nat ?k" "hp_size h \<noteq> 0"
    using r i(1) unat_of_nat_u32[of "length xs"] by auto
  have stray: "\<not> heap_node_is_stray n h" using repr_stray[OF assms(1)] assms(3) by simp
  note w = without_nth[OF i(1)] and ws = without_set[OF _ i(1), unfolded i(2)]
  have eq: "of_nat i = hp_size ?h \<longleftrightarrow> i = ?k"
    using k unat_of_nat_u32[of i] unat_of_nat_u32[of ?k] r i(1) by (auto simp: heap_node_create_def dest: arg_cong[of _ _ unat])
  have ord: "heap_ordered c (butlast xs)" using ordered_take[OF assms(2)] by (simp add: butlast_conv_take)
  show ?thesis
  proof (cases "i = ?k")
    case True
    note repr = delete_last_repr[OF assms(1) i(1) True, unfolded i(2)]
    moreover have "?ys = butlast xs" using True by (simp add: without_def list_update_beyond)
    ultimately show ?thesis using True k stray eq i(3) ord ws(1) r by (auto simp: heap_delete_def Let_def heap_node_create_def)
  next
    case False
    let ?h' = "?h\<lparr>hp_harr := (hp_harr h)[i := xs ! ?k], hp_pos := (hp_pos ?h)(xs ! ?k := of_nat i)\<rparr>"
    have ik: "i < ?k" "?k < length xs" using False i(1) by auto
    note repr = delete_moved_repr[OF assms(1) ik(1), unfolded i(2)]
    have y: "?ys ! i = xs ! ?k" "i < length ?ys" using w ik(1) by auto
    have "heap_delete lt n h = heap_update_node lt (?ys ! i) ?h'"
      using stray k eq False i(3) r ik y unat_of_nat_u32[of i] unat_of_nat_u32[of ?k]
      by (simp add: heap_delete_def Let_def heap_node_create_def harr_get_def harr_set_def heap_update_link_def)
    moreover have "around c 0 ?ys i" unfolding without_def using ik(1) by (intro around_update ord) simp
    ultimately show ?thesis using update_node_ok[OF repr _ y(2)] ws(1) r by auto
  qed
qed

text \<open>One turn of \<^const>\<open>update_all_loop\<close>.\<close>

lemma update_all_turn:
  assumes "heap_repr h xs" and "k < length xs" and "heap_from c (Suc k) xs"
  obtains h' where "harr_get h (of_nat k) = Some (xs ! k)" "heap_sift_down lt (xs ! k) h = Some h'" "heap_repr h' (siftdown lt xs k)"
    "heap_from c k (siftdown lt xs k)"
proof -
  have "hp_pos h (xs ! k) = of_nat k" using assms(1,2) by (simp add: heap_repr_def)
  then obtain h' where "heap_sift_down lt (xs ! k) h = Some h'" "heap_repr h' (siftdown lt xs k)"
    using sift_down_loop_eq[OF assms(1,2), of lt] by (auto simp: heap_sift_down_def)
  moreover have "around c k xs k"
    using assms(3) parent_less[of k] unfolding around_def heap_from_def by (auto simp: Suc_le_eq)
  then have "heap_from c k (siftdown lt xs k)" by (rule siftdown_from) (use parent_less[of k] in auto)
  ultimately show ?thesis using that harr_get_repr(1)[OF assms(1,2)] by blast
qed

lemma update_all_loop_ok:
  "heap_repr h xs \<Longrightarrow> k < length xs \<Longrightarrow> heap_from c (Suc k) xs \<Longrightarrow>
   \<exists>h' ys. update_all_loop lt k h = Some h' \<and> heap_repr h' ys \<and> heap_ordered c ys \<and> set ys = set xs"
proof (induction k arbitrary: h xs)
  case (0 h xs)
  show ?case by (rule update_all_turn[OF 0]) (use siftdown_length(2)[OF 0(2)] in auto)
next
  case (Suc k h xs)
  obtain h' where h': "harr_get h (of_nat (Suc k)) = Some (xs ! Suc k)" "heap_sift_down lt (xs ! Suc k) h = Some h'"
    "heap_repr h' (siftdown lt xs (Suc k))" "heap_from c (Suc k) (siftdown lt xs (Suc k))"
    by (rule update_all_turn[OF Suc.prems])
  then have "update_all_loop lt (Suc k) h = update_all_loop lt k h'" by (subst update_all_loop.simps) (simp del: update_all_loop.simps)
  moreover have "k < length (siftdown lt xs (Suc k))" using siftdown_length(1) Suc.prems(2) by simp
  ultimately show ?case using Suc.IH[OF h'(3) _ h'(4)] siftdown_length(2)[OF Suc.prems(2)] by simp
qed

lemma update_all_ok:
  assumes "heap_repr h xs"
  shows "\<exists>h' ys. heap_update_all lt h = Some h' \<and> heap_repr h' ys \<and> heap_ordered c ys \<and> set ys = set xs"
proof -
  have size: "hp_size h = of_nat (length xs)" "length xs < 2 ^ 32" using assms by (simp_all add: heap_repr_def)
  show ?thesis
  proof (cases "length xs \<le> 1")
    case True
    then have "heap_ordered c xs" by (auto simp: heap_from_def)
    moreover have "hp_size h \<le> 1" using of_nat_le_u32[of "length xs" 1] size True by simp
    ultimately show ?thesis using assms by (auto simp: heap_update_all_def)
  next
    case False
    let ?k = "(length xs - 2) div 2"
    have "\<not> hp_size h \<le> 1" using of_nat_le_u32[of "length xs" 1] size False by simp
    moreover have "hp_size h - 2 = of_nat (length xs - 2)" using size(1) False by (simp add: of_nat_diff)
    then have "unat ((hp_size h - 2) div 2) = ?k" using size(2) unat_of_nat_u32[of "length xs - 2"] by (simp add: unat_div)
    ultimately have "heap_update_all lt h = update_all_loop lt ?k h" by (simp add: heap_update_all_def)
    moreover have "heap_from c (Suc ?k) xs" by (auto simp: heap_from_def)
    moreover have "?k < length xs" using False by auto
    ultimately show ?thesis using update_all_loop_ok[OF assms, of ?k] by simp
  qed
qed

end

text \<open>When the order is the relation the operations use, the check decides whether the heap is in order.\<close>

locale exact_order = node_order lt lt for lt :: heap_less
begin

lemma check_loop_eq:
  "heap_repr h xs \<Longrightarrow> i \<le> length xs \<Longrightarrow> check_loop lt (of_nat i) h = Some (heap_from lt i xs)"
proof (induction "length xs - i" arbitrary: i rule: less_induct)
  case less
  have b: "2 * i + 1 < 2 ^ 32" "length xs < 2 ^ 32" and size: "hp_size h = of_nat (length xs)" using less.prems by (auto simp: heap_repr_def)
  have w: "2 * of_nat i + 1 = (of_nat (2 * i + 1) :: u32)" "of_nat i + 1 = (of_nat (Suc i) :: u32)" by simp_all
  have c: "2 * of_nat i + 1 < hp_size h \<longleftrightarrow> 2 * i + 1 < length xs" unfolding w size using of_nat_less_u32[OF b] .
  show ?case
  proof (cases "2 * i + 1 < length xs")
    case True
    then have i: "i < length xs" by simp
    note m = child_cases[OF True, of lt]
    have "check_loop lt (of_nat i) h = (if lt (xs ! child lt xs i) (xs ! i) then Some False else check_loop lt (of_nat (Suc i)) h)"
      using c True min_child_eq[OF less.prems(1) i, of lt] harr_get_repr(1)[OF less.prems(1) i] harr_get_repr(1)[OF less.prems(1) m(1)]
      by (subst check_loop.simps) (simp add: add.commute)
    moreover have "check_loop lt (of_nat (Suc i)) h = Some (heap_from lt (Suc i) xs)" using i less by (intro less.hyps) auto
    moreover have "heap_from lt i xs \<longleftrightarrow> \<not> lt (xs ! child lt xs i) (xs ! i) \<and> heap_from lt (Suc i) xs"
    proof
      assume f: "heap_from lt i xs"
      then have "edge_ok lt xs (child lt xs i)" using m by (simp add: heap_from_def)
      then show "\<not> lt (xs ! child lt xs i) (xs ! i) \<and> heap_from lt (Suc i) xs" using f m(3) by (simp add: heap_from_def edge_ok_def)
    next
      assume a: "\<not> lt (xs ! child lt xs i) (xs ! i) \<and> heap_from lt (Suc i) xs"
      then have "below lt xs i" by (intro not_below) simp
      then show "heap_from lt i xs" using a unfolding below_def heap_from_def by (metis Suc_leI order_le_imp_less_or_eq)
    qed
    ultimately show ?thesis by simp
  next
    case False
    then have "heap_from lt i xs" by (auto simp: heap_from_def)
    then show ?thesis using c False by (subst check_loop.simps) simp
  qed
qed

lemma check_ok: "heap_repr h xs \<Longrightarrow> heap_check lt h = Some (heap_ordered lt xs)"
  using check_loop_eq[of h xs 0] by (simp add: heap_check_def)

end


section \<open>A priority queue\<close>

definition by_value :: "('v \<Rightarrow> 'v \<Rightarrow> bool) \<Rightarrow> (nat \<Rightarrow> 'v) \<Rightarrow> heap_less" where
  "by_value lt val a b = lt (val a) (val b)"

lemma self_order: "heap_order c \<Longrightarrow> node_order c c"
  by (intro node_order.intro node_order_axioms.intro) (auto dest: heap_order.asym)

lemma by_value_heap_order: "heap_order lt \<Longrightarrow> heap_order (by_value lt val)"
  unfolding heap_order_def by_value_def by metis

lemma by_value_order: "heap_order lt \<Longrightarrow> node_order (by_value lt val) (by_value lt val)"
  by (intro self_order by_value_heap_order)

text \<open>The operations work whatever the relation they compare with; then nothing is known of the order.\<close>

lemma unordered: "node_order (\<lambda>_ _. False) lt"
  by unfold_locales simp_all

text \<open>When one value changes, the order is broken at most around it.\<close>

lemma around_changed:
  assumes "heap_order c" and "heap_ordered c xs" and "distinct xs" and i: "i < length xs"
    and same: "\<And>x y. x \<noteq> xs ! i \<Longrightarrow> y \<noteq> xs ! i \<Longrightarrow> c' x y = c x y"
  shows "around c' 0 xs i"
proof -
  have ne: "xs ! j \<noteq> xs ! i" if "j < length xs" "j \<noteq> i" for j
    using that i assms(3) by (simp add: nth_eq_iff_index_eq)
  have gap: "around c 0 xs i"
    using node_order.around_ordered[OF self_order] assms(1,2) i by blast
  show ?thesis
    unfolding around_def edge_ok_def
  proof (intro conjI allI impI)
    fix j assume j: "0 < j \<and> j < length xs \<and> 0 \<le> parent j \<and> parent j \<noteq> i \<and> j \<noteq> i"
    then have "parent j < length xs" by auto
    then show "\<not> c' (xs ! j) (xs ! parent j)"
      using gap j same[OF ne[of j] ne[of "parent j"]] unfolding around_def edge_ok_def by simp
  next
    fix j assume j: "0 < j \<and> j < length xs \<and> parent j = i \<and> 0 < i \<and> 0 \<le> parent i"
    then have "parent i < i" "j \<noteq> i" using parent_less[of i] by auto
    then show "\<not> c' (xs ! j) (xs ! parent i)"
      using gap j same[OF ne[of j] ne[of "parent i"]] i unfolding around_def by simp
  qed
qed

text \<open>
  A heap in use, with the set of the values in it.  A value may change when it is not in the heap; one in the heap may
  change if \<^verbatim>\<open>update\<close> is called next, and all may if \<^verbatim>\<open>update_all\<close> is.
\<close>

inductive heap_reach :: "('v \<Rightarrow> 'v \<Rightarrow> bool) \<Rightarrow> (nat \<Rightarrow> 'v) \<Rightarrow> heap \<Rightarrow> nat set \<Rightarrow> bool" for lt where
  heap_reach_create: "\<forall>n. heap_node_is_stray n h \<Longrightarrow> heap_reach lt val (heap_create h) {}"
| heap_reach_insert: "heap_reach lt val h S \<Longrightarrow> n \<notin> S \<Longrightarrow> Suc (card S) < 2 ^ 31 \<Longrightarrow>
    heap_insert (by_value lt val) memory junk n h = Some (r, h') \<Longrightarrow> heap_reach lt val h' (if r then insert n S else S)"
| heap_reach_pop: "heap_reach lt val h S \<Longrightarrow> heap_pop (by_value lt val) h = Some (r, h') \<Longrightarrow> heap_reach lt val h' (S - set_option r)"
| heap_reach_delete: "heap_reach lt val h S \<Longrightarrow> n \<in> S \<Longrightarrow> heap_delete (by_value lt val) n h = Some h' \<Longrightarrow> heap_reach lt val h' (S - {n})"
| heap_reach_update: "heap_reach lt val h S \<Longrightarrow> n \<in> S \<Longrightarrow> heap_update (by_value lt (val(n := v))) n h = Some h' \<Longrightarrow>
    heap_reach lt (val(n := v)) h' S"
| heap_reach_update_all: "heap_reach lt val h S \<Longrightarrow> heap_update_all (by_value lt val') h = Some h' \<Longrightarrow> heap_reach lt val' h' S"
| heap_reach_values: "heap_reach lt val h S \<Longrightarrow> \<forall>n\<in>S. val' n = val n \<Longrightarrow> heap_reach lt val' h S"

lemma repr_card: "heap_repr h xs \<Longrightarrow> card (set xs) = length xs"
  by (simp add: heap_repr_def distinct_card)

lemma update_ok:
  assumes "heap_order lt" and "heap_repr h xs" and "heap_ordered (by_value lt val) xs" and "n \<in> set xs"
  shows "\<exists>h' ys. heap_update (by_value lt (val(n := v))) n h = Some h' \<and> heap_repr h' ys \<and>
    heap_ordered (by_value lt (val(n := v))) ys \<and> set ys = set xs"
proof -
  obtain i where i: "i < length xs" "xs ! i = n" by (rule repr_pos[OF assms(2,4)])
  have "around (by_value lt (val(n := v))) 0 xs i"
    by (rule around_changed[OF by_value_heap_order[OF assms(1)] assms(3) _ i(1)])
      (use assms(2) i(2) in \<open>auto simp: heap_repr_def by_value_def\<close>)
  then show ?thesis using node_order.update_node_ok[OF by_value_order[OF assms(1)] assms(2) _ i(1)] i(2) by (simp add: heap_update_def)
qed

lemma pop_ok:
  assumes "heap_order lt" and "heap_repr h xs" and "heap_ordered (by_value lt val) xs"
  shows "xs = [] \<and> heap_pop (by_value lt val) h = Some (None, h) \<or>
    (\<exists>h' ys. xs \<noteq> [] \<and> heap_pop (by_value lt val) h = Some (Some (xs ! 0), h') \<and> heap_repr h' ys \<and>
       heap_ordered (by_value lt val) ys \<and> set ys = set xs - {xs ! 0})"
proof (cases "xs = []")
  case False
  then have "hp_size h \<noteq> 0" "harr_get h 0 = Some (xs ! 0)"
    using assms(2) harr_get_repr(1)[OF assms(2), of 0] unat_of_nat_u32[of "length xs"] by (auto simp: heap_repr_def)
  then show ?thesis
    using False node_order.delete_ok[OF by_value_order[OF assms(1)] assms(2,3), of "xs ! 0"] by (auto simp: heap_pop_def)
qed (use assms(2) in \<open>simp add: heap_pop_def heap_repr_def\<close>)

lemma heap_reach_inv:
  assumes "heap_reach lt val h S" and "heap_order lt"
  shows "\<exists>xs. heap_repr h xs \<and> heap_ordered (by_value lt val) xs \<and> set xs = S"
  using assms(1)
proof induction
  case (heap_reach_create h val)
  then have "heap_repr (heap_create h) []" by (simp add: heap_repr_def heap_create_def heap_node_is_stray_def)
  then show ?case by (intro exI[of _ "[]"]) (simp add: heap_from_def)
next
  case (heap_reach_insert val h S n memory junk r h')
  then obtain xs where xs: "heap_repr h xs" "heap_ordered (by_value lt val) xs" "set xs = S" by blast
  have "Suc (length xs) < 2 ^ 31" using heap_reach_insert repr_card[OF xs(1)] xs(3) by simp
  then show ?case
    using node_order.insert_ok[OF by_value_order[OF assms(2)] xs(1,2), where n = n and memory = memory and junk = junk]
      heap_reach_insert.hyps(2,4) xs by auto
next
  case (heap_reach_pop val h S r h')
  then obtain xs where xs: "heap_repr h xs" "heap_ordered (by_value lt val) xs" "set xs = S" by blast
  then show ?case using pop_ok[OF assms(2) xs(1,2)] heap_reach_pop.hyps(2) by auto
next
  case (heap_reach_delete val h S n h')
  then obtain xs where xs: "heap_repr h xs" "heap_ordered (by_value lt val) xs" "set xs = S" by blast
  then show ?case
    using node_order.delete_ok[OF by_value_order[OF assms(2)] xs(1,2), of n] heap_reach_delete.hyps(2,3) by auto
next
  case (heap_reach_update val h S n v h')
  then obtain xs where xs: "heap_repr h xs" "heap_ordered (by_value lt val) xs" "set xs = S" by blast
  then have "\<exists>ys. heap_repr h' ys \<and> heap_ordered (by_value lt (val(n := v))) ys \<and> set ys = S"
    using update_ok[OF assms(2) xs(1,2), of n v] heap_reach_update.hyps(2,3) by auto
  then show ?case .
next
  case (heap_reach_update_all val h S val' h')
  then obtain xs where xs: "heap_repr h xs" "set xs = S" by blast
  then show ?case
    using node_order.update_all_ok[OF by_value_order[OF assms(2)] xs(1), of val'] heap_reach_update_all.hyps(2) by auto
next
  case (heap_reach_values val h S val')
  then obtain xs where xs: "heap_repr h xs" "heap_ordered (by_value lt val) xs" "set xs = S" by blast
  have "heap_ordered (by_value lt val') xs"
    unfolding heap_from_def edge_ok_def by_value_def
  proof (intro allI impI)
    fix j assume j: "0 < j \<and> j < length xs \<and> 0 \<le> parent j"
    then have "xs ! j \<in> S" "xs ! parent j \<in> S" using xs(3) by auto
    then show "\<not> lt (val' (xs ! j)) (val' (xs ! parent j))"
      using xs(2) j heap_reach_values.hyps(2) unfolding heap_from_def edge_ok_def by_value_def by simp
  qed
  then show ?case using xs by blast
qed


text \<open>
  C18. The heap is a priority queue.  Whatever was inserted, popped, deleted and updated before, as long as
  there are fewer than \<open>2 ^ 31\<close> values: every operation returns without leaving the array; the top, and what a pop
  takes out, is a value that no other precedes, or null exactly when the heap is empty; the stray nodes are exactly those not in the heap;
  the size is the number of values; and the check of the invariant passes.
\<close>

theorem heap_is_priority_queue:
  assumes "heap_order lt" and "heap_reach lt val h S"
  shows "unat (hp_size h) = card S \<and> (\<forall>n. heap_node_is_stray n h \<longleftrightarrow> n \<notin> S) \<and> heap_check (by_value lt val) h = Some True \<and>
    (if S = {} then heap_top h = Some None \<and> heap_pop (by_value lt val) h = Some (None, h)
     else \<exists>n\<in>S. heap_top h = Some (Some n) \<and> (\<forall>m\<in>S. \<not> lt (val m) (val n)) \<and>
       (\<exists>h'. heap_pop (by_value lt val) h = Some (Some n, h') \<and> heap_node_is_stray n h')) \<and>
    (\<forall>n\<in>S. heap_delete (by_value lt val) n h \<noteq> None \<and> (\<forall>v. heap_update (by_value lt (val(n := v))) n h \<noteq> None)) \<and>
    (\<forall>val'. heap_update_all (by_value lt val') h \<noteq> None) \<and>
    (\<forall>n junk. n \<notin> S \<and> Suc (card S) < 2 ^ 31 \<longrightarrow> (\<exists>h'. heap_insert (by_value lt val) True junk n h = Some (True, h')))"
proof -
  obtain xs where xs: "heap_repr h xs" "heap_ordered (by_value lt val) xs" "set xs = S" using heap_reach_inv[OF assms(2,1)] by blast
  note order = by_value_order[OF assms(1)]
  have size: "unat (hp_size h) = card S" "length xs = card S"
    using xs(1,3) repr_card[OF xs(1)] unat_of_nat_u32[of "length xs"] by (auto simp: heap_repr_def)
  note stray = repr_stray
  have top: "\<exists>n\<in>S. heap_top h = Some (Some n) \<and> (\<forall>m\<in>S. \<not> lt (val m) (val n)) \<and>
      (\<exists>h'. heap_pop (by_value lt val) h = Some (Some n, h') \<and> heap_node_is_stray n h')" if "S \<noteq> {}"
  proof -
    have ne: "xs \<noteq> []" using that xs(3) by auto
    then have "heap_top h = Some (Some (xs ! 0))" using repr_top[OF xs(1)] by simp
    moreover have "\<not> lt (val m) (val (xs ! 0))" if m: "m \<in> S" for m
    proof -
      obtain j where "j < length xs" "xs ! j = m" using m xs(3) by (auto simp: in_set_conv_nth)
      then show ?thesis using node_order.ordered_least[OF order xs(2)] by (auto simp: by_value_def)
    qed
    moreover have "\<exists>h'. heap_pop (by_value lt val) h = Some (Some (xs ! 0), h') \<and> heap_node_is_stray (xs ! 0) h'"
      using pop_ok[OF assms(1) xs(1,2)] ne stray by auto
    moreover have "xs ! 0 \<in> S" using ne xs(3) by auto
    ultimately show ?thesis by blast
  qed
  have empty: "heap_top h = Some None \<and> heap_pop (by_value lt val) h = Some (None, h)" if "S = {}"
    using that xs(1,3) by (simp add: heap_top_def heap_pop_def heap_repr_def)
  have ops: "heap_delete (by_value lt val) n h \<noteq> None" "heap_update (by_value lt (val(n := v))) n h \<noteq> None" if "n \<in> S" for n v
    using node_order.delete_ok[OF order xs(1,2), of n] update_ok[OF assms(1) xs(1,2), of n v] that xs(3) by auto
  have all: "heap_update_all (by_value lt val') h \<noteq> None" for val'
    using node_order.update_all_ok[OF by_value_order[OF assms(1)] xs(1), of val'] by auto
  have ins: "\<exists>h'. heap_insert (by_value lt val) True junk n h = Some (True, h')" if "n \<notin> S \<and> Suc (card S) < 2 ^ 31" for n junk
    using node_order.insert_ok[OF order xs(1,2), where n = n and memory = True and junk = junk] that xs(3) size by auto
  have "heap_check (by_value lt val) h = Some True" using exact_order.check_ok[OF exact_order.intro[OF order] xs(1)] xs(2) by simp
  then show ?thesis using size(1) stray[OF xs(1)] xs(3) top empty ops all ins by simp
qed

text \<open>A heap without values, in an array of no cells.\<close>

definition no_heap :: heap where
  "no_heap = \<lparr>hp_size = 0, hp_capacity = 0, hp_harr = [], hp_pos = (\<lambda>_. HEAP_NODE_STRAY_POS)\<rparr>"

fun insert_all :: "heap_less \<Rightarrow> nat list \<Rightarrow> heap \<Rightarrow> heap option" where
  "insert_all lt [] h = Some h"
| "insert_all lt (n # ns) h = do { (r, h) \<leftarrow> heap_insert lt True 0 n h; if r then insert_all lt ns h else None }"

lemma insert_all_reach:
  "insert_all (by_value lt val) ns h = Some h' \<Longrightarrow> heap_reach lt val h S \<Longrightarrow> finite S \<Longrightarrow> distinct ns \<Longrightarrow> set ns \<inter> S = {} \<Longrightarrow>
   card S + length ns < 2 ^ 31 \<Longrightarrow> heap_reach lt val h' (S \<union> set ns)"
proof (induction ns arbitrary: h S)
  case (Cons n ns)
  then obtain h1 where h1: "heap_insert (by_value lt val) True 0 n h = Some (True, h1)" "insert_all (by_value lt val) ns h1 = Some h'"
    by (auto simp: bind_eq_Some_conv split: if_splits)
  have "heap_reach lt val h1 (insert n S)" using heap_reach_insert[OF Cons.prems(2) _ _ h1(1)] Cons.prems by simp
  then have "heap_reach lt val h' (insert n S \<union> set ns)" using Cons.prems h1(2) by (intro Cons.IH) auto
  then show ?case by simp
qed simp

lemma int_order: "heap_order ((<) :: int \<Rightarrow> int \<Rightarrow> bool)"
  by unfold_locales auto

theorem heap_is_priority_queue_witness:
  "\<exists>h h'. insert_all (by_value (<) (\<lambda>n. if n = 7 then - 5 else int n)) [4, 7, 2] (heap_create no_heap) = Some h \<and>
     heap_pop (by_value (<) (\<lambda>n. if n = 7 then - 5 else int n)) h = Some (Some 7, h') \<and> heap_node_is_stray 7 h'"
proof -
  let ?val = "\<lambda>n. if n = 7 then - 5 else int n"
  have "case insert_all (by_value (<) ?val) [4, 7, 2] (heap_create no_heap) of None \<Rightarrow> False
      | Some h \<Rightarrow> heap_top h = Some (Some 7)"
    by code_simp
  then obtain h where h: "insert_all (by_value (<) ?val) [4, 7, 2] (heap_create no_heap) = Some h" "heap_top h = Some (Some 7)"
    by (auto split: option.splits)
  have "heap_reach (<) ?val (heap_create no_heap) {}"
    by (rule heap_reach_create) (simp add: no_heap_def heap_node_is_stray_def)
  from insert_all_reach[OF h(1) this] have "heap_reach (<) ?val h {4, 7, 2}" by simp
  from heap_is_priority_queue[OF int_order this] show ?thesis using h by auto
qed

end
