(* ===== verification/Vy_Lsm.thy ===== *)
theory Vy_Lsm
  imports Heap
begin

text \<open>
  What the vinyl scheduler knows of an LSM tree (\<open>src/box/vy_lsm.c\<close>, \<open>vy_mem.h\<close>): its in-memory trees, the
  priority of its most urgent range, the flags of the scheduler; and the two orders by which the scheduler
  keeps LSM trees in heaps (\<open>src/box/vy_scheduler.c\<close>).
\<close>

section \<open>LSM trees\<close>

text \<open>\<open>mm_size\<close> is the number of statements in the tree, \<open>mm_dump_lsn\<close> the greatest LSN that its dump will cover.\<close>

record vy_mem =
  mm_id :: nat
  mm_generation :: int
  mm_size :: nat
  mm_dump_lsn :: int

text \<open>
  \<open>lsm_sealed\<close> lists the sealed trees, the newest first; \<open>lsm_range_top\<close> is the compaction priority of the top of
  the range heap.  Other LSM trees are named by numbers.
\<close>

record vy_lsm =
  lsm_index_id :: nat
  lsm_pk :: "nat option"
  lsm_mem :: vy_mem
  lsm_sealed :: "vy_mem list"
  lsm_range_top :: "int option"
  lsm_is_dropped :: bool
  lsm_is_dumping :: bool
  lsm_pin_count :: nat

definition vy_mem_new :: "nat \<Rightarrow> int \<Rightarrow> vy_mem" where
  "vy_mem_new mid generation = \<lparr>mm_id = mid, mm_generation = generation, mm_size = 0, mm_dump_lsn = -1\<rparr>"

text \<open>What \<^verbatim>\<open>vy_lsm_new\<close> makes of an index and the LSM tree of its primary index.\<close>

definition vy_lsm_new :: "nat \<Rightarrow> nat option \<Rightarrow> nat \<Rightarrow> int \<Rightarrow> vy_lsm" where
  "vy_lsm_new iid pk mid generation =
     \<lparr>lsm_index_id = iid, lsm_pk = pk, lsm_mem = vy_mem_new mid generation, lsm_sealed = [], lsm_range_top = None,
      lsm_is_dropped = False, lsm_is_dumping = False, lsm_pin_count = 0\<rparr>"

definition vy_lsm_generation :: "vy_lsm \<Rightarrow> int" where
  "vy_lsm_generation lsm =
     (let oldest = (if lsm_sealed lsm = [] then lsm_mem lsm else last (lsm_sealed lsm)) in mm_generation oldest)"

definition vy_lsm_compaction_priority :: "vy_lsm \<Rightarrow> int" where
  "vy_lsm_compaction_priority lsm =
     (case lsm_range_top lsm of
        None \<Rightarrow> 0
      | Some priority \<Rightarrow> if lsm_is_dropped lsm then 0 else priority)"

text \<open>\<open>memory\<close> tells whether \<^verbatim>\<open>vy_mem_new\<close> succeeds.\<close>

definition vy_lsm_rotate_mem :: "bool \<Rightarrow> nat \<Rightarrow> int \<Rightarrow> vy_lsm \<Rightarrow> vy_lsm option" where
  "vy_lsm_rotate_mem memory mid generation lsm =
     (if memory then Some (lsm\<lparr>lsm_sealed := lsm_mem lsm # lsm_sealed lsm, lsm_mem := vy_mem_new mid generation\<rparr>) else None)"

text \<open>Deleting a tree that is not sealed fails the assertion.\<close>

definition vy_lsm_delete_mem :: "nat \<Rightarrow> vy_lsm \<Rightarrow> vy_lsm option" where
  "vy_lsm_delete_mem mid lsm =
     do { lsm \<leftarrow> c_assert (mid \<in> mm_id ` set (lsm_sealed lsm)) lsm;
          Some (lsm\<lparr>lsm_sealed := filter (\<lambda>m. mm_id m \<noteq> mid) (lsm_sealed lsm)\<rparr>) }"

section \<open>The orders of the heaps\<close>

definition vy_dump_heap_less :: "vy_lsm \<Rightarrow> vy_lsm \<Rightarrow> bool" where
  "vy_dump_heap_less i1 i2 =
     (if lsm_is_dumping i1 \<noteq> lsm_is_dumping i2 then lsm_is_dumping i1 < lsm_is_dumping i2
      else if lsm_pin_count i1 \<noteq> lsm_pin_count i2 then lsm_pin_count i1 < lsm_pin_count i2
      else if vy_lsm_generation i1 \<noteq> vy_lsm_generation i2 then vy_lsm_generation i1 < vy_lsm_generation i2
      else lsm_index_id i1 > lsm_index_id i2)"

definition vy_compaction_heap_less :: "vy_lsm \<Rightarrow> vy_lsm \<Rightarrow> bool" where
  "vy_compaction_heap_less i1 i2 = (vy_lsm_compaction_priority i1 > vy_lsm_compaction_priority i2)"

interpretation dump_order: heap_order vy_dump_heap_less
  by unfold_locales (auto simp: vy_dump_heap_less_def split: if_splits)

interpretation compaction_order: heap_order vy_compaction_heap_less
  by unfold_locales (auto simp: vy_compaction_heap_less_def)

interpretation compaction_heap: exact_order "by_value vy_compaction_heap_less val" for val
  by (intro exact_order.intro by_value_order) (rule compaction_order.heap_order_axioms)

text \<open>
  The pin count of an LSM tree changes from one to two, and back, without an update of the heap, so that the dump
  heap is not always in the order of \<^const>\<open>vy_dump_heap_less\<close>.  What the scheduler relies on is coarser: LSM trees
  that may be dumped come before the others, the oldest first and the primary index of a space last.
\<close>

definition vy_lsm_free :: "vy_lsm \<Rightarrow> bool" where
  "vy_lsm_free lsm \<longleftrightarrow> \<not> lsm_is_dumping lsm \<and> lsm_pin_count lsm = 0"

definition vy_dump_before :: "vy_lsm \<Rightarrow> vy_lsm \<Rightarrow> bool" where
  "vy_dump_before i1 i2 \<longleftrightarrow> vy_lsm_free i1 \<and>
     (vy_lsm_free i2 \<longrightarrow> vy_lsm_generation i1 < vy_lsm_generation i2 \<or>
        vy_lsm_generation i1 = vy_lsm_generation i2 \<and> lsm_index_id i1 > lsm_index_id i2)"

interpretation before_order: heap_order vy_dump_before
  by unfold_locales (auto simp: vy_dump_before_def)

interpretation dump_heap: node_order "by_value vy_dump_before val" "by_value vy_dump_heap_less val" for val
  by (intro node_order.intro by_value_heap_order before_order.heap_order_axioms node_order_axioms.intro)
    (auto simp: by_value_def vy_dump_before_def vy_dump_heap_less_def vy_lsm_free_def split: if_splits)

section \<open>The trees of an LSM tree\<close>

abbreviation lsm_mems :: "vy_lsm \<Rightarrow> vy_mem list" where
  "lsm_mems lsm \<equiv> lsm_mem lsm # lsm_sealed lsm"

text \<open>The trees of an LSM tree are sealed in the order of their generations, and have different names.\<close>

definition lsm_wf :: "int \<Rightarrow> nat \<Rightarrow> vy_lsm \<Rightarrow> bool" where
  "lsm_wf generation next lsm \<longleftrightarrow>
     sorted_wrt (\<lambda>m m'. mm_generation m' \<le> mm_generation m) (lsm_mems lsm) \<and> mm_generation (lsm_mem lsm) \<le> generation \<and>
     distinct (map mm_id (lsm_mems lsm)) \<and> (\<forall>m\<in>set (lsm_mems lsm). mm_id m < next)"

lemma lsm_generation_least:
  assumes "lsm_wf g n lsm" and "m \<in> set (lsm_mems lsm)"
  shows "vy_lsm_generation lsm \<le> mm_generation m"
proof (cases "lsm_sealed lsm" rule: rev_cases)
  case (snoc ms m')
  then show ?thesis
    using assms by (auto simp: lsm_wf_def vy_lsm_generation_def sorted_wrt_append)
qed (use assms in \<open>simp add: vy_lsm_generation_def\<close>)

lemma lsm_generation_mem: "\<exists>m\<in>set (lsm_mems lsm). vy_lsm_generation lsm = mm_generation m"
  by (cases "lsm_sealed lsm" rule: rev_cases) (auto simp: vy_lsm_generation_def)

end
