(* ===== verification/Vy_Scheduler.thy ===== *)
theory Vy_Scheduler
  imports Vy_Lsm
begin

text \<open>
  The dump side of the vinyl scheduler, \<open>src/box/vy_scheduler.c\<close>: the heaps of LSM trees, dump rounds,
  checkpoints, dump tasks from their creation to their completion, and the fiber that drives them.

  LSM trees are named by numbers, \<open>vs_lsm\<close> holds them.  A failed assertion, an access outside of a heap and a
  dereferenced null pointer are \<^const>\<open>None\<close>.  Operations of the fiber are cut where the source yields.  The
  calls of the dump completion callback and the signals of \<open>dump_cond\<close> are recorded in \<open>vs_events\<close>, the latest
  first.
\<close>

section \<open>The scheduler\<close>

datatype vy_event = Dump_Complete int | Dump_Signal

text \<open>Workers are numbers; a pool knows whether its threads have been started.\<close>

record vy_worker_pool =
  wp_size :: nat
  wp_started :: bool
  wp_idle :: "nat list"

record vy_task =
  tk_lsm :: nat
  tk_worker :: nat
  tk_failed :: bool

record vy_scheduler =
  vs_lsm :: "nat \<Rightarrow> vy_lsm"
  vs_dump_heap :: heap
  vs_compaction_heap :: heap
  vs_dump_pool :: vy_worker_pool
  vs_compaction_pool :: vy_worker_pool
  vs_processed :: "vy_task list"
  vs_timeout :: nat
  vs_is_throttled :: bool
  vs_checkpoint_in_progress :: bool
  vs_dump_pending :: bool
  vs_generation :: int
  vs_dump_generation :: int
  vs_dump_task_count :: nat
  vs_tasks_inprogress :: nat
  vs_tasks_completed :: nat
  vs_tasks_failed :: nat
  vs_dump_count :: nat
  vs_next_mem :: nat
  vs_events :: "vy_event list"

definition VY_SCHEDULER_TIMEOUT_MIN :: nat where
  "VY_SCHEDULER_TIMEOUT_MIN = 1"

definition VY_SCHEDULER_TIMEOUT_MAX :: nat where
  "VY_SCHEDULER_TIMEOUT_MAX = 60"

subsection \<open>Worker pools\<close>

definition vy_worker_pool_create :: "nat \<Rightarrow> vy_worker_pool" where
  "vy_worker_pool_create n = \<lparr>wp_size = n, wp_started = False, wp_idle = []\<rparr>"

definition vy_worker_pool_start :: "vy_worker_pool \<Rightarrow> vy_worker_pool option" where
  "vy_worker_pool_start pool =
     do { pool \<leftarrow> c_assert (\<not> wp_started pool) pool;
          Some (pool\<lparr>wp_started := True, wp_idle := wp_idle pool @ [0..<wp_size pool]\<rparr>) }"

definition vy_worker_pool_get :: "vy_worker_pool \<Rightarrow> (nat option \<times> vy_worker_pool) option" where
  "vy_worker_pool_get pool =
     do { pool \<leftarrow> (if wp_started pool then Some pool else vy_worker_pool_start pool);
          Some (case wp_idle pool of [] \<Rightarrow> (None, pool) | w # ws \<Rightarrow> (Some w, pool\<lparr>wp_idle := ws\<rparr>)) }"

definition vy_worker_pool_put :: "nat \<Rightarrow> vy_worker_pool \<Rightarrow> vy_worker_pool" where
  "vy_worker_pool_put w pool = pool\<lparr>wp_idle := w # wp_idle pool\<rparr>"

text \<open>\<open>nodes\<close> are the links of the LSM trees, none of which is in a heap yet.\<close>

definition vy_scheduler_create :: "nat \<Rightarrow> heap \<Rightarrow> (nat \<Rightarrow> vy_lsm) \<Rightarrow> vy_scheduler option" where
  "vy_scheduler_create write_threads nodes lsm =
     do { _ \<leftarrow> c_assert (write_threads > 1) ();
          let dump_threads = max 1 (write_threads div 4);
          let compaction_threads = write_threads - dump_threads;
          Some \<lparr>vs_lsm = lsm, vs_dump_heap = heap_create nodes, vs_compaction_heap = heap_create nodes,
            vs_dump_pool = vy_worker_pool_create dump_threads, vs_compaction_pool = vy_worker_pool_create compaction_threads,
            vs_processed = [], vs_timeout = 0, vs_is_throttled = False, vs_checkpoint_in_progress = False,
            vs_dump_pending = False, vs_generation = 0, vs_dump_generation = 0, vs_dump_task_count = 0,
            vs_tasks_inprogress = 0, vs_tasks_completed = 0, vs_tasks_failed = 0, vs_dump_count = 0, vs_next_mem = 0,
            vs_events = []\<rparr> }"

subsection \<open>LSM trees in the heaps\<close>

abbreviation dump_lt :: "vy_scheduler \<Rightarrow> heap_less" where
  "dump_lt s \<equiv> by_value vy_dump_heap_less (vs_lsm s)"

abbreviation compaction_lt :: "vy_scheduler \<Rightarrow> heap_less" where
  "compaction_lt s \<equiv> by_value vy_compaction_heap_less (vs_lsm s)"

definition set_lsm :: "nat \<Rightarrow> vy_lsm \<Rightarrow> vy_scheduler \<Rightarrow> vy_scheduler" where
  "set_lsm l lsm s = s\<lparr>vs_lsm := (vs_lsm s)(l := lsm)\<rparr>"

abbreviation in_dump :: "nat \<Rightarrow> vy_scheduler \<Rightarrow> bool" where
  "in_dump l s \<equiv> \<not> heap_node_is_stray l (vs_dump_heap s)"

abbreviation in_compaction :: "nat \<Rightarrow> vy_scheduler \<Rightarrow> bool" where
  "in_compaction l s \<equiv> \<not> heap_node_is_stray l (vs_compaction_heap s)"

definition vy_scheduler_on_delete_lsm :: "nat \<Rightarrow> vy_scheduler \<Rightarrow> vy_scheduler option" where
  "vy_scheduler_on_delete_lsm l s =
     do { s \<leftarrow> c_assert (in_dump l s) s;
          s \<leftarrow> c_assert (in_compaction l s) s;
          h \<leftarrow> heap_delete (dump_lt s) l (vs_dump_heap s);
          let s = s\<lparr>vs_dump_heap := h\<rparr>;
          h \<leftarrow> heap_delete (compaction_lt s) l (vs_compaction_heap s);
          Some (s\<lparr>vs_compaction_heap := h\<rparr>) }"

text \<open>\<open>trigger\<close>, \<open>memory\<close> and \<open>memory'\<close> tell which allocations succeed; the results of the insertions are ignored.\<close>

definition vy_scheduler_add_lsm :: "bool \<Rightarrow> bool \<Rightarrow> bool \<Rightarrow> nat \<Rightarrow> vy_scheduler \<Rightarrow> (bool \<times> vy_scheduler) option" where
  "vy_scheduler_add_lsm trigger memory memory' l s =
     do { s \<leftarrow> c_assert (\<not> in_dump l s) s;
          s \<leftarrow> c_assert (\<not> in_compaction l s) s;
          if \<not> trigger then Some (False, s)
          else do {
            (_, h) \<leftarrow> heap_insert (dump_lt s) memory 0 l (vs_dump_heap s);
            let s = s\<lparr>vs_dump_heap := h\<rparr>;
            (_, h) \<leftarrow> heap_insert (compaction_lt s) memory' 0 l (vs_compaction_heap s);
            Some (True, s\<lparr>vs_compaction_heap := h\<rparr>) } }"

definition vy_scheduler_update_lsm :: "nat \<Rightarrow> vy_scheduler \<Rightarrow> vy_scheduler option" where
  "vy_scheduler_update_lsm l s =
     do { s \<leftarrow> c_assert (in_dump l s) s;
          s \<leftarrow> c_assert (in_compaction l s) s;
          h \<leftarrow> heap_update (dump_lt s) l (vs_dump_heap s);
          let s = s\<lparr>vs_dump_heap := h\<rparr>;
          h \<leftarrow> heap_update (compaction_lt s) l (vs_compaction_heap s);
          Some (s\<lparr>vs_compaction_heap := h\<rparr>) }"

definition vy_scheduler_pin_lsm :: "nat \<Rightarrow> vy_scheduler \<Rightarrow> vy_scheduler option" where
  "vy_scheduler_pin_lsm l s =
     (let lsm = vs_lsm s l
      in do { s \<leftarrow> c_assert (\<not> lsm_is_dumping lsm) s;
              let s = set_lsm l (lsm\<lparr>lsm_pin_count := lsm_pin_count lsm + 1\<rparr>) s;
              if lsm_pin_count lsm = 0 then vy_scheduler_update_lsm l s else Some s })"

definition vy_scheduler_unpin_lsm :: "nat \<Rightarrow> vy_scheduler \<Rightarrow> vy_scheduler option" where
  "vy_scheduler_unpin_lsm l s =
     (let lsm = vs_lsm s l
      in do { s \<leftarrow> c_assert (\<not> lsm_is_dumping lsm) s;
              s \<leftarrow> c_assert (lsm_pin_count lsm > 0) s;
              let s = set_lsm l (lsm\<lparr>lsm_pin_count := lsm_pin_count lsm - 1\<rparr>) s;
              if lsm_pin_count lsm - 1 = 0 then vy_scheduler_update_lsm l s else Some s })"

subsection \<open>Dump rounds and checkpoints\<close>

definition vy_scheduler_dump_in_progress :: "vy_scheduler \<Rightarrow> bool option" where
  "vy_scheduler_dump_in_progress s =
     do { s \<leftarrow> c_assert (vs_dump_generation s \<le> vs_generation s) s; Some (vs_dump_generation s < vs_generation s) }"

definition vy_scheduler_trigger_dump :: "vy_scheduler \<Rightarrow> vy_scheduler option" where
  "vy_scheduler_trigger_dump s =
     do { progress \<leftarrow> vy_scheduler_dump_in_progress s;
          if progress then Some s
          else if vs_checkpoint_in_progress s then Some (s\<lparr>vs_dump_pending := True\<rparr>)
          else Some (s\<lparr>vs_generation := vs_generation s + 1, vs_dump_pending := False\<rparr>) }"

text \<open>The waiting fibers of \<^verbatim>\<open>vy_scheduler_dump\<close> and \<^verbatim>\<open>vy_scheduler_wait_checkpoint\<close>: what they do each time they run.\<close>

datatype vy_wait = Wait_Again | Wait_Error | Wait_Done

definition vy_scheduler_dump_begin :: "vy_scheduler \<Rightarrow> vy_scheduler option" where
  "vy_scheduler_dump_begin s =
     (if vs_checkpoint_in_progress s then Some s
      else do { _ \<leftarrow> vy_scheduler_dump_in_progress s; Some (s\<lparr>vs_generation := vs_generation s + 1\<rparr>) })"

definition vy_scheduler_dump_wait :: "vy_scheduler \<Rightarrow> vy_wait option" where
  "vy_scheduler_dump_wait s =
     do { progress \<leftarrow> vy_scheduler_dump_in_progress s;
          Some (if \<not> progress then Wait_Done else if vs_is_throttled s then Wait_Error else Wait_Again) }"

definition vy_scheduler_complete_dump :: "vy_scheduler \<Rightarrow> vy_scheduler option" where
  "vy_scheduler_complete_dump s =
     do { s \<leftarrow> c_assert (vs_dump_generation s < vs_generation s) s;
          if vs_dump_task_count s > 0 then Some s
          else do {
            top \<leftarrow> heap_top (vs_dump_heap s);
            let min_generation = (case top of None \<Rightarrow> vs_generation s | Some l \<Rightarrow> vy_lsm_generation (vs_lsm s l));
            if min_generation = vs_dump_generation s then Some s
            else Some (s\<lparr>vs_dump_generation := min_generation, vs_dump_count := vs_dump_count s + 1,
                         vs_events := Dump_Signal # Dump_Complete (min_generation - 1) # vs_events s\<rparr>) } }"

definition vy_scheduler_begin_checkpoint :: "bool \<Rightarrow> vy_scheduler \<Rightarrow> (bool \<times> vy_scheduler) option" where
  "vy_scheduler_begin_checkpoint is_scheduled s =
     do { s \<leftarrow> c_assert (\<not> vs_checkpoint_in_progress s) s;
          if vs_is_throttled s \<and> is_scheduled then Some (False, s)
          else do {
            let s = s\<lparr>vs_is_throttled := False\<rparr>;
            _ \<leftarrow> vy_scheduler_dump_in_progress s;
            Some (True, s\<lparr>vs_generation := vs_generation s + 1, vs_checkpoint_in_progress := True\<rparr>) } }"

definition vy_scheduler_wait_checkpoint :: "vy_scheduler \<Rightarrow> vy_wait option" where
  "vy_scheduler_wait_checkpoint s =
     (if \<not> vs_checkpoint_in_progress s then Some Wait_Done
      else do { progress \<leftarrow> vy_scheduler_dump_in_progress s;
                Some (if \<not> progress then Wait_Done else if vs_is_throttled s then Wait_Error else Wait_Again) })"

definition vy_scheduler_end_checkpoint :: "vy_scheduler \<Rightarrow> vy_scheduler option" where
  "vy_scheduler_end_checkpoint s =
     (if \<not> vs_checkpoint_in_progress s then Some s
      else let s = s\<lparr>vs_checkpoint_in_progress := False\<rparr>
           in if vs_dump_pending s then vy_scheduler_trigger_dump s else Some s)"

text \<open>\<open>priority\<close> is the priority of the top of the range heap after \<^verbatim>\<open>vy_lsm_force_compaction\<close>.\<close>

definition vy_scheduler_force_compaction :: "int option \<Rightarrow> nat \<Rightarrow> vy_scheduler \<Rightarrow> vy_scheduler option" where
  "vy_scheduler_force_compaction priority l s =
     vy_scheduler_update_lsm l (set_lsm l ((vs_lsm s l)\<lparr>lsm_range_top := priority\<rparr>) s)"

text \<open>The rotation that precedes a write to an LSM tree; \<open>schema\<close> says that the schema has changed.\<close>

definition vy_tx_write_prepare :: "bool \<Rightarrow> bool \<Rightarrow> nat \<Rightarrow> vy_scheduler \<Rightarrow> bool \<times> vy_scheduler" where
  "vy_tx_write_prepare schema memory l s =
     (if schema \<or> mm_generation (lsm_mem (vs_lsm s l)) \<noteq> vs_generation s then
        case vy_lsm_rotate_mem memory (vs_next_mem s) (vs_generation s) (vs_lsm s l) of
          None \<Rightarrow> (False, s)
        | Some lsm \<Rightarrow> (True, (set_lsm l lsm s)\<lparr>vs_next_mem := vs_next_mem s + 1\<rparr>)
      else (True, s))"

subsection \<open>Completing a dump task\<close>

text \<open>Common end of \<^verbatim>\<open>vy_task_dump_complete\<close> and \<^verbatim>\<open>vy_task_dump_abort\<close>.\<close>

definition dump_task_over :: "nat \<Rightarrow> vy_scheduler \<Rightarrow> vy_scheduler option" where
  "dump_task_over l s =
     do { let s = set_lsm l ((vs_lsm s l)\<lparr>lsm_is_dumping := False\<rparr>) s;
          s \<leftarrow> vy_scheduler_update_lsm l s;
          s \<leftarrow> (if lsm_index_id (vs_lsm s l) \<noteq> 0 then do { pk \<leftarrow> lsm_pk (vs_lsm s l); vy_scheduler_unpin_lsm pk s }
                else Some s);
          s \<leftarrow> c_assert (vs_dump_task_count s > 0) s;
          Some (s\<lparr>vs_dump_task_count := vs_dump_task_count s - 1\<rparr>) }"

text \<open>After the metadata log is written: \<open>priority\<close> is the priority of the top of the range heap with the new slices.\<close>

definition vy_task_dump_complete :: "int option \<Rightarrow> nat \<Rightarrow> vy_scheduler \<Rightarrow> vy_scheduler option" where
  "vy_task_dump_complete priority l s =
     (let lsm = vs_lsm s l
      in do { let s = set_lsm l (lsm\<lparr>lsm_range_top := priority,
                       lsm_sealed := filter (\<lambda>m. mm_generation m > vs_dump_generation s) (lsm_sealed lsm)\<rparr>) s;
              s \<leftarrow> dump_task_over l s;
              vy_scheduler_complete_dump s })"

definition vy_task_dump_abort :: "nat \<Rightarrow> vy_scheduler \<Rightarrow> vy_scheduler option" where
  "vy_task_dump_abort l s =
     do { s \<leftarrow> c_assert (lsm_is_dumping (vs_lsm s l)) s; dump_task_over l s }"

subsection \<open>Creating a dump task\<close>

definition vy_task_dump_new_begin :: "bool \<Rightarrow> nat \<Rightarrow> vy_scheduler \<Rightarrow> (bool \<times> vy_scheduler) option" where
  "vy_task_dump_new_begin memory l s =
     (let lsm = vs_lsm s l
      in do { s \<leftarrow> c_assert (\<not> lsm_is_dumping lsm) s;
              s \<leftarrow> c_assert (lsm_pin_count lsm = 0) s;
              s \<leftarrow> c_assert (vy_lsm_generation lsm = vs_dump_generation s) s;
              s \<leftarrow> c_assert (vs_dump_generation s < vs_generation s) s;
              if mm_generation (lsm_mem lsm) = vs_dump_generation s then
                Some (case vy_lsm_rotate_mem memory (vs_next_mem s) (vs_generation s) lsm of
                        None \<Rightarrow> (False, s)
                      | Some lsm \<Rightarrow> (True, (set_lsm l lsm s)\<lparr>vs_next_mem := vs_next_mem s + 1\<rparr>))
              else Some (True, s) })"

text \<open>The loop over the sealed trees up to the next one to wait for.\<close>

fun dump_new_skip :: "int \<Rightarrow> vy_mem list \<Rightarrow> vy_mem list" where
  "dump_new_skip generation [] = []"
| "dump_new_skip generation (m # ms) = (if mm_generation m > generation then dump_new_skip generation ms else m # ms)"

definition lsm_sealed_mem :: "nat \<Rightarrow> vy_lsm \<Rightarrow> vy_mem option" where
  "lsm_sealed_mem mid lsm = find (\<lambda>m. mm_id m = mid) (lsm_sealed lsm)"

text \<open>The body of the loop, once nobody writes to the tree any more.\<close>

definition dump_new_mem :: "nat \<Rightarrow> nat \<Rightarrow> int \<Rightarrow> vy_scheduler \<Rightarrow> (int \<times> vy_scheduler) option" where
  "dump_new_mem l mid dump_lsn s =
     do { mem \<leftarrow> lsm_sealed_mem mid (vs_lsm s l);
          if mm_size mem = 0 then do { lsm \<leftarrow> vy_lsm_delete_mem mid (vs_lsm s l); Some (dump_lsn, set_lsm l lsm s) }
          else Some (max dump_lsn (mm_dump_lsn mem), s) }"

definition vy_task_dump_new_end :: "nat \<Rightarrow> vy_scheduler \<Rightarrow> vy_scheduler option" where
  "vy_task_dump_new_end l s =
     do { let s = set_lsm l ((vs_lsm s l)\<lparr>lsm_is_dumping := True\<rparr>) s;
          s \<leftarrow> vy_scheduler_update_lsm l s;
          s \<leftarrow> (if lsm_index_id (vs_lsm s l) \<noteq> 0 then do { pk \<leftarrow> lsm_pk (vs_lsm s l); vy_scheduler_pin_lsm pk s }
                else Some s);
          Some (s\<lparr>vs_dump_task_count := vs_dump_task_count s + 1\<rparr>) }"

section \<open>The scheduler fiber\<close>

text \<open>
  Where the fiber is: at the top of its loop; going through the processed tasks, with the numbers of tasks done and
  failed; in \<^verbatim>\<open>vy_task_dump_complete\<close>, writing the metadata log; in \<^verbatim>\<open>vy_scheduler_peek_dump\<close>, with the worker it
  holds; in \<^verbatim>\<open>vy_task_dump_new\<close>, waiting for the writers of a tree, or writing the metadata log; sleeping after an
  error.
\<close>

datatype vy_fiber =
    Fiber_Loop
  | Fiber_Tasks "vy_task list" nat nat
  | Fiber_Commit vy_task "vy_task list" nat nat
  | Fiber_Peek "nat option"
  | Fiber_Scan nat nat "nat list" int
  | Fiber_Prepare nat nat
  | Fiber_Throttle

record vy_world =
  vw_sched :: vy_scheduler
  vw_fiber :: vy_fiber
  vw_running :: "vy_task list"

text \<open>What the calls of the fiber return, until it yields again.\<close>

record vy_input =
  in_mem :: bool
  in_task :: bool
  in_run :: bool
  in_iterator :: bool
  in_iterator_mem :: bool
  in_complete :: bool
  in_priority :: "int option"

definition vy_scheduler_error :: "vy_scheduler \<Rightarrow> vy_scheduler" where
  "vy_scheduler_error s =
     (let timeout = max VY_SCHEDULER_TIMEOUT_MIN (vs_timeout s * 2)
      in s\<lparr>vs_timeout := min timeout VY_SCHEDULER_TIMEOUT_MAX, vs_is_throttled := True,
           vs_events := Dump_Signal # vs_events s\<rparr>)"

definition put_dump_worker :: "nat \<Rightarrow> vy_scheduler \<Rightarrow> vy_scheduler" where
  "put_dump_worker w s = s\<lparr>vs_dump_pool := vy_worker_pool_put w (vs_dump_pool s)\<rparr>"

text \<open>The label \<open>no_task\<close> of \<^verbatim>\<open>vy_scheduler_peek_dump\<close>.\<close>

definition peek_no_task :: "nat option \<Rightarrow> vy_scheduler \<Rightarrow> vy_fiber \<times> vy_scheduler" where
  "peek_no_task worker s = (Fiber_Loop, case worker of None \<Rightarrow> s | Some w \<Rightarrow> put_dump_worker w s)"

text \<open>\<^verbatim>\<open>vy_task_dump_new\<close> fails: the worker goes back, the fiber throttles.\<close>

definition dump_new_failed :: "nat \<Rightarrow> vy_scheduler \<Rightarrow> vy_fiber \<times> vy_scheduler" where
  "dump_new_failed w s = (Fiber_Throttle, vy_scheduler_error (put_dump_worker w s))"

text \<open>\<^verbatim>\<open>vy_task_dump_new\<close> with \<open>todo\<close> the trees that the loop has not visited, up to its next yield.\<close>

definition dump_new_continue ::
    "vy_input \<Rightarrow> nat \<Rightarrow> nat \<Rightarrow> vy_mem list \<Rightarrow> int \<Rightarrow> vy_scheduler \<Rightarrow> (vy_fiber \<times> vy_scheduler) option" where
  "dump_new_continue inp w l todo dump_lsn s =
     (case dump_new_skip (vs_dump_generation s) todo of
        m # ms \<Rightarrow> Some (Fiber_Scan w l (map mm_id (m # ms)) dump_lsn, s)
      | [] \<Rightarrow>
          if dump_lsn < 0 then
            do { s \<leftarrow> vy_scheduler_update_lsm l s; s \<leftarrow> vy_scheduler_complete_dump s; Some (Fiber_Peek (Some w), s) }
          else if \<not> in_task inp then Some (dump_new_failed w s)
          else Some (Fiber_Prepare w l, s))"

text \<open>One pass of \<^verbatim>\<open>vy_scheduler_peek_dump\<close> from the label \<open>retry\<close>.\<close>

definition vy_scheduler_peek_dump :: "vy_input \<Rightarrow> nat option \<Rightarrow> vy_scheduler \<Rightarrow> (vy_fiber \<times> vy_scheduler) option" where
  "vy_scheduler_peek_dump inp worker s =
     do { progress \<leftarrow> vy_scheduler_dump_in_progress s;
          if \<not> progress then Some (peek_no_task worker s)
          else do {
            top \<leftarrow> heap_top (vs_dump_heap s);
            (case top of
               None \<Rightarrow> do { s \<leftarrow> vy_scheduler_complete_dump s; Some (peek_no_task worker s) }
             | Some l \<Rightarrow>
                 let lsm = vs_lsm s l
                 in if \<not> lsm_is_dumping lsm \<and> lsm_pin_count lsm = 0 \<and> vy_lsm_generation lsm = vs_dump_generation s then
                      do { (worker, pool) \<leftarrow> (case worker of
                             Some w \<Rightarrow> Some (Some w, vs_dump_pool s) | None \<Rightarrow> vy_worker_pool_get (vs_dump_pool s));
                           let s = s\<lparr>vs_dump_pool := pool\<rparr>;
                           (case worker of
                              None \<Rightarrow> Some (Fiber_Loop, s)
                            | Some w \<Rightarrow>
                                do { (ok, s) \<leftarrow> vy_task_dump_new_begin (in_mem inp) l s;
                                     if ok then dump_new_continue inp w l (lsm_sealed (vs_lsm s l)) (-1) s
                                     else Some (dump_new_failed w s) }) }
                    else if vs_dump_task_count s = 0 then
                      do { s \<leftarrow> c_assert (vs_dump_generation s < vy_lsm_generation lsm) s;
                           Some (Fiber_Peek worker, s\<lparr>vs_dump_generation := vy_lsm_generation lsm\<rparr>) }
                    else Some (peek_no_task worker s)) } }"

text \<open>The end of \<^verbatim>\<open>vy_task_complete\<close> and of the iteration of the loop over the processed tasks.\<close>

definition task_failed ::
    "vy_task \<Rightarrow> vy_task list \<Rightarrow> nat \<Rightarrow> nat \<Rightarrow> vy_scheduler \<Rightarrow> (vy_fiber \<times> vy_scheduler) option" where
  "task_failed t batch done failed s =
     do { s \<leftarrow> vy_task_dump_abort (tk_lsm t) s;
          Some (Fiber_Tasks batch done (failed + 1),
                put_dump_worker (tk_worker t) (s\<lparr>vs_tasks_failed := vs_tasks_failed s + 1\<rparr>)) }"

definition task_done ::
    "int option \<Rightarrow> vy_task \<Rightarrow> vy_task list \<Rightarrow> nat \<Rightarrow> nat \<Rightarrow> vy_scheduler \<Rightarrow> (vy_fiber \<times> vy_scheduler) option" where
  "task_done priority t batch done failed s =
     do { s \<leftarrow> vy_task_dump_complete priority (tk_lsm t) s;
          Some (Fiber_Tasks batch (done + 1) failed,
                put_dump_worker (tk_worker t) (s\<lparr>vs_tasks_completed := vs_tasks_completed s + 1\<rparr>)) }"

text \<open>\<^verbatim>\<open>vy_task_complete\<close> up to the metadata log.\<close>

definition vy_task_complete ::
    "vy_task \<Rightarrow> vy_task list \<Rightarrow> nat \<Rightarrow> nat \<Rightarrow> vy_scheduler \<Rightarrow> (vy_fiber \<times> vy_scheduler) option" where
  "vy_task_complete t batch done failed s =
     do { s \<leftarrow> c_assert (vs_tasks_inprogress s > 0) s;
          let s = s\<lparr>vs_tasks_inprogress := vs_tasks_inprogress s - 1\<rparr>;
          if tk_failed t then task_failed t batch done failed s
          else do { s \<leftarrow> c_assert (lsm_is_dumping (vs_lsm s (tk_lsm t))) s; Some (Fiber_Commit t batch done failed, s) } }"

text \<open>
  The rest of \<^verbatim>\<open>vy_task_dump_new\<close> after \<^verbatim>\<open>vy_run_prepare\<close>, and the start of the task.  When a source of the write
  iterator cannot be created, the iterator is closed through the field of the task that is not set yet.
\<close>

definition dump_new_prepared :: "vy_input \<Rightarrow> nat \<Rightarrow> nat \<Rightarrow> vy_world \<Rightarrow> vy_world option" where
  "dump_new_prepared inp w l vw =
     (let s = vw_sched vw
      in if \<not> in_run inp \<or> \<not> in_iterator inp then
           Some (vw\<lparr>vw_fiber := fst (dump_new_failed w s), vw_sched := snd (dump_new_failed w s)\<rparr>)
         else if \<not> in_iterator_mem inp then None
         else do { s \<leftarrow> vy_task_dump_new_end l s;
                   Some (vw\<lparr>vw_sched := s\<lparr>vs_tasks_inprogress := vs_tasks_inprogress s + 1\<rparr>, vw_fiber := Fiber_Loop,
                            vw_running := vw_running vw @ [\<lparr>tk_lsm = l, tk_worker = w, tk_failed = False\<rparr>]\<rparr>) })"

definition with_fiber :: "vy_world \<Rightarrow> (vy_fiber \<times> vy_scheduler) option \<Rightarrow> vy_world option" where
  "with_fiber vw r = map_option (\<lambda>(f, s). vw\<lparr>vw_fiber := f, vw_sched := s\<rparr>) r"

text \<open>One turn of the fiber, from a yield to the next.\<close>

definition vy_scheduler_f :: "vy_input \<Rightarrow> vy_world \<Rightarrow> vy_world option" where
  "vy_scheduler_f inp vw =
     (let s = vw_sched vw
      in case vw_fiber vw of
           Fiber_Loop \<Rightarrow> with_fiber vw (Some (Fiber_Tasks (vs_processed s) 0 0, s\<lparr>vs_processed := []\<rparr>))
         | Fiber_Tasks [] done failed \<Rightarrow>
             with_fiber vw (Some (if done > 0 then (Fiber_Loop, s\<lparr>vs_timeout := 0\<rparr>)
                                  else if failed > 0 then (Fiber_Throttle, vy_scheduler_error s)
                                  else (Fiber_Peek None, s)))
         | Fiber_Tasks (t # batch) done failed \<Rightarrow> with_fiber vw (vy_task_complete t batch done failed s)
         | Fiber_Commit t batch done failed \<Rightarrow>
             with_fiber vw (if in_complete inp then task_done (in_priority inp) t batch done failed s
                            else task_failed t batch done failed s)
         | Fiber_Peek worker \<Rightarrow> with_fiber vw (vy_scheduler_peek_dump inp worker s)
         | Fiber_Scan w l todo dump_lsn \<Rightarrow>
             (case todo of
                [] \<Rightarrow> None
              | mid # rest \<Rightarrow>
                  do { (dump_lsn, s') \<leftarrow> dump_new_mem l mid dump_lsn s;
                       with_fiber vw (dump_new_continue inp w l
                         (filter (\<lambda>m. mm_id m \<in> set rest) (lsm_sealed (vs_lsm s' l))) dump_lsn s') })
         | Fiber_Prepare w l \<Rightarrow> dump_new_prepared inp w l vw
         | Fiber_Throttle \<Rightarrow> with_fiber vw (Some (Fiber_Loop, s\<lparr>vs_is_throttled := False\<rparr>)))"

end
