(* ===== verification/Vy_Dump.thy ===== *)
theory Vy_Dump
  imports Vy_Scheduler
begin

text \<open>
  Dump rounds of the vinyl scheduler under every interleaving of its fiber with transactions, checkpoints, index
  creation and deletion, compaction and the workers: no assertion fails, the memory of a generation is freed only
  when no LSM tree needs it, and the primary index of a space is dumped after the secondary ones.
\<close>

section \<open>What happens around the scheduler\<close>

text \<open>
  \<open>Act_Add\<close> creates an LSM tree and adds it to the scheduler, \<open>Act_Delete\<close> destroys one.  \<open>Act_Write\<close> prepares a write,
  \<open>Act_Mem\<close> is the effect of writes and rollbacks on a tree.  \<open>Act_Compaction\<close> is any operation that changes
  the compaction priority of an LSM tree.  \<open>Act_Executed\<close> is the end of a task in its worker.
\<close>

datatype vy_action =
    Act_Add nat nat "nat option"
  | Act_Delete nat
  | Act_Drop nat
  | Act_Write nat bool bool
  | Act_Mem nat nat nat int
  | Act_Compaction nat "int option"
  | Act_Trigger
  | Act_Dump
  | Act_Begin bool
  | Act_End
  | Act_Executed nat bool
  | Act_Fiber vy_input

definition with_sched :: "vy_world \<Rightarrow> vy_scheduler option \<Rightarrow> vy_world option" where
  "with_sched vw r = map_option (\<lambda>s. vw\<lparr>vw_sched := s\<rparr>) r"

definition lsm_map_mem :: "nat \<Rightarrow> (vy_mem \<Rightarrow> vy_mem) \<Rightarrow> vy_lsm \<Rightarrow> vy_lsm" where
  "lsm_map_mem mid f lsm =
     (let g = (\<lambda>m. if mm_id m = mid then f m else m)
      in lsm\<lparr>lsm_mem := g (lsm_mem lsm), lsm_sealed := map g (lsm_sealed lsm)\<rparr>)"

fun vy_act :: "vy_action \<Rightarrow> vy_world \<Rightarrow> vy_world option" where
  "vy_act (Act_Add l iid pk) vw =
     (let s = vw_sched vw; s = (set_lsm l (vy_lsm_new iid pk (vs_next_mem s) (vs_generation s)) s)\<lparr>vs_next_mem := vs_next_mem s + 1\<rparr>
      in with_sched vw (map_option snd (vy_scheduler_add_lsm True True True l s)))"
| "vy_act (Act_Delete l) vw = with_sched vw (vy_scheduler_on_delete_lsm l (vw_sched vw))"
| "vy_act (Act_Drop l) vw =
     (let s = vw_sched vw in with_sched vw (Some (set_lsm l ((vs_lsm s l)\<lparr>lsm_is_dropped := True\<rparr>) s)))"
| "vy_act (Act_Write l schema memory) vw = with_sched vw (Some (snd (vy_tx_write_prepare schema memory l (vw_sched vw))))"
| "vy_act (Act_Mem l mid n lsn) vw =
     (let s = vw_sched vw
      in with_sched vw (Some (set_lsm l (lsm_map_mem mid (\<lambda>m. m\<lparr>mm_size := n, mm_dump_lsn := lsn\<rparr>) (vs_lsm s l)) s)))"
| "vy_act (Act_Compaction l priority) vw = with_sched vw (vy_scheduler_force_compaction priority l (vw_sched vw))"
| "vy_act Act_Trigger vw = with_sched vw (vy_scheduler_trigger_dump (vw_sched vw))"
| "vy_act Act_Dump vw = with_sched vw (vy_scheduler_dump_begin (vw_sched vw))"
| "vy_act (Act_Begin is_scheduled) vw = with_sched vw (map_option snd (vy_scheduler_begin_checkpoint is_scheduled (vw_sched vw)))"
| "vy_act Act_End vw = with_sched vw (vy_scheduler_end_checkpoint (vw_sched vw))"
| "vy_act (Act_Executed i is_failed) vw =
     (let s = vw_sched vw; t = vw_running vw ! i
      in Some (vw\<lparr>vw_sched := s\<lparr>vs_processed := vs_processed s @ [t\<lparr>tk_failed := is_failed\<rparr>]\<rparr>,
                  vw_running := take i (vw_running vw) @ drop (Suc i) (vw_running vw)\<rparr>))"
| "vy_act (Act_Fiber inp) vw = vy_scheduler_f inp vw"

definition vy_registered :: "vy_scheduler \<Rightarrow> nat list" where
  "vy_registered s = take (unat (hp_size (vs_dump_heap s))) (hp_harr (vs_dump_heap s))"

fun fiber_tasks :: "vy_fiber \<Rightarrow> vy_task list" where
  "fiber_tasks (Fiber_Tasks batch _ _) = batch"
| "fiber_tasks (Fiber_Commit t batch _ _) = t # batch"
| "fiber_tasks _ = []"

fun fiber_lsm :: "vy_fiber \<Rightarrow> nat option" where
  "fiber_lsm (Fiber_Scan w l _ _) = Some l"
| "fiber_lsm (Fiber_Prepare w l) = Some l"
| "fiber_lsm _ = None"

definition vw_tasks :: "vy_world \<Rightarrow> vy_task list" where
  "vw_tasks vw = vw_running vw @ vs_processed (vw_sched vw) @ fiber_tasks (vw_fiber vw)"

text \<open>
  What the callers of the scheduler ensure.  An LSM tree is added with the current generation, next to its primary
  index; it is deleted when nobody holds a reference to it: no task, no secondary index, and not the fiber.  A
  checkpoint is begun when none is in progress.
\<close>

fun vy_allowed :: "vy_action \<Rightarrow> vy_world \<Rightarrow> bool" where
  "vy_allowed (Act_Add l iid pk) vw =
     (let s = vw_sched vw
      in \<not> in_dump l s \<and> hp_size (vs_dump_heap s) < 2147483647 \<and>
         (case pk of None \<Rightarrow> iid = 0 | Some p \<Rightarrow> iid \<noteq> 0 \<and> in_dump p s \<and> lsm_index_id (vs_lsm s p) = 0))"
| "vy_allowed (Act_Delete l) vw =
     (let s = vw_sched vw
      in in_dump l s \<and> l \<notin> tk_lsm ` set (vw_tasks vw) \<and> fiber_lsm (vw_fiber vw) \<noteq> Some l \<and>
         (\<forall>k\<in>set (vy_registered s). lsm_pk (vs_lsm s k) \<noteq> Some l))"
| "vy_allowed (Act_Drop l) vw = in_dump l (vw_sched vw)"
| "vy_allowed (Act_Write l schema memory) vw = in_dump l (vw_sched vw)"
| "vy_allowed (Act_Mem l mid n lsn) vw = in_dump l (vw_sched vw)"
| "vy_allowed (Act_Compaction l priority) vw = in_dump l (vw_sched vw)"
| "vy_allowed (Act_Begin is_scheduled) vw = (\<not> vs_checkpoint_in_progress (vw_sched vw))"
| "vy_allowed (Act_Executed i is_failed) vw = (i < length (vw_running vw))"
| "vy_allowed (Act_Fiber inp) vw = in_iterator_mem inp"
| "vy_allowed _ vw = True"

definition vy_start :: "vy_scheduler \<Rightarrow> vy_world" where
  "vy_start s = \<lparr>vw_sched = s, vw_fiber = Fiber_Loop, vw_running = []\<rparr>"

inductive vy_reach :: "vy_world \<Rightarrow> bool" where
  vy_reach_start: "\<forall>l. heap_node_is_stray l nodes \<Longrightarrow> vy_scheduler_create n nodes lsm = Some s \<Longrightarrow> vy_reach (vy_start s)"
| vy_reach_act: "vy_reach vw \<Longrightarrow> vy_allowed a vw \<Longrightarrow> vy_act a vw = Some vw' \<Longrightarrow> vy_reach vw'"

section \<open>The heaps\<close>

abbreviation dump_before :: "vy_scheduler \<Rightarrow> heap_less" where
  "dump_before s \<equiv> by_value vy_dump_before (vs_lsm s)"

definition heaps_ok :: "nat set \<Rightarrow> vy_scheduler \<Rightarrow> bool" where
  "heaps_ok R s \<longleftrightarrow>
     (\<exists>xs. heap_repr (vs_dump_heap s) xs \<and> heap_ordered (dump_before s) xs \<and> set xs = R) \<and>
     (\<exists>ys. heap_repr (vs_compaction_heap s) ys \<and> set ys = R)"

text \<open>The same, with the place of one LSM tree out of date.\<close>

definition heaps_at :: "nat \<Rightarrow> nat set \<Rightarrow> vy_scheduler \<Rightarrow> bool" where
  "heaps_at l R s \<longleftrightarrow>
     (\<exists>xs i. heap_repr (vs_dump_heap s) xs \<and> i < length xs \<and> xs ! i = l \<and> around (dump_before s) 0 xs i \<and> set xs = R) \<and>
     (\<exists>ys. heap_repr (vs_compaction_heap s) ys \<and> set ys = R)"

text \<open>Two schedulers that differ at most in their heaps.\<close>

definition same_but_heaps :: "vy_scheduler \<Rightarrow> vy_scheduler \<Rightarrow> bool" where
  "same_but_heaps s s' \<longleftrightarrow> s' = s\<lparr>vs_dump_heap := vs_dump_heap s', vs_compaction_heap := vs_compaction_heap s'\<rparr>"

lemma heaps_ok_stray:
  assumes "heaps_ok R s"
  shows "in_dump l s \<longleftrightarrow> l \<in> R" "in_compaction l s \<longleftrightarrow> l \<in> R"
proof -
  obtain xs ys where "heap_repr (vs_dump_heap s) xs" "set xs = R" "heap_repr (vs_compaction_heap s) ys" "set ys = R"
    using assms unfolding heaps_ok_def by blast
  from this(2,4) repr_stray[OF this(1)] repr_stray[OF this(3)]
  show "in_dump l s \<longleftrightarrow> l \<in> R" "in_compaction l s \<longleftrightarrow> l \<in> R" by simp_all
qed

lemma heaps_at_stray:
  assumes "heaps_at k R s"
  shows "in_dump l s \<longleftrightarrow> l \<in> R" "in_compaction l s \<longleftrightarrow> l \<in> R" "k \<in> R"
proof -
  obtain xs ys i where xs: "heap_repr (vs_dump_heap s) xs" "set xs = R" "heap_repr (vs_compaction_heap s) ys" "set ys = R"
      "i < length xs" "xs ! i = k"
    using assms unfolding heaps_at_def by (elim exE conjE)
  from xs(2,4) repr_stray[OF xs(1)] repr_stray[OF xs(3)]
  show "in_dump l s \<longleftrightarrow> l \<in> R" "in_compaction l s \<longleftrightarrow> l \<in> R" by simp_all
  show "k \<in> R" using nth_mem[OF xs(5)] xs(2,6) by simp
qed

lemma heaps_ok_registered: "heaps_ok R s \<Longrightarrow> set (vy_registered s) = R"
proof -
  assume "heaps_ok R s"
  then obtain xs where xs: "heap_repr (vs_dump_heap s) xs" "set xs = R" by (auto simp: heaps_ok_def)
  have "unat (hp_size (vs_dump_heap s)) = length xs"
    using xs(1) unat_of_nat_u32[of "length xs"] by (simp add: heap_repr_def)
  then have "vy_registered s = xs"
    using xs(1) by (auto simp: vy_registered_def heap_repr_def intro: nth_equalityI)
  then show ?thesis using xs(2) by simp
qed

lemma heaps_ok_finite: "heaps_ok R s \<Longrightarrow> finite R"
  by (auto simp: heaps_ok_def)

text \<open>The top of the dump heap.\<close>

lemma heaps_ok_top:
  assumes "heaps_ok R s"
  obtains (empty) "R = {}" "heap_top (vs_dump_heap s) = Some None"
  | (top) l where "l \<in> R" "heap_top (vs_dump_heap s) = Some (Some l)"
      "\<And>k. k \<in> R \<Longrightarrow> \<not> vy_dump_before (vs_lsm s k) (vs_lsm s l)"
proof -
  obtain xs where xs: "heap_repr (vs_dump_heap s) xs" "heap_ordered (dump_before s) xs" "set xs = R"
    using assms by (auto simp: heaps_ok_def)
  show ?thesis
  proof (cases "xs = []")
    case True
    then show ?thesis using empty xs repr_top[OF xs(1)] by simp
  next
    case False
    have "\<not> vy_dump_before (vs_lsm s k) (vs_lsm s (xs ! 0))" if k: "k \<in> R" for k
    proof -
      obtain j where "j < length xs" "xs ! j = k" using k xs(3) by (auto simp: in_set_conv_nth)
      then show ?thesis using dump_heap.ordered_least[OF xs(2)] by (auto simp: by_value_def)
    qed
    then show ?thesis using top[of "xs ! 0"] False xs(3) repr_top[OF xs(1)] by auto
  qed
qed

lemma update_lsm_ok:
  assumes "heaps_at l R s"
  shows "succeeds (\<lambda>s'. heaps_ok R s' \<and> same_but_heaps s s') (vy_scheduler_update_lsm l s)"
proof -
  obtain xs i where xs: "heap_repr (vs_dump_heap s) xs" "i < length xs" "xs ! i = l" "around (dump_before s) 0 xs i" "set xs = R"
    using assms by (auto simp: heaps_at_def)
  obtain ys where ys: "heap_repr (vs_compaction_heap s) ys" "set ys = R"
    using assms by (auto simp: heaps_at_def)
  obtain h xs' where h: "heap_update (dump_lt s) l (vs_dump_heap s) = Some h" "heap_repr h xs'" "heap_ordered (dump_before s) xs'" "set xs' = R"
    using dump_heap.update_node_ok[OF xs(1,4,2)] xs(3,5) by (auto simp: heap_update_def)
  have "l \<in> set ys" using ys(2) heaps_at_stray(3)[OF assms] by simp
  then obtain j where j: "j < length ys" "ys ! j = l" by (auto simp: in_set_conv_nth)
  obtain h' ys' where h': "heap_update (compaction_lt s) l (vs_compaction_heap s) = Some h'" "heap_repr h' ys'" "set ys' = R"
    using node_order.update_node_ok[where lt = "compaction_lt s", OF unordered ys(1) _ j(1)] j(2) ys(2)
    by (auto simp: heap_update_def around_def edge_ok_def)
  have "vy_scheduler_update_lsm l s = Some (s\<lparr>vs_dump_heap := h, vs_compaction_heap := h'\<rparr>)"
    using h(1) h'(1) heaps_at_stray[OF assms] by (simp add: vy_scheduler_update_lsm_def)
  then show ?thesis
    using h(2-4) h'(2,3) by (auto simp: heaps_ok_def same_but_heaps_def)
qed

lemma heaps_at_set:
  assumes "heaps_ok R s" and "l \<in> R"
  shows "heaps_at l R (set_lsm l lsm s)"
proof -
  obtain xs where xs: "heap_repr (vs_dump_heap s) xs" "heap_ordered (dump_before s) xs" "set xs = R"
    using assms by (auto simp: heaps_ok_def)
  obtain i where i: "i < length xs" "xs ! i = l"
    using assms(2) xs(3) by (auto simp: in_set_conv_nth)
  have "around (dump_before (set_lsm l lsm s)) 0 xs i"
    by (rule around_changed[OF by_value_heap_order[OF before_order.heap_order_axioms] xs(2) _ i(1)])
      (use xs(1) i(2) in \<open>auto simp: heap_repr_def by_value_def set_lsm_def\<close>)
  then show ?thesis
    using assms(1) xs i by (auto simp: heaps_at_def heaps_ok_def set_lsm_def)
qed

text \<open>A change that the order does not see.\<close>

lemma heaps_ok_set:
  assumes "heaps_ok R s" and "\<And>k. k \<in> R \<Longrightarrow> vy_dump_before (lsm k) = vy_dump_before (vs_lsm s k)"
    and "\<And>k i. k \<in> R \<Longrightarrow> vy_dump_before i (lsm k) = vy_dump_before i (vs_lsm s k)"
  shows "heaps_ok R (s\<lparr>vs_lsm := lsm\<rparr>)"
proof -
  obtain xs where xs: "heap_repr (vs_dump_heap s) xs" "heap_ordered (dump_before s) xs" "set xs = R"
    using assms by (auto simp: heaps_ok_def)
  have "heap_ordered (by_value vy_dump_before lsm) xs"
    unfolding heap_from_def edge_ok_def by_value_def
  proof (intro allI impI)
    fix j assume j: "0 < j \<and> j < length xs \<and> 0 \<le> parent j"
    then have "xs ! j \<in> R" "xs ! parent j \<in> R" using xs(3) by auto
    then show "\<not> vy_dump_before (lsm (xs ! j)) (lsm (xs ! parent j))"
      using xs(2) j assms(2,3) unfolding heap_from_def edge_ok_def by_value_def by simp
  qed
  then show ?thesis using assms(1) xs by (auto simp: heaps_ok_def)
qed

lemma add_lsm_ok:
  assumes "heaps_ok R s" and "l \<notin> R" and "unat (hp_size (vs_dump_heap s)) + 1 < 2 ^ 31"
  shows "succeeds (\<lambda>r. fst r \<and> heaps_ok (insert l R) (snd r) \<and> same_but_heaps s (snd r)) (vy_scheduler_add_lsm True True True l s)"
proof -
  obtain xs where xs: "heap_repr (vs_dump_heap s) xs" "heap_ordered (dump_before s) xs" "set xs = R"
    using assms(1) unfolding heaps_ok_def by blast
  obtain ys where ys: "heap_repr (vs_compaction_heap s) ys" "set ys = R"
    using assms(1) unfolding heaps_ok_def by blast
  have len: "length ys = length xs" "Suc (length xs) < 2 ^ 31"
    using repr_card[OF xs(1)] repr_card[OF ys(1)] xs(1,3) ys(2) assms(3) unat_of_nat_u32[of "length xs"]
    by (auto simp: heap_repr_def)
  obtain h xs' where h: "heap_insert (dump_lt s) True 0 l (vs_dump_heap s) = Some (True, h)" "heap_repr h xs'"
      "heap_ordered (dump_before s) xs'" "set xs' = insert l R"
    using dump_heap.insert_ok[OF xs(1,2) _ len(2), of l True 0] assms(2) xs(3) by auto
  obtain h' ys' where h': "heap_insert (compaction_lt s) True 0 l (vs_compaction_heap s) = Some (True, h')" "heap_repr h' ys'"
      "set ys' = insert l R"
    using node_order.insert_ok[where lt = "compaction_lt s", OF unordered ys(1), of l True 0] assms(2) ys(2) len
    by (auto simp: heap_from_def edge_ok_def)
  have "vy_scheduler_add_lsm True True True l s = Some (True, s\<lparr>vs_dump_heap := h, vs_compaction_heap := h'\<rparr>)"
    using h(1) h'(1) heaps_ok_stray[OF assms(1), of l] assms(2) by (simp add: vy_scheduler_add_lsm_def)
  then show ?thesis
    using h(2-4) h'(2,3) by (auto simp: heaps_ok_def same_but_heaps_def)
qed

lemma delete_lsm_ok:
  assumes "heaps_ok R s" and "l \<in> R"
  shows "succeeds (\<lambda>s'. heaps_ok (R - {l}) s' \<and> same_but_heaps s s') (vy_scheduler_on_delete_lsm l s)"
proof -
  obtain xs where xs: "heap_repr (vs_dump_heap s) xs" "heap_ordered (dump_before s) xs" "set xs = R"
    using assms(1) unfolding heaps_ok_def by blast
  obtain ys where ys: "heap_repr (vs_compaction_heap s) ys" "set ys = R"
    using assms(1) unfolding heaps_ok_def by blast
  obtain h xs' where h: "heap_delete (dump_lt s) l (vs_dump_heap s) = Some h" "heap_repr h xs'" "heap_ordered (dump_before s) xs'"
      "set xs' = R - {l}"
    using dump_heap.delete_ok[OF xs(1,2), of l] assms(2) xs(3) by auto
  obtain h' ys' where h': "heap_delete (compaction_lt s) l (vs_compaction_heap s) = Some h'" "heap_repr h' ys'" "set ys' = R - {l}"
    using node_order.delete_ok[where lt = "compaction_lt s", OF unordered ys(1), of l] assms(2) ys(2)
    by (auto simp: heap_from_def edge_ok_def)
  have "vy_scheduler_on_delete_lsm l s = Some (s\<lparr>vs_dump_heap := h, vs_compaction_heap := h'\<rparr>)"
    using h(1) h'(1) heaps_ok_stray[OF assms(1), of l] assms(2) by (simp add: vy_scheduler_on_delete_lsm_def)
  then show ?thesis
    using h(2-4) h'(2,3) by (auto simp: heaps_ok_def same_but_heaps_def)
qed

section \<open>The LSM trees of the scheduler\<close>

abbreviation generation_of :: "vy_scheduler \<Rightarrow> nat \<Rightarrow> int" where
  "generation_of s l \<equiv> vy_lsm_generation (vs_lsm s l)"

definition dumping :: "nat set \<Rightarrow> vy_scheduler \<Rightarrow> nat set" where
  "dumping R s = {l\<in>R. lsm_is_dumping (vs_lsm s l)}"

definition pk_ok :: "nat set \<Rightarrow> (nat \<Rightarrow> vy_lsm) \<Rightarrow> nat \<Rightarrow> bool" where
  "pk_ok R lsm k \<longleftrightarrow> (case lsm_pk (lsm k) of
     None \<Rightarrow> lsm_index_id (lsm k) = 0 | Some p \<Rightarrow> lsm_index_id (lsm k) \<noteq> 0 \<and> p \<in> R \<and> lsm_index_id (lsm p) = 0)"

text \<open>The part of the invariant on one LSM tree, for a dump of the generation \<open>dg\<close>.\<close>

definition tree_ok :: "nat set \<Rightarrow> nat option \<Rightarrow> vy_scheduler \<Rightarrow> nat \<Rightarrow> bool" where
  "tree_ok R busy s l \<longleftrightarrow>
     lsm_wf (vs_generation s) (vs_next_mem s) (vs_lsm s l) \<and> vs_dump_generation s \<le> generation_of s l \<and> pk_ok R (vs_lsm s) l \<and>
     (lsm_is_dumping (vs_lsm s l) \<or> busy = Some l \<longrightarrow>
        vs_dump_generation s < vs_generation s \<and> generation_of s l = vs_dump_generation s) \<and>
     (busy = Some l \<longrightarrow> vy_lsm_free (vs_lsm s l)) \<and>
     lsm_pin_count (vs_lsm s l) = card {k\<in>dumping R s. lsm_pk (vs_lsm s k) = Some l} \<and>
     (\<forall>p\<in>R. lsm_pk (vs_lsm s l) = Some p \<longrightarrow> lsm_is_dumping (vs_lsm s p) \<or> busy = Some p \<longrightarrow>
        vs_dump_generation s < generation_of s l)"

definition trees_ok :: "nat set \<Rightarrow> nat option \<Rightarrow> vy_scheduler \<Rightarrow> bool" where
  "trees_ok R busy s \<longleftrightarrow>
     finite R \<and> (\<forall>l\<in>R. tree_ok R busy s l) \<and> (\<forall>l. busy = Some l \<longrightarrow> l \<in> R) \<and>
     vs_dump_generation s \<le> vs_generation s \<and> vs_dump_task_count s = card (dumping R s) \<and>
     (\<forall>g. Dump_Complete g \<in> set (vs_events s) \<longrightarrow> g < vs_dump_generation s)"

definition sched_ok :: "nat set \<Rightarrow> nat option \<Rightarrow> vy_scheduler \<Rightarrow> bool" where
  "sched_ok R busy s \<longleftrightarrow> heaps_ok R s \<and> trees_ok R busy s"

lemma trees_ok_same: "same_but_heaps s s' \<Longrightarrow> trees_ok R busy s' \<longleftrightarrow> trees_ok R busy s"
proof -
  assume same: "same_but_heaps s s'"
  obtain h h' where "s' = s\<lparr>vs_dump_heap := h, vs_compaction_heap := h'\<rparr>"
    using same unfolding same_but_heaps_def by blast
  then show ?thesis by (simp add: trees_ok_def tree_ok_def dumping_def)
qed

text \<open>After a change of an LSM tree, an update of the heaps is enough.\<close>

lemma update_lsm_sched:
  assumes "heaps_ok R s" and "l \<in> R" and "trees_ok R busy (set_lsm l lsm s)"
  shows "succeeds (sched_ok R busy) (vy_scheduler_update_lsm l (set_lsm l lsm s))"
  using update_lsm_ok[OF heaps_at_set[OF assms(1,2)], of lsm] trees_ok_same assms(3)
  by (auto simp: sched_ok_def elim!: succeeds_mono)

text \<open>A change of an LSM tree that keeps what the scheduler looks at.\<close>

definition lsm_like :: "vy_lsm \<Rightarrow> vy_lsm \<Rightarrow> bool" where
  "lsm_like lsm lsm' \<longleftrightarrow>
     lsm_index_id lsm' = lsm_index_id lsm \<and> lsm_pk lsm' = lsm_pk lsm \<and> lsm_is_dumping lsm' = lsm_is_dumping lsm \<and>
     lsm_pin_count lsm' = lsm_pin_count lsm \<and> vy_lsm_generation lsm' = vy_lsm_generation lsm"

lemma lsm_like_before:
  assumes "lsm_like lsm lsm'"
  shows "vy_dump_before lsm' = vy_dump_before lsm" "vy_dump_before i lsm' = vy_dump_before i lsm"
  using assms by (auto simp: fun_eq_iff vy_dump_before_def vy_lsm_free_def lsm_like_def)

lemma lsm_wf_mono: "lsm_wf g n lsm \<Longrightarrow> g \<le> g' \<Longrightarrow> n \<le> n' \<Longrightarrow> lsm_wf g' n' lsm"
  by (auto simp: lsm_wf_def)

lemma trees_ok_cong:
  assumes ok: "trees_ok R busy s" and like: "\<And>k. lsm_like (vs_lsm s k) (vs_lsm s' k)"
    and wf: "\<And>k. k \<in> R \<Longrightarrow> lsm_wf (vs_generation s') (vs_next_mem s') (vs_lsm s' k)"
    and same: "vs_generation s \<le> vs_generation s'" "vs_dump_generation s' = vs_dump_generation s"
      "vs_dump_task_count s' = vs_dump_task_count s" "set (vs_events s') \<subseteq> insert Dump_Signal (set (vs_events s))"
  shows "trees_ok R busy s'"
proof -
  note eqs = like[unfolded lsm_like_def, THEN conjunct1] like[unfolded lsm_like_def, THEN conjunct2, THEN conjunct1]
    like[unfolded lsm_like_def, THEN conjunct2, THEN conjunct2, THEN conjunct1]
    like[unfolded lsm_like_def, THEN conjunct2, THEN conjunct2, THEN conjunct2, THEN conjunct1]
    like[unfolded lsm_like_def, THEN conjunct2, THEN conjunct2, THEN conjunct2, THEN conjunct2]
  have dumping: "dumping R s' = dumping R s"
    by (simp add: dumping_def eqs)
  have "tree_ok R busy s' k" if "k \<in> R" for k
  proof -
    have "tree_ok R busy s k" using ok that by (simp add: trees_ok_def)
    then show ?thesis
      using wf[OF that] same(1,2) unfolding tree_ok_def dumping pk_ok_def vy_lsm_free_def eqs by auto
  qed
  then show ?thesis
    using ok same dumping by (auto simp: trees_ok_def)
qed

lemma trees_ok_wf: "trees_ok R busy s \<Longrightarrow> k \<in> R \<Longrightarrow> lsm_wf (vs_generation s) (vs_next_mem s) (vs_lsm s k)"
  by (simp add: trees_ok_def tree_ok_def)

lemma sched_ok_like:
  assumes "sched_ok R busy s" and "lsm_like (vs_lsm s l) lsm" and "lsm_wf (vs_generation s) n lsm" and "vs_next_mem s \<le> n"
  shows "sched_ok R busy ((set_lsm l lsm s)\<lparr>vs_next_mem := n\<rparr>)"
proof -
  have ok: "heaps_ok R s" "trees_ok R busy s" using assms(1) by (simp_all add: sched_ok_def)
  have "heaps_ok R (s\<lparr>vs_lsm := (vs_lsm s)(l := lsm)\<rparr>)"
    by (rule heaps_ok_set[OF ok(1)]) (simp_all add: lsm_like_before[OF assms(2)])
  then have "heaps_ok R ((set_lsm l lsm s)\<lparr>vs_next_mem := n\<rparr>)"
    by (simp add: heaps_ok_def set_lsm_def)
  moreover have "trees_ok R busy ((set_lsm l lsm s)\<lparr>vs_next_mem := n\<rparr>)"
  proof (rule trees_ok_cong[OF ok(2)])
    show "lsm_wf (vs_generation ((set_lsm l lsm s)\<lparr>vs_next_mem := n\<rparr>)) (vs_next_mem ((set_lsm l lsm s)\<lparr>vs_next_mem := n\<rparr>))
        (vs_lsm ((set_lsm l lsm s)\<lparr>vs_next_mem := n\<rparr>) k)" if "k \<in> R" for k
      using assms(3) lsm_wf_mono[OF trees_ok_wf[OF ok(2) that] order_refl assms(4)] by (simp add: set_lsm_def)
  qed (use assms(2) in \<open>auto simp: set_lsm_def lsm_like_def\<close>)
  ultimately show ?thesis by (simp add: sched_ok_def)
qed

section \<open>Steps of the invariant\<close>

lemma tree_okD: "trees_ok R busy s \<Longrightarrow> k \<in> R \<Longrightarrow> tree_ok R busy s k"
  by (simp add: trees_ok_def)

lemma lsm_generation_le: "lsm_wf g n lsm \<Longrightarrow> vy_lsm_generation lsm \<le> g"
  using lsm_generation_least[of g n lsm "lsm_mem lsm"] by (auto simp: lsm_wf_def)

lemma pk_neq: "pk_ok R lsm l \<Longrightarrow> lsm_pk (lsm l) = Some p \<Longrightarrow> p \<noteq> l"
  by (auto simp: pk_ok_def)

text \<open>The fiber takes the LSM tree on top of the heap, and drops it.\<close>

lemma trees_ok_take:
  assumes ok: "trees_ok R None s" and l: "l \<in> R" "vy_lsm_free (vs_lsm s l)" "generation_of s l = vs_dump_generation s"
    and "vs_dump_generation s < vs_generation s" and least: "\<And>k. k \<in> R \<Longrightarrow> \<not> vy_dump_before (vs_lsm s k) (vs_lsm s l)"
  shows "trees_ok R (Some l) s"
proof -
  have fin: "finite R" using ok by (simp add: trees_ok_def)
  have new: "vs_dump_generation s < generation_of s k" if k: "k \<in> R" "lsm_pk (vs_lsm s k) = Some l" for k
  proof -
    have t: "tree_ok R None s k" "tree_ok R None s l" using ok l k tree_okD by blast+
    have "{j\<in>dumping R s. lsm_pk (vs_lsm s j) = Some l} = {}"
      using t(2) l(2) fin by (simp add: tree_ok_def vy_lsm_free_def dumping_def)
    then have idle: "\<not> lsm_is_dumping (vs_lsm s k)" using k by (auto simp: dumping_def)
    have none: "{j\<in>dumping R s. lsm_pk (vs_lsm s j) = Some k} = {}"
    proof -
      have False if "j \<in> dumping R s" "lsm_pk (vs_lsm s j) = Some k" for j
        using tree_okD[OF ok, of j] that t(1) k(2) by (auto simp: dumping_def tree_ok_def pk_ok_def)
      then show ?thesis by blast
    qed
    have "lsm_pin_count (vs_lsm s k) = card {j\<in>dumping R s. lsm_pk (vs_lsm s j) = Some k}"
      using t(1) unfolding tree_ok_def by blast
    then have "vy_lsm_free (vs_lsm s k)"
      unfolding none using idle by (simp add: vy_lsm_free_def)
    then have "\<not> generation_of s k < generation_of s l"
        "generation_of s k = generation_of s l \<Longrightarrow> \<not> lsm_index_id (vs_lsm s k) > lsm_index_id (vs_lsm s l)"
      using least[OF k(1)] l(2) by (auto simp: vy_dump_before_def)
    moreover have "lsm_index_id (vs_lsm s k) \<noteq> 0" "lsm_index_id (vs_lsm s l) = 0"
      using t(1) k(2) by (auto simp: tree_ok_def pk_ok_def)
    ultimately show ?thesis using l(3) by linarith
  qed
  have "tree_ok R (Some l) s k" if "k \<in> R" for k
    using tree_okD[OF ok that] l assms(5) new that by (auto simp: tree_ok_def)
  then show ?thesis using ok l(1) by (simp add: trees_ok_def)
qed

lemma trees_ok_drop:
  assumes ok: "trees_ok R busy s"
  shows "trees_ok R None s"
proof -
  have "tree_ok R None s k" if "k \<in> R" for k
    using tree_okD[OF ok that] by (auto simp: tree_ok_def)
  then show ?thesis using ok by (simp add: trees_ok_def)
qed

text \<open>An LSM tree that is not being dumped gets rid of trees.\<close>

lemma trees_ok_raise:
  assumes ok: "trees_ok R (Some l) s" and wf: "lsm_wf (vs_generation s) (vs_next_mem s) lsm" "vs_dump_generation s \<le> vy_lsm_generation lsm"
    and same: "lsm_index_id lsm = lsm_index_id (vs_lsm s l)" "lsm_pk lsm = lsm_pk (vs_lsm s l)"
      "lsm_is_dumping lsm = lsm_is_dumping (vs_lsm s l)" "lsm_pin_count lsm = lsm_pin_count (vs_lsm s l)"
    and gen: "generation_of s l \<le> vy_lsm_generation lsm"
  shows "trees_ok R None (set_lsm l lsm s)"
proof -
  let ?s = "set_lsm l lsm s"
  have dumping: "dumping R ?s = dumping R s" using same(3) by (auto simp: dumping_def set_lsm_def)
  have pins: "{j\<in>dumping R s. lsm_pk (vs_lsm ?s j) = Some k} = {j\<in>dumping R s. lsm_pk (vs_lsm s j) = Some k}" for k
    using same(2) by (auto simp: set_lsm_def)
  have "\<not> lsm_is_dumping (vs_lsm s l)"
    using ok by (auto simp: trees_ok_def tree_ok_def vy_lsm_free_def)
  then have "tree_ok R None ?s k" if "k \<in> R" for k
    using tree_okD[OF ok that] wf same gen unfolding tree_ok_def dumping pins pk_ok_def
    by (auto simp: set_lsm_def split: option.splits)
  then show ?thesis using ok dumping by (simp add: trees_ok_def) (simp add: set_lsm_def)
qed


text \<open>The state after the start of a dump task, and after the end of one, heaps apart.\<close>

definition task_started :: "nat \<Rightarrow> vy_scheduler \<Rightarrow> nat \<Rightarrow> vy_lsm" where
  "task_started l s = (\<lambda>k. if k = l then (vs_lsm s l)\<lparr>lsm_is_dumping := True\<rparr>
     else if lsm_pk (vs_lsm s l) = Some k then (vs_lsm s k)\<lparr>lsm_pin_count := lsm_pin_count (vs_lsm s k) + 1\<rparr>
     else vs_lsm s k)"

definition task_ended :: "nat \<Rightarrow> vy_lsm \<Rightarrow> vy_scheduler \<Rightarrow> nat \<Rightarrow> vy_lsm" where
  "task_ended l lsm s = (\<lambda>k. if k = l then lsm
     else if lsm_pk (vs_lsm s l) = Some k then (vs_lsm s k)\<lparr>lsm_pin_count := lsm_pin_count (vs_lsm s k) - 1\<rparr>
     else vs_lsm s k)"

lemma lsm_field_simps [simp]:
  "vy_lsm_generation (lsm\<lparr>lsm_is_dumping := b\<rparr>) = vy_lsm_generation lsm"
  "vy_lsm_generation (lsm\<lparr>lsm_pin_count := c\<rparr>) = vy_lsm_generation lsm"
  "vy_lsm_generation (lsm\<lparr>lsm_range_top := t\<rparr>) = vy_lsm_generation lsm"
  "vy_lsm_generation (lsm\<lparr>lsm_is_dropped := b\<rparr>) = vy_lsm_generation lsm"
  "lsm_wf g n (lsm\<lparr>lsm_is_dumping := b\<rparr>) = lsm_wf g n lsm"
  "lsm_wf g n (lsm\<lparr>lsm_pin_count := c\<rparr>) = lsm_wf g n lsm"
  "lsm_wf g n (lsm\<lparr>lsm_range_top := t\<rparr>) = lsm_wf g n lsm"
  "lsm_wf g n (lsm\<lparr>lsm_is_dropped := b\<rparr>) = lsm_wf g n lsm"
  by (simp_all add: vy_lsm_generation_def lsm_wf_def)

lemma task_started_fields:
  "lsm_pk (task_started l s k) = lsm_pk (vs_lsm s k)" "lsm_index_id (task_started l s k) = lsm_index_id (vs_lsm s k)"
  "vy_lsm_generation (task_started l s k) = generation_of s k" "lsm_wf g n (task_started l s k) = lsm_wf g n (vs_lsm s k)"
  "lsm_is_dumping (task_started l s k) \<longleftrightarrow> k = l \<or> lsm_is_dumping (vs_lsm s k)"
  by (simp_all add: task_started_def)

lemma trees_ok_started:
  assumes ok: "trees_ok R (Some l) s" and s': "vs_lsm s' = task_started l s" "vs_generation s' = vs_generation s"
      "vs_dump_generation s' = vs_dump_generation s" "vs_next_mem s' = vs_next_mem s" "vs_events s' = vs_events s"
      "vs_dump_task_count s' = vs_dump_task_count s + 1"
  shows "trees_ok R None s'" "dumping R s' = insert l (dumping R s)" "l \<notin> dumping R s"
proof -
  have l: "l \<in> R" using ok by (simp add: trees_ok_def)
  then have free: "vy_lsm_free (vs_lsm s l)" and pk: "pk_ok R (vs_lsm s) l" using ok by (simp_all add: trees_ok_def tree_ok_def)
  show fresh: "l \<notin> dumping R s" using free by (simp add: vy_lsm_free_def dumping_def)
  have fin: "finite (dumping R s)" using ok by (simp add: trees_ok_def dumping_def)
  show D: "dumping R s' = insert l (dumping R s)" using l by (auto simp: dumping_def s' task_started_fields)
  have pins: "{j\<in>dumping R s'. lsm_pk (vs_lsm s' j) = Some k} =
      (if lsm_pk (vs_lsm s l) = Some k then insert l {j\<in>dumping R s. lsm_pk (vs_lsm s j) = Some k}
       else {j\<in>dumping R s. lsm_pk (vs_lsm s j) = Some k})" for k
    unfolding D by (auto simp: s' task_started_fields)
  have count: "lsm_pin_count (vs_lsm s' k) = card {j\<in>dumping R s'. lsm_pk (vs_lsm s' j) = Some k}" if "k \<in> R" for k
  proof -
    have "lsm_pin_count (vs_lsm s k) = card {j\<in>dumping R s. lsm_pk (vs_lsm s j) = Some k}"
      using tree_okD[OF ok that] by (simp add: tree_ok_def)
    then show ?thesis unfolding pins using fresh fin pk_neq[OF pk] by (auto simp: s' task_started_def)
  qed
  have "tree_ok R None s' k" if k: "k \<in> R" for k
  proof -
    have t: "tree_ok R (Some l) s k" "tree_ok R (Some l) s l" using tree_okD[OF ok] k l by blast+
    show ?thesis
      unfolding tree_ok_def using count[OF k] t
      by (auto simp: s' task_started_fields pk_ok_def tree_ok_def split: option.splits)
  qed
  then show "trees_ok R None s'"
    using ok fin fresh D s' by (simp add: trees_ok_def)
qed

lemma trees_ok_ended:
  assumes ok: "trees_ok R None s" and l: "l \<in> dumping R s" and s': "vs_lsm s' = task_ended l lsm s" "vs_generation s' = vs_generation s"
      "vs_dump_generation s' = vs_dump_generation s" "vs_next_mem s' = vs_next_mem s" "vs_events s' = vs_events s"
      "vs_dump_task_count s' = vs_dump_task_count s - 1"
    and wf: "lsm_wf (vs_generation s) (vs_next_mem s) lsm" "vs_dump_generation s \<le> vy_lsm_generation lsm"
    and same: "lsm_index_id lsm = lsm_index_id (vs_lsm s l)" "lsm_pk lsm = lsm_pk (vs_lsm s l)"
      "\<not> lsm_is_dumping lsm" "lsm_pin_count lsm = lsm_pin_count (vs_lsm s l)"
  shows "trees_ok R None s'" "dumping R s' = dumping R s - {l}"
proof -
  have lR: "l \<in> R" and pk: "pk_ok R (vs_lsm s) l" using ok l by (auto simp: trees_ok_def tree_ok_def dumping_def)
  have fin: "finite (dumping R s)" using ok by (simp add: trees_ok_def dumping_def)
  have fields: "lsm_pk (vs_lsm s' k) = lsm_pk (vs_lsm s k)" "lsm_index_id (vs_lsm s' k) = lsm_index_id (vs_lsm s k)"
      "lsm_is_dumping (vs_lsm s' k) \<longleftrightarrow> k \<noteq> l \<and> lsm_is_dumping (vs_lsm s k)" for k
    using same by (auto simp: s' task_ended_def)
  have gen: "generation_of s' k = (if k = l then vy_lsm_generation lsm else generation_of s k)" for k
    by (simp add: s' task_ended_def)
  have wf': "lsm_wf (vs_generation s) (vs_next_mem s) (vs_lsm s' k)" if "k \<in> R" for k
    using trees_ok_wf[OF ok that] wf by (simp add: s' task_ended_def)
  show D: "dumping R s' = dumping R s - {l}" by (auto simp: dumping_def fields)
  have pins: "{j\<in>dumping R s'. lsm_pk (vs_lsm s' j) = Some k} = {j\<in>dumping R s. lsm_pk (vs_lsm s j) = Some k} - {l}" for k
    unfolding D by (auto simp: fields)
  have count: "lsm_pin_count (vs_lsm s' k) = card {j\<in>dumping R s'. lsm_pk (vs_lsm s' j) = Some k}" if "k \<in> R" for k
  proof -
    have old: "lsm_pin_count (vs_lsm s k) = card {j\<in>dumping R s. lsm_pk (vs_lsm s j) = Some k}"
      using tree_okD[OF ok that] by (simp add: tree_ok_def)
    show ?thesis
    proof (cases "lsm_pk (vs_lsm s l) = Some k")
      case True
      then have "k \<noteq> l" using pk_neq[OF pk] by blast
      then show ?thesis unfolding pins using True old l fin by (simp add: s' task_ended_def)
    next
      case False
      then show ?thesis unfolding pins using old same(4) by (auto simp: s' task_ended_def intro!: arg_cong[where f = card])
    qed
  qed
  have "tree_ok R None s' k" if k: "k \<in> R" for k
  proof -
    have t: "tree_ok R None s k" using tree_okD[OF ok k] .
    show ?thesis
      unfolding tree_ok_def using count[OF k] wf'[OF k] t wf(2) l
      by (auto simp: s'(2-) fields gen pk_ok_def tree_ok_def dumping_def split: option.splits)
  qed
  then show "trees_ok R None s'"
    using ok fin l D s' by (simp add: trees_ok_def)
qed

lemma trees_ok_complete:
  assumes ok: "trees_ok R None s" and none: "dumping R s = {}" and g: "\<And>k. k \<in> R \<Longrightarrow> g \<le> generation_of s k"
      "vs_dump_generation s \<le> g" "g \<le> vs_generation s"
    and events: "set evs \<subseteq> {Dump_Signal, Dump_Complete (g - 1)}"
  shows "trees_ok R None (s\<lparr>vs_dump_generation := g, vs_dump_count := n, vs_events := evs @ vs_events s\<rparr>)"
proof -
  let ?s = "s\<lparr>vs_dump_generation := g, vs_dump_count := n, vs_events := evs @ vs_events s\<rparr>"
  have D: "dumping R ?s = {}" "\<And>k. k \<in> R \<Longrightarrow> \<not> lsm_is_dumping (vs_lsm s k)" using none by (auto simp: dumping_def)
  have "tree_ok R None ?s k" if k: "k \<in> R" for k
    using tree_okD[OF ok k] D g(1)[OF k] none k by (auto simp: tree_ok_def)
  moreover have "x < g" if "Dump_Complete x \<in> set (evs @ vs_events s)" for x
    using that events ok g(2) by (fastforce simp: trees_ok_def)
  ultimately show ?thesis
    using ok none D(1) g(3) by (simp add: trees_ok_def)
qed


lemma trees_ok_add:
  assumes ok: "trees_ok R busy s" and l: "l \<notin> R" and pk: "case pk of None \<Rightarrow> iid = 0 | Some p \<Rightarrow> iid \<noteq> 0 \<and> p \<in> R \<and> lsm_index_id (vs_lsm s p) = 0"
  defines "s' \<equiv> (set_lsm l (vy_lsm_new iid pk (vs_next_mem s) (vs_generation s)) s)\<lparr>vs_next_mem := vs_next_mem s + 1\<rparr>"
  shows "trees_ok (insert l R) busy s'" "dumping (insert l R) s' = dumping R s"
proof -
  let ?lsm = "vy_lsm_new iid pk (vs_next_mem s) (vs_generation s)"
  have s': "vs_lsm s' = (vs_lsm s)(l := ?lsm)" "vs_generation s' = vs_generation s" "vs_dump_generation s' = vs_dump_generation s"
      "vs_next_mem s' = vs_next_mem s + 1" "vs_events s' = vs_events s" "vs_dump_task_count s' = vs_dump_task_count s"
    by (simp_all add: s'_def set_lsm_def)
  have new: "lsm_pk ?lsm = pk" "lsm_index_id ?lsm = iid" "vy_lsm_generation ?lsm = vs_generation s"
      "lsm_wf (vs_generation s) (vs_next_mem s + 1) ?lsm" "\<not> lsm_is_dumping ?lsm" "lsm_pin_count ?lsm = 0"
    by (simp_all add: vy_lsm_new_def vy_mem_new_def vy_lsm_generation_def lsm_wf_def)
  show D: "dumping (insert l R) s' = dumping R s" using l new by (auto simp: dumping_def s')
  have pks: "lsm_pk (vs_lsm s k) \<noteq> Some l" if "k \<in> R" for k
    using tree_okD[OF ok that] l by (auto simp: tree_ok_def pk_ok_def)
  have pins: "{j\<in>dumping (insert l R) s'. lsm_pk (vs_lsm s' j) = Some k} = {j\<in>dumping R s. lsm_pk (vs_lsm s j) = Some k}" for k
    unfolding D using l by (auto simp: s' dumping_def)
  have none: "{j\<in>dumping R s. lsm_pk (vs_lsm s j) = Some l} = {}" using pks by (auto simp: dumping_def)
  have busy: "busy \<noteq> Some l" using ok l by (auto simp: trees_ok_def)
  have dg: "vs_dump_generation s \<le> vs_generation s" using ok by (simp add: trees_ok_def)
  have "pk \<noteq> Some l" using l pk by auto
  moreover have "vs_dump_generation s < vs_generation s" if "p \<in> R" "lsm_is_dumping (vs_lsm s p) \<or> busy = Some p" for p
    using tree_okD[OF ok that(1)] that(2) by (auto simp: tree_ok_def)
  ultimately have "tree_ok (insert l R) busy s' l"
    unfolding tree_ok_def pins none using new busy dg pk by (auto simp: s' pk_ok_def split: option.splits)
  moreover have "tree_ok (insert l R) busy s' k" if k: "k \<in> R" for k
  proof -
    have "k \<noteq> l" using k l by blast
    then show ?thesis
      using tree_okD[OF ok k] lsm_wf_mono[OF trees_ok_wf[OF ok k] order_refl, of "vs_next_mem s + 1"] pks[OF k] new(5) l
      unfolding tree_ok_def pins by (auto simp: s' pk_ok_def split: option.splits)
  qed
  ultimately show "trees_ok (insert l R) busy s'"
    using ok D s' by (auto simp: trees_ok_def)
qed

lemma trees_ok_delete:
  assumes ok: "trees_ok R busy s" and l: "l \<notin> dumping R s" "busy \<noteq> Some l" "\<And>k. k \<in> R \<Longrightarrow> lsm_pk (vs_lsm s k) \<noteq> Some l"
  shows "trees_ok (R - {l}) busy s" "dumping (R - {l}) s = dumping R s"
proof -
  show D: "dumping (R - {l}) s = dumping R s" using l(1) by (auto simp: dumping_def)
  have "tree_ok (R - {l}) busy s k" if k: "k \<in> R - {l}" for k
    using tree_okD[OF ok, of k] k l(3)[of k] unfolding tree_ok_def D by (auto simp: pk_ok_def split: option.splits)
  then show "trees_ok (R - {l}) busy s" using ok D l(2) by (auto simp: trees_ok_def)
qed

section \<open>The operations keep the invariant\<close>

text \<open>\<open>D\<close> are the LSM trees that are being dumped, \<open>busy\<close> is the one for which the fiber makes a task.\<close>

definition sched_inv :: "nat set \<Rightarrow> nat set \<Rightarrow> nat option \<Rightarrow> vy_task list \<Rightarrow> nat \<Rightarrow> vy_scheduler \<Rightarrow> bool" where
  "sched_inv R D busy processed n s \<longleftrightarrow>
     heaps_ok R s \<and> trees_ok R busy s \<and> dumping R s = D \<and> vs_processed s = processed \<and> vs_tasks_inprogress s = n"

lemma sched_inv_heaps:
  assumes "heaps_ok R s' \<and> same_but_heaps s s'" and "trees_ok R busy s" "dumping R s = D" "vs_processed s = p" "vs_tasks_inprogress s = n"
  shows "sched_inv R D busy p n s'"
proof -
  obtain h h' where s': "s' = s\<lparr>vs_dump_heap := h, vs_compaction_heap := h'\<rparr>"
    using assms(1) unfolding same_but_heaps_def by blast
  have "dumping R s' = dumping R s" by (simp add: s' dumping_def)
  then show ?thesis
    using assms trees_ok_same[OF conjunct2[OF assms(1)]] by (simp add: sched_inv_def) (simp add: s')
qed

lemma sched_inv_same:
  assumes "sched_inv R D busy p n s" and "heaps_ok R s'" and "same_but_heaps s s'"
  shows "sched_inv R D busy p n s'"
  by (rule sched_inv_heaps[of R s' s]) (use assms in \<open>simp_all add: sched_inv_def\<close>)

text \<open>The other fields.\<close>

lemma sched_inv_cong:
  assumes ok: "sched_inv R D busy p n s" and "vs_lsm s' = vs_lsm s" "vs_dump_heap s' = vs_dump_heap s"
      "vs_compaction_heap s' = vs_compaction_heap s" "vs_next_mem s' = vs_next_mem s"
      "vs_generation s \<le> vs_generation s'" "vs_dump_generation s' = vs_dump_generation s"
      "vs_dump_task_count s' = vs_dump_task_count s" "set (vs_events s') \<subseteq> insert Dump_Signal (set (vs_events s))"
      "vs_processed s' = p'" "vs_tasks_inprogress s' = n'"
  shows "sched_inv R D busy p' n' s'"
proof -
  have "trees_ok R busy s" using ok by (simp add: sched_inv_def)
  then have "trees_ok R busy s'"
  proof (rule trees_ok_cong)
    show "lsm_wf (vs_generation s') (vs_next_mem s') (vs_lsm s' k)" if "k \<in> R" for k
      using lsm_wf_mono[OF trees_ok_wf[OF \<open>trees_ok R busy s\<close> that] assms(6) order_refl] by (simp add: assms(2,5))
  qed (use assms(2-9) in \<open>simp_all add: lsm_like_def\<close>)
  moreover have "dumping R s' = dumping R s" "heaps_ok R s' = heaps_ok R s"
    using assms(2-4) by (simp_all add: dumping_def heaps_ok_def)
  ultimately show ?thesis using ok assms(10,11) by (simp add: sched_inv_def)
qed

lemma sched_inv_like:
  assumes ok: "sched_inv R D busy p n s" and like: "lsm_like (vs_lsm s l) lsm" and "lsm_wf (vs_generation s) i lsm" "vs_next_mem s \<le> i"
  shows "sched_inv R D busy p n ((set_lsm l lsm s)\<lparr>vs_next_mem := i\<rparr>)"
proof -
  have "dumping R ((set_lsm l lsm s)\<lparr>vs_next_mem := i\<rparr>) = dumping R s"
    using like by (auto simp: dumping_def set_lsm_def lsm_like_def)
  then show ?thesis
    using ok sched_ok_like[OF _ like assms(3,4), of R busy] by (simp add: sched_inv_def sched_ok_def) (simp add: set_lsm_def)
qed

lemma sched_inv_like':
  assumes "sched_inv R D busy p n s" and "lsm_like (vs_lsm s l) lsm" and "lsm_wf (vs_generation s) (vs_next_mem s) lsm"
  shows "sched_inv R D busy p n (set_lsm l lsm s)"
  using sched_inv_like[OF assms order_refl] by (simp add: set_lsm_def)

lemma rotate_like:
  assumes "vy_lsm_rotate_mem memory n g lsm = Some lsm'" and "lsm_wf g n lsm"
  shows "lsm_like lsm lsm'" "lsm_wf g (n + 1) lsm'"
proof -
  have lsm': "lsm' = lsm\<lparr>lsm_sealed := lsm_mem lsm # lsm_sealed lsm, lsm_mem := vy_mem_new n g\<rparr>"
    using assms(1) by (simp add: vy_lsm_rotate_mem_def split: if_splits)
  show "lsm_like lsm lsm'" by (simp add: lsm' lsm_like_def vy_lsm_generation_def)
  show "lsm_wf g (n + 1) lsm'"
    using assms(2) by (fastforce simp: lsm' lsm_wf_def vy_mem_new_def)
qed

lemma vy_tx_write_prepare_inv:
  assumes "sched_inv R D busy p n s" and "l \<in> R"
  shows "sched_inv R D busy p n (snd (vy_tx_write_prepare schema memory l s))"
proof -
  have "trees_ok R busy s" using assms(1) by (simp add: sched_inv_def)
  then have "lsm_wf (vs_generation s) (vs_next_mem s) (vs_lsm s l)" using trees_ok_wf assms(2) by blast
  then show ?thesis
    using assms(1) sched_inv_like rotate_like by (auto simp: vy_tx_write_prepare_def split: option.split)
qed

lemma in_progress_ok:
  assumes "sched_inv R D busy p n s"
  shows "vy_scheduler_dump_in_progress s = Some (vs_dump_generation s < vs_generation s)"
  using assms by (simp add: vy_scheduler_dump_in_progress_def c_assert_def sched_inv_def trees_ok_def)

lemma round_begin_inv:
  assumes inv: "sched_inv R D busy p n s"
  shows "succeeds (sched_inv R D busy p n) (vy_scheduler_trigger_dump s)"
    and "succeeds (sched_inv R D busy p n) (vy_scheduler_dump_begin s)"
    and "\<not> vs_checkpoint_in_progress s \<Longrightarrow> succeeds (\<lambda>r. sched_inv R D busy p n (snd r)) (vy_scheduler_begin_checkpoint is_scheduled s)"
proof -
  have pn: "vs_processed s = p" "vs_tasks_inprogress s = n" using inv by (simp_all add: sched_inv_def)
  show "succeeds (sched_inv R D busy p n) (vy_scheduler_trigger_dump s)"
    unfolding vy_scheduler_trigger_dump_def in_progress_ok[OF inv]
    by (auto simp: succeeds_if pn inv intro!: sched_inv_cong[OF inv])
  show "succeeds (sched_inv R D busy p n) (vy_scheduler_dump_begin s)"
    unfolding vy_scheduler_dump_begin_def in_progress_ok[OF inv]
    by (auto simp: succeeds_if pn inv intro!: sched_inv_cong[OF inv])
  assume "\<not> vs_checkpoint_in_progress s"
  moreover have inv': "sched_inv R D busy p n (s\<lparr>vs_is_throttled := False\<rparr>)"
    by (rule sched_inv_cong[OF inv]) (auto simp: pn)
  ultimately show "succeeds (\<lambda>r. sched_inv R D busy p n (snd r)) (vy_scheduler_begin_checkpoint is_scheduled s)"
    unfolding vy_scheduler_begin_checkpoint_def Let_def
    by (auto simp: in_progress_ok[OF inv'] succeeds_if pn inv intro!: sched_inv_cong[OF inv])
qed

lemma vy_scheduler_end_checkpoint_inv:
  assumes inv: "sched_inv R D busy p n s"
  shows "succeeds (sched_inv R D busy p n) (vy_scheduler_end_checkpoint s)"
proof -
  have "sched_inv R D busy p n (s\<lparr>vs_checkpoint_in_progress := False\<rparr>)"
    by (rule sched_inv_cong[OF inv]) (use inv in \<open>auto simp: sched_inv_def\<close>)
  then show ?thesis
    using inv round_begin_inv(1) by (simp add: vy_scheduler_end_checkpoint_def succeeds_if Let_def)
qed

lemma vy_scheduler_force_compaction_inv:
  assumes inv: "sched_inv R D busy p n s" and l: "l \<in> R"
  shows "succeeds (sched_inv R D busy p n) (vy_scheduler_force_compaction priority l s)"
proof -
  let ?lsm = "(vs_lsm s l)\<lparr>lsm_range_top := priority\<rparr>"
  have "heaps_ok R s" "trees_ok R busy s" using inv by (simp_all add: sched_inv_def)
  note up = update_lsm_ok[OF heaps_at_set[OF this(1) l, of ?lsm]] and wf = trees_ok_wf[OF this(2) l]
  have "sched_inv R D busy p n (set_lsm l ?lsm s)"
    by (rule sched_inv_like'[OF inv]) (simp_all add: lsm_like_def wf)
  then show ?thesis
    unfolding vy_scheduler_force_compaction_def using up sched_inv_same by (blast intro: succeeds_mono)
qed

text \<open>The end of a dump round.\<close>

lemma trees_ok_free:
  assumes "trees_ok R busy s" and "dumping R s = {}" and "l \<in> R"
  shows "vy_lsm_free (vs_lsm s l)"
proof -
  have "lsm_pin_count (vs_lsm s l) = 0" using tree_okD[OF assms(1,3)] assms(2) by (simp add: tree_ok_def)
  then show ?thesis using assms(2,3) by (auto simp: vy_lsm_free_def dumping_def)
qed

lemma vy_scheduler_complete_dump_inv:
  assumes inv: "sched_inv R D None p n s" and "vs_dump_generation s < vs_generation s"
  shows "succeeds (sched_inv R D None p n) (vy_scheduler_complete_dump s)"
proof -
  have ok: "heaps_ok R s" "trees_ok R None s" "dumping R s = D" "vs_processed s = p" "vs_tasks_inprogress s = n"
    using inv by (simp_all add: sched_inv_def)
  show ?thesis
  proof (cases "vs_dump_task_count s > 0")
    case False
    moreover have "finite (dumping R s)" using ok(2) by (simp add: trees_ok_def dumping_def)
    ultimately have none: "dumping R s = {}" using ok(2) by (simp add: trees_ok_def)
    have upd: "sched_inv R D None p n (s\<lparr>vs_dump_generation := g, vs_dump_count := c, vs_events := evs @ vs_events s\<rparr>)"
      if "\<And>k. k \<in> R \<Longrightarrow> g \<le> generation_of s k" "vs_dump_generation s \<le> g" "g \<le> vs_generation s"
        "set evs \<subseteq> {Dump_Signal, Dump_Complete (g - 1)}" for g c evs
      using trees_ok_complete[OF ok(2) none that] ok by (simp add: sched_inv_def heaps_ok_def dumping_def)
    from ok(1) show ?thesis
    proof (cases rule: heaps_ok_top)
      case empty
      then show ?thesis
        using upd[of "vs_generation s" "[Dump_Signal, Dump_Complete (vs_generation s - 1)]" "vs_dump_count s + 1"] inv assms(2) False
        by (simp add: vy_scheduler_complete_dump_def succeeds_if c_assert_def Let_def)
    next
      case (top l)
      have least: "generation_of s l \<le> generation_of s k" if "k \<in> R" for k
        using top(3)[OF that] trees_ok_free[OF ok(2) none] that top(1) by (auto simp: vy_dump_before_def)
      have "vs_dump_generation s \<le> generation_of s l" "generation_of s l \<le> vs_generation s"
        using tree_okD[OF ok(2) top(1)] lsm_generation_le[OF trees_ok_wf[OF ok(2) top(1)]] by (simp_all add: tree_ok_def)
      then show ?thesis
        using upd[of "generation_of s l" "[Dump_Signal, Dump_Complete (generation_of s l - 1)]" "vs_dump_count s + 1"]
          least inv assms(2) False top(2)
        by (simp add: vy_scheduler_complete_dump_def succeeds_if c_assert_def Let_def)
    qed
  qed (use inv assms(2) in \<open>simp add: vy_scheduler_complete_dump_def succeeds_if c_assert_def\<close>)
qed


text \<open>Pinning.\<close>

lemma pin_ok:
  assumes "heaps_ok R s" and "l \<in> R" and "\<not> lsm_is_dumping (vs_lsm s l)"
  defines "lsm \<equiv> (vs_lsm s l)\<lparr>lsm_pin_count := lsm_pin_count (vs_lsm s l) + 1\<rparr>"
  shows "succeeds (\<lambda>s'. heaps_ok R s' \<and> same_but_heaps (set_lsm l lsm s) s') (vy_scheduler_pin_lsm l s)"
proof (cases "lsm_pin_count (vs_lsm s l) = 0")
  case True
  then show ?thesis
    using update_lsm_ok[OF heaps_at_set[OF assms(1,2), of lsm]] assms(3) by (simp add: vy_scheduler_pin_lsm_def lsm_def)
next
  case False
  have "heaps_ok R (s\<lparr>vs_lsm := (vs_lsm s)(l := lsm)\<rparr>)"
    by (rule heaps_ok_set[OF assms(1)]) (use False in \<open>auto simp: fun_eq_iff lsm_def vy_dump_before_def vy_lsm_free_def\<close>)
  then show ?thesis
    using False assms(3) by (simp add: vy_scheduler_pin_lsm_def lsm_def set_lsm_def same_but_heaps_def Let_def)
qed

lemma unpin_ok:
  assumes "heaps_ok R s" and "l \<in> R" and "\<not> lsm_is_dumping (vs_lsm s l)" and "lsm_pin_count (vs_lsm s l) > 0"
  defines "lsm \<equiv> (vs_lsm s l)\<lparr>lsm_pin_count := lsm_pin_count (vs_lsm s l) - 1\<rparr>"
  shows "succeeds (\<lambda>s'. heaps_ok R s' \<and> same_but_heaps (set_lsm l lsm s) s') (vy_scheduler_unpin_lsm l s)"
proof (cases "lsm_pin_count (vs_lsm s l) - 1 = 0")
  case True
  then show ?thesis
    using update_lsm_ok[OF heaps_at_set[OF assms(1,2), of lsm]] assms(3,4) by (simp add: vy_scheduler_unpin_lsm_def lsm_def)
next
  case False
  have "heaps_ok R (s\<lparr>vs_lsm := (vs_lsm s)(l := lsm)\<rparr>)"
    by (rule heaps_ok_set[OF assms(1)]) (use False in \<open>auto simp: fun_eq_iff lsm_def vy_dump_before_def vy_lsm_free_def\<close>)
  then show ?thesis
    using False assms(3,4) by (simp add: vy_scheduler_unpin_lsm_def lsm_def set_lsm_def same_but_heaps_def Let_def)
qed

lemma same_but_heapsE:
  assumes "same_but_heaps s s'"
  obtains h h' where "s' = s\<lparr>vs_dump_heap := h, vs_compaction_heap := h'\<rparr>"
  using assms unfolding same_but_heaps_def by blast

lemma heaps_ok_fields [simp]:
  "heaps_ok R (s\<lparr>vs_dump_task_count := c\<rparr>) = heaps_ok R s" "heaps_ok R (s\<lparr>vs_next_mem := i\<rparr>) = heaps_ok R s"
  by (simp_all add: heaps_ok_def)

text \<open>The start of a dump task.\<close>

lemma task_started_inv:
  assumes inv: "sched_inv R D (Some l) p n s" and s': "heaps_ok R s'" "vs_lsm s' = task_started l s"
      "s' = s\<lparr>vs_lsm := vs_lsm s', vs_dump_heap := vs_dump_heap s', vs_compaction_heap := vs_compaction_heap s'\<rparr>"
  shows "sched_inv R (insert l D) None p n (s'\<lparr>vs_dump_task_count := vs_dump_task_count s' + 1\<rparr>)"
proof -
  let ?s = "s'\<lparr>vs_dump_task_count := vs_dump_task_count s' + 1\<rparr>"
  have ok: "trees_ok R (Some l) s" "dumping R s = D" "vs_processed s = p" "vs_tasks_inprogress s = n"
    using inv by (simp_all add: sched_inv_def)
  have f: "vs_lsm ?s = task_started l s" "vs_generation ?s = vs_generation s" "vs_dump_generation ?s = vs_dump_generation s"
      "vs_next_mem ?s = vs_next_mem s" "vs_events ?s = vs_events s" "vs_dump_task_count ?s = vs_dump_task_count s + 1"
      "vs_processed ?s = vs_processed s" "vs_tasks_inprogress ?s = vs_tasks_inprogress s"
    using s'(2) by simp (subst s'(3), simp)+
  show ?thesis
    using trees_ok_started(1,2)[OF ok(1) f(1-6)] s'(1) f(7,8) ok(2-) by (simp add: sched_inv_def)
qed

lemma vy_task_dump_new_end_inv:
  assumes inv: "sched_inv R D (Some l) p n s"
  shows "succeeds (sched_inv R (insert l D) None p n) (vy_task_dump_new_end l s)" and "l \<notin> D"
proof -
  have ok: "heaps_ok R s" "trees_ok R (Some l) s" "dumping R s = D" "vs_processed s = p" "vs_tasks_inprogress s = n"
    using inv by (simp_all add: sched_inv_def)
  have l: "l \<in> R" using ok(2) by (simp add: trees_ok_def)
  have t: "tree_ok R (Some l) s l" using tree_okD[OF ok(2) l] .
  then have pk: "pk_ok R (vs_lsm s) l" by (simp add: tree_ok_def)
  let ?s1 = "set_lsm l ((vs_lsm s l)\<lparr>lsm_is_dumping := True\<rparr>) s"
  obtain s2 where s2: "vy_scheduler_update_lsm l ?s1 = Some s2" "heaps_ok R s2" "same_but_heaps ?s1 s2"
    using succeedsE[OF update_lsm_ok[OF heaps_at_set[OF ok(1) l]]] by metis
  obtain h h' where h: "s2 = ?s1\<lparr>vs_dump_heap := h, vs_compaction_heap := h'\<rparr>" using s2(3) by (rule same_but_heapsE)
  note fin = task_started_inv[OF inv]
  show "succeeds (sched_inv R (insert l D) None p n) (vy_task_dump_new_end l s)"
  proof (cases "lsm_pk (vs_lsm s l)")
    case None
    then have "lsm_index_id (vs_lsm s2 l) = 0" using pk by (simp add: h set_lsm_def pk_ok_def)
    moreover have "vs_lsm s2 = task_started l s" using None by (auto simp: h set_lsm_def task_started_def)
    ultimately show ?thesis
      using s2(1) fin[OF s2(2)] by (simp add: vy_task_dump_new_end_def Let_def) (simp add: h set_lsm_def)
  next
    case (Some q)
    have q: "q \<in> R" "q \<noteq> l" "lsm_index_id (vs_lsm s2 l) \<noteq> 0" "lsm_pk (vs_lsm s2 l) = Some q"
      using pk Some by (auto simp: h set_lsm_def pk_ok_def)
    have lq: "vs_lsm s2 q = vs_lsm s q" using q(2) by (simp add: h set_lsm_def)
    have "\<not> lsm_is_dumping (vs_lsm s q)"
      using t q(1) Some by (auto simp: tree_ok_def)
    then obtain s3 where s3: "vy_scheduler_pin_lsm q s2 = Some s3" "heaps_ok R s3"
        "same_but_heaps (set_lsm q ((vs_lsm s q)\<lparr>lsm_pin_count := lsm_pin_count (vs_lsm s q) + 1\<rparr>) s2) s3"
      using succeedsE[OF pin_ok[OF s2(2) q(1), unfolded lq]] by metis
    obtain h2 h3 where h3: "s3 = (set_lsm q ((vs_lsm s q)\<lparr>lsm_pin_count := lsm_pin_count (vs_lsm s q) + 1\<rparr>) s2)\<lparr>vs_dump_heap := h2, vs_compaction_heap := h3\<rparr>"
      using s3(3) by (rule same_but_heapsE)
    have "vs_lsm s3 = task_started l s" using Some q(2) by (auto simp: h3 h set_lsm_def task_started_def)
    then show ?thesis
      using s2(1) s3(1) fin[OF s3(2)] q(3,4) by (simp add: vy_task_dump_new_end_def Let_def) (simp add: h3 h set_lsm_def)
  qed
  show "l \<notin> D" using t ok(3) by (auto simp: tree_ok_def vy_lsm_free_def dumping_def)
qed


text \<open>The end of a dump task.\<close>

lemma set_lsm_twice [simp]: "set_lsm l lsm' (set_lsm l lsm s) = set_lsm l lsm' s" "vs_lsm (set_lsm l lsm s) l = lsm"
  by (simp_all add: set_lsm_def)

lemma task_ended_inv:
  assumes inv: "sched_inv R D None p n s" and l: "l \<in> D" and s': "heaps_ok R s'" "vs_lsm s' = task_ended l lsm s"
      "s' = s\<lparr>vs_lsm := vs_lsm s', vs_dump_heap := vs_dump_heap s', vs_compaction_heap := vs_compaction_heap s'\<rparr>"
    and wf: "lsm_wf (vs_generation s) (vs_next_mem s) lsm" "vs_dump_generation s \<le> vy_lsm_generation lsm"
    and same: "lsm_index_id lsm = lsm_index_id (vs_lsm s l)" "lsm_pk lsm = lsm_pk (vs_lsm s l)"
      "\<not> lsm_is_dumping lsm" "lsm_pin_count lsm = lsm_pin_count (vs_lsm s l)"
  shows "vs_dump_task_count s' > 0 \<and> sched_inv R (D - {l}) None p n (s'\<lparr>vs_dump_task_count := vs_dump_task_count s' - 1\<rparr>) \<and>
    vs_dump_generation s' = vs_dump_generation s \<and> vs_generation s' = vs_generation s"
proof -
  let ?s = "s'\<lparr>vs_dump_task_count := vs_dump_task_count s' - 1\<rparr>"
  have ok: "trees_ok R None s" "dumping R s = D" "vs_processed s = p" "vs_tasks_inprogress s = n"
    using inv by (simp_all add: sched_inv_def)
  have lD: "l \<in> dumping R s" using l ok(2) by simp
  moreover have "finite (dumping R s)" using ok(1) by (simp add: trees_ok_def dumping_def)
  ultimately have count: "vs_dump_task_count s > 0" using ok(1) by (auto simp: trees_ok_def card_gt_0_iff)
  have f: "vs_lsm ?s = task_ended l lsm s" "vs_generation ?s = vs_generation s" "vs_dump_generation ?s = vs_dump_generation s"
      "vs_next_mem ?s = vs_next_mem s" "vs_events ?s = vs_events s" "vs_dump_task_count ?s = vs_dump_task_count s - 1"
      "vs_processed ?s = vs_processed s" "vs_tasks_inprogress ?s = vs_tasks_inprogress s" "vs_dump_task_count s' = vs_dump_task_count s"
    using s'(2) by simp (subst s'(3), simp)+
  show ?thesis
    using trees_ok_ended[OF ok(1) lD f(1-6) wf same] s'(1) f(2,3,7-) ok(2-) count by (simp add: sched_inv_def)
qed

lemma dump_task_over_inv:
  assumes inv: "sched_inv R D None p n s" and l: "l \<in> D"
    and wf: "lsm_wf (vs_generation s) (vs_next_mem s) lsm" "vs_dump_generation s \<le> vy_lsm_generation lsm"
    and same: "lsm_index_id lsm = lsm_index_id (vs_lsm s l)" "lsm_pk lsm = lsm_pk (vs_lsm s l)"
      "lsm_pin_count lsm = lsm_pin_count (vs_lsm s l)"
  shows "succeeds (\<lambda>s'. sched_inv R (D - {l}) None p n s' \<and> vs_dump_generation s' = vs_dump_generation s \<and>
      vs_generation s' = vs_generation s) (dump_task_over l (set_lsm l lsm s))"
proof -
  have ok: "heaps_ok R s" "trees_ok R None s" "dumping R s = D" "vs_processed s = p" "vs_tasks_inprogress s = n"
    using inv by (simp_all add: sched_inv_def)
  have lR: "l \<in> R" and lD: "l \<in> dumping R s" using l ok(3) by (auto simp: dumping_def)
  have t: "tree_ok R None s l" using tree_okD[OF ok(2) lR] .
  then have pk: "pk_ok R (vs_lsm s) l" by (simp add: tree_ok_def)
  have fin: "finite (dumping R s)" using ok(2) by (simp add: trees_ok_def dumping_def)
  let ?lsm = "lsm\<lparr>lsm_is_dumping := False\<rparr>"
  obtain s2 where s2: "vy_scheduler_update_lsm l (set_lsm l ?lsm s) = Some s2" "heaps_ok R s2" "same_but_heaps (set_lsm l ?lsm s) s2"
    using succeedsE[OF update_lsm_ok[OF heaps_at_set[OF ok(1) lR]]] by metis
  obtain h h' where h: "s2 = (set_lsm l ?lsm s)\<lparr>vs_dump_heap := h, vs_compaction_heap := h'\<rparr>" using s2(3) by (rule same_but_heapsE)
  have fin: "vs_dump_task_count s' > 0 \<and> sched_inv R (D - {l}) None p n (s'\<lparr>vs_dump_task_count := vs_dump_task_count s' - 1\<rparr>) \<and>
      vs_dump_generation s' = vs_dump_generation s \<and> vs_generation s' = vs_generation s"
    if "heaps_ok R s'" "vs_lsm s' = task_ended l ?lsm s" "s' = s\<lparr>vs_lsm := vs_lsm s', vs_dump_heap := vs_dump_heap s', vs_compaction_heap := vs_compaction_heap s'\<rparr>" for s'
    by (rule task_ended_inv[OF inv l that]) (use wf same in simp_all)
  show ?thesis
  proof (cases "lsm_pk (vs_lsm s l)")
    case None
    then have "lsm_index_id (vs_lsm s2 l) = 0" using pk same by (simp add: h set_lsm_def pk_ok_def)
    moreover have "vs_lsm s2 = task_ended l ?lsm s" using None by (auto simp: h set_lsm_def task_ended_def)
    ultimately show ?thesis
      using s2(1) fin[OF s2(2)] by (simp add: dump_task_over_def Let_def) (simp add: h set_lsm_def)
  next
    case (Some q)
    have q: "q \<in> R" "q \<noteq> l" "lsm_index_id (vs_lsm s2 l) \<noteq> 0" "lsm_pk (vs_lsm s2 l) = Some q"
      using pk same Some by (auto simp: h set_lsm_def pk_ok_def)
    have lq: "vs_lsm s2 q = vs_lsm s q" using q(2) by (simp add: h set_lsm_def)
    have tq: "tree_ok R None s q" using tree_okD[OF ok(2) q(1)] .
    have "{k\<in>dumping R s. lsm_pk (vs_lsm s k) = Some q} \<noteq> {}" using Some lD by blast
    then have pin: "lsm_pin_count (vs_lsm s q) > 0"
      using tq \<open>finite (dumping R s)\<close> by (simp add: tree_ok_def card_gt_0_iff)
    have "\<not> lsm_is_dumping (vs_lsm s q)"
      using t lD q(1) Some by (auto simp: tree_ok_def dumping_def)
    then obtain s3 where s3: "vy_scheduler_unpin_lsm q s2 = Some s3" "heaps_ok R s3"
        "same_but_heaps (set_lsm q ((vs_lsm s q)\<lparr>lsm_pin_count := lsm_pin_count (vs_lsm s q) - 1\<rparr>) s2) s3"
      using succeedsE[OF unpin_ok[OF s2(2) q(1), unfolded lq]] pin by metis
    obtain h2 h3 where h3: "s3 = (set_lsm q ((vs_lsm s q)\<lparr>lsm_pin_count := lsm_pin_count (vs_lsm s q) - 1\<rparr>) s2)\<lparr>vs_dump_heap := h2, vs_compaction_heap := h3\<rparr>"
      using s3(3) by (rule same_but_heapsE)
    have "vs_lsm s3 = task_ended l ?lsm s" using Some q(2) by (auto simp: h3 h set_lsm_def task_ended_def)
    then show ?thesis
      using s2(1) s3(1) fin[OF s3(2)] q(3,4) by (simp add: dump_task_over_def Let_def) (simp add: h3 h set_lsm_def)
  qed
qed

lemma dumping_round:
  assumes "sched_inv R D None p n s" and "l \<in> D"
  shows "vs_dump_generation s < vs_generation s" "lsm_is_dumping (vs_lsm s l)" "l \<in> R"
  using assms by (auto simp: sched_inv_def trees_ok_def tree_ok_def dumping_def)

lemma vy_task_dump_abort_inv:
  assumes inv: "sched_inv R D None p n s" and l: "l \<in> D"
  shows "succeeds (sched_inv R (D - {l}) None p n) (vy_task_dump_abort l s)"
proof -
  have ok: "trees_ok R None s" using inv by (simp add: sched_inv_def)
  have "set_lsm l (vs_lsm s l) s = s" by (simp add: set_lsm_def)
  moreover have "vs_dump_generation s \<le> generation_of s l"
    using tree_okD[OF ok dumping_round(3)[OF inv l]] by (simp add: tree_ok_def)
  ultimately have "succeeds (sched_inv R (D - {l}) None p n) (dump_task_over l s)"
    using dump_task_over_inv[OF inv l trees_ok_wf[OF ok dumping_round(3)[OF inv l]]] by (auto elim: succeeds_mono)
  then show ?thesis using dumping_round(2)[OF inv l] by (simp add: vy_task_dump_abort_def)
qed

text \<open>Removing trees from an LSM tree.\<close>

lemma lsm_wf_filter:
  assumes "lsm_wf g n lsm"
  shows "lsm_wf g n (lsm\<lparr>lsm_sealed := filter P (lsm_sealed lsm)\<rparr>)"
    and "vy_lsm_generation lsm \<le> vy_lsm_generation (lsm\<lparr>lsm_sealed := filter P (lsm_sealed lsm)\<rparr>)"
proof -
  let ?lsm = "lsm\<lparr>lsm_sealed := filter P (lsm_sealed lsm)\<rparr>"
  show "lsm_wf g n ?lsm"
    using assms by (auto simp: lsm_wf_def sorted_wrt_filter distinct_map_filter)
  show "vy_lsm_generation lsm \<le> vy_lsm_generation ?lsm"
    using lsm_generation_mem[of ?lsm] lsm_generation_least[OF assms] by auto
qed

lemma vy_task_dump_complete_inv:
  assumes inv: "sched_inv R D None p n s" and l: "l \<in> D"
  shows "succeeds (sched_inv R (D - {l}) None p n) (vy_task_dump_complete priority l s)"
proof -
  have ok: "trees_ok R None s" using inv by (simp add: sched_inv_def)
  have round: "vs_dump_generation s < vs_generation s" "l \<in> R" using dumping_round[OF inv l] by simp_all
  let ?P = "\<lambda>m. mm_generation m > vs_dump_generation s"
  let ?lsm = "(vs_lsm s l)\<lparr>lsm_range_top := priority, lsm_sealed := filter ?P (lsm_sealed (vs_lsm s l))\<rparr>"
  have lsm: "?lsm = ((vs_lsm s l)\<lparr>lsm_sealed := filter ?P (lsm_sealed (vs_lsm s l))\<rparr>)\<lparr>lsm_range_top := priority\<rparr>" by simp
  note wf = lsm_wf_filter[OF trees_ok_wf[OF ok round(2)], of ?P]
  have "lsm_wf (vs_generation s) (vs_next_mem s) ?lsm" "vs_dump_generation s \<le> vy_lsm_generation ?lsm"
    unfolding lsm using wf tree_okD[OF ok round(2)] by (auto simp: tree_ok_def simp del: vy_lsm.update_convs)
  then have "succeeds (\<lambda>s'. sched_inv R (D - {l}) None p n s' \<and> vs_dump_generation s' = vs_dump_generation s \<and>
      vs_generation s' = vs_generation s) (dump_task_over l (set_lsm l ?lsm s))"
    by (rule dump_task_over_inv[OF inv l]) simp_all
  then have "succeeds (\<lambda>s'. succeeds (sched_inv R (D - {l}) None p n) (vy_scheduler_complete_dump s')) (dump_task_over l (set_lsm l ?lsm s))"
    by (rule succeeds_mono) (use vy_scheduler_complete_dump_inv round(1) in auto)
  then show ?thesis by (simp add: vy_task_dump_complete_def Let_def)
qed


section \<open>The fiber keeps the invariant\<close>

text \<open>
  The loop of \<^verbatim>\<open>vy_task_dump_new\<close> waits for the writers of a tree of the dumped generation or an older one.  All
  trees it has not visited yet are such; once it has found something to dump, a visited tree is such as well.
\<close>

definition scan_ok :: "int \<Rightarrow> nat list \<Rightarrow> int \<Rightarrow> vy_lsm \<Rightarrow> bool" where
  "scan_ok dg todo dump_lsn lsm \<longleftrightarrow>
     (\<exists>pre post. map (\<lambda>m. (mm_id m, mm_generation m)) (lsm_sealed lsm) = pre @ post \<and> post \<noteq> [] \<and> todo = map fst post \<and>
        (\<forall>k\<in>set post. snd k \<le> dg) \<and> (dump_lsn \<ge> 0 \<longrightarrow> (\<exists>k\<in>set pre. snd k \<le> dg)))"

fun fiber_scan_ok :: "vy_fiber \<Rightarrow> vy_scheduler \<Rightarrow> bool" where
  "fiber_scan_ok (Fiber_Scan w l todo dump_lsn) s = scan_ok (vs_dump_generation s) todo dump_lsn (vs_lsm s l)"
| "fiber_scan_ok _ s = True"

definition fiber_inv :: "nat set \<Rightarrow> nat set \<Rightarrow> vy_task list \<Rightarrow> nat \<Rightarrow> vy_task list \<Rightarrow> vy_fiber \<times> vy_scheduler \<Rightarrow> bool" where
  "fiber_inv R D p n batch r \<longleftrightarrow>
     sched_inv R D (fiber_lsm (fst r)) p n (snd r) \<and> fiber_tasks (fst r) = batch \<and> fiber_scan_ok (fst r) (snd r) \<and>
     (\<forall>t b i j. fst r \<noteq> Fiber_Commit t b i j)"

lemma dump_new_failed_inv:
  assumes "sched_inv R D busy p n s"
  shows "fiber_inv R D p n [] (dump_new_failed w s)"
proof -
  have "sched_inv R D None p n s" using assms trees_ok_drop by (auto simp: sched_inv_def)
  then have "sched_inv R D None p n (vy_scheduler_error (put_dump_worker w s))"
    by (rule sched_inv_cong)
      (use assms in \<open>auto simp: vy_scheduler_error_def put_dump_worker_def sched_inv_def Let_def\<close>)
  then show ?thesis by (simp add: fiber_inv_def dump_new_failed_def)
qed

lemma peek_no_task_inv:
  assumes "sched_inv R D None p n s"
  shows "fiber_inv R D p n [] (peek_no_task worker s)"
proof -
  have "sched_inv R D None p n (put_dump_worker w s)" for w
    using assms by (rule sched_inv_cong) (use assms in \<open>auto simp: put_dump_worker_def sched_inv_def\<close>)
  then show ?thesis using assms by (simp add: fiber_inv_def peek_no_task_def split: option.split)
qed

lemma dump_new_skip_eq: "dump_new_skip g ms = dropWhile (\<lambda>m. mm_generation m > g) ms"
  by (induction ms) simp_all

lemma dump_new_skip_split:
  assumes "sorted_wrt (\<lambda>m m'. mm_generation m' \<le> mm_generation m) ms"
  shows "\<exists>pre. ms = pre @ dump_new_skip g ms" and "\<forall>m\<in>set (dump_new_skip g ms). mm_generation m \<le> g"
proof -
  show "\<exists>pre. ms = pre @ dump_new_skip g ms"
    unfolding dump_new_skip_eq by (metis takeWhile_dropWhile_id)
  show "\<forall>m\<in>set (dump_new_skip g ms). mm_generation m \<le> g"
    using assms by (induction ms) auto
qed

lemma vy_task_dump_new_begin_inv:
  assumes inv: "sched_inv R D (Some l) p n s"
  shows "succeeds (\<lambda>r. sched_inv R D (Some l) p n (snd r)) (vy_task_dump_new_begin memory l s)"
proof -
  have ok: "trees_ok R (Some l) s" "l \<in> R" using inv by (simp_all add: sched_inv_def trees_ok_def)
  have "\<not> lsm_is_dumping (vs_lsm s l)" "lsm_pin_count (vs_lsm s l) = 0" "generation_of s l = vs_dump_generation s"
      "vs_dump_generation s < vs_generation s"
    using tree_okD[OF ok] by (simp_all add: tree_ok_def vy_lsm_free_def)
  then show ?thesis
    using inv sched_inv_like[OF inv] rotate_like[OF _ trees_ok_wf[OF ok]]
    by (simp add: vy_task_dump_new_begin_def Let_def succeeds_if split: option.split)
qed

lemma set_lsm_round [simp]: "vs_dump_generation (set_lsm l lsm s) = vs_dump_generation s" "vs_generation (set_lsm l lsm s) = vs_generation s"
  by (simp_all add: set_lsm_def)

lemma dump_new_continue_inv:
  assumes inv: "sched_inv R D (Some l) p n s" and wf: "lsm_wf (vs_generation s) (vs_next_mem s) lsm"
    and same: "lsm_index_id lsm = lsm_index_id (vs_lsm s l)" "lsm_pk lsm = lsm_pk (vs_lsm s l)"
      "lsm_is_dumping lsm = lsm_is_dumping (vs_lsm s l)" "lsm_pin_count lsm = lsm_pin_count (vs_lsm s l)"
    and gen: "generation_of s l \<le> vy_lsm_generation lsm"
    and sealed: "lsm_sealed lsm = A @ B" "dump_new_skip (vs_dump_generation s) todo = B"
      "\<forall>m\<in>set B. mm_generation m \<le> vs_dump_generation s"
      "dump_lsn \<ge> 0 \<Longrightarrow> \<exists>m\<in>set A. mm_generation m \<le> vs_dump_generation s"
  shows "succeeds (fiber_inv R D p n []) (dump_new_continue inp w l todo dump_lsn (set_lsm l lsm s))"
proof -
  have ok: "heaps_ok R s" "trees_ok R (Some l) s" using inv by (simp_all add: sched_inv_def)
  have l: "l \<in> R" using ok(2) by (simp add: trees_ok_def)
  note t = tree_okD[OF ok(2) l]
  have dg: "generation_of s l = vs_dump_generation s" "vs_dump_generation s < vs_generation s" using t by (simp_all add: tree_ok_def)
  have like: "sched_inv R D (Some l) p n (set_lsm l lsm s)" if m: "m \<in> set (A @ B)" "mm_generation m \<le> vs_dump_generation s" for m
  proof (rule sched_inv_like'[OF inv _ wf])
    have "vy_lsm_generation lsm \<le> mm_generation m"
      using lsm_generation_least[OF wf, of m] m(1) sealed(1) by auto
    then show "lsm_like (vs_lsm s l) lsm" using same gen dg m(2) by (simp add: lsm_like_def)
  qed
  show ?thesis
  proof (cases B)
    case (Cons m ms)
    let ?key = "\<lambda>m. (mm_id m, mm_generation m)"
    have "scan_ok (vs_dump_generation s) (map mm_id B) dump_lsn lsm"
      unfolding scan_ok_def
      by (rule exI[of _ "map ?key A"], rule exI[of _ "map ?key B"]) (use sealed Cons in auto)
    then show ?thesis
      using like[of m] sealed(2,3) Cons by (simp add: dump_new_continue_def fiber_inv_def)
  next
    case Nil
    show ?thesis
    proof (cases "dump_lsn < 0")
      case True
      let ?s = "set_lsm l lsm s"
      obtain s2 where s2: "vy_scheduler_update_lsm l ?s = Some s2" "heaps_ok R s2" "same_but_heaps ?s s2"
        using succeedsE[OF update_lsm_ok[OF heaps_at_set[OF ok(1) l]]] by metis
      obtain h h' where h: "s2 = ?s\<lparr>vs_dump_heap := h, vs_compaction_heap := h'\<rparr>" using s2(3) by (rule same_but_heapsE)
      have "trees_ok R None ?s"
        using trees_ok_raise[OF ok(2) wf _ same gen] gen dg(1) by simp
      moreover have "dumping R ?s = dumping R s" using same(3) by (auto simp: dumping_def set_lsm_def)
      ultimately have "sched_inv R D None p n s2"
        using inv s2(2) trees_ok_same[OF s2(3)] by (simp add: sched_inv_def) (simp add: h set_lsm_def dumping_def)
      then have "succeeds (sched_inv R D None p n) (vy_scheduler_complete_dump s2)"
        by (rule vy_scheduler_complete_dump_inv) (use dg(2) in \<open>simp add: h set_lsm_def\<close>)
      then show ?thesis
        using True Nil sealed(2) s2(1) by (simp add: dump_new_continue_def fiber_inv_def)
    next
      case False
      then obtain m where "m \<in> set (A @ B)" "mm_generation m \<le> vs_dump_generation s" using sealed(4) by auto
      note inv' = like[OF this]
      show ?thesis
        using False Nil sealed(2) dump_new_failed_inv[OF inv', of w] inv'
        by (simp add: dump_new_continue_def succeeds_if) (simp add: fiber_inv_def)
    qed
  qed
qed


lemma scan_ok_split:
  assumes "scan_ok dg (mid # rest) dump_lsn lsm" and "distinct (map mm_id (lsm_sealed lsm))"
  obtains A m B where "lsm_sealed lsm = A @ m # B" "mm_id m = mid" "rest = map mm_id B" "mm_generation m \<le> dg"
    "\<forall>m\<in>set B. mm_generation m \<le> dg" "dump_lsn \<ge> 0 \<Longrightarrow> \<exists>m\<in>set A. mm_generation m \<le> dg"
proof -
  obtain pre post where k: "map (\<lambda>m. (mm_id m, mm_generation m)) (lsm_sealed lsm) = pre @ post" "mid # rest = map fst post"
      "\<forall>k\<in>set post. snd k \<le> dg" "dump_lsn \<ge> 0 \<longrightarrow> (\<exists>k\<in>set pre. snd k \<le> dg)"
    using assms(1) unfolding scan_ok_def by (elim exE conjE)
  let ?key = "\<lambda>m. (mm_id m, mm_generation m)"
  obtain A P where A: "lsm_sealed lsm = A @ P" "pre = map ?key A" "post = map ?key P"
    using k(1) unfolding map_eq_append_conv by blast
  obtain m B where P: "P = m # B" using k(2) by (cases P) (simp_all add: A(3))
  show ?thesis
  proof (rule that)
    show "lsm_sealed lsm = A @ m # B" using A(1) P by simp
    show "mm_id m = mid" "rest = map mm_id B" using k(2) by (simp_all add: A(3) P o_def)
    show "mm_generation m \<le> dg" "\<forall>m\<in>set B. mm_generation m \<le> dg" using k(3) by (simp_all add: A(3) P)
    show "\<exists>m\<in>set A. mm_generation m \<le> dg" if "dump_lsn \<ge> 0" using k(4) that by (simp add: A(2))
  qed
qed

lemma dump_new_mem_inv:
  assumes inv: "sched_inv R D (Some l) p n s" and scan: "scan_ok (vs_dump_generation s) (mid # rest) dump_lsn (vs_lsm s l)"
  shows "succeeds (\<lambda>r. succeeds (fiber_inv R D p n [])
      (dump_new_continue inp w l (filter (\<lambda>m. mm_id m \<in> set rest) (lsm_sealed (vs_lsm (snd r) l))) (fst r) (snd r)))
    (dump_new_mem l mid dump_lsn s)"
proof -
  have ok: "trees_ok R (Some l) s" "l \<in> R" using inv by (simp_all add: sched_inv_def trees_ok_def)
  let ?lsm = "vs_lsm s l"
  note wf = trees_ok_wf[OF ok]
  then have dist: "distinct (map mm_id (lsm_sealed ?lsm))" and sorted: "sorted_wrt (\<lambda>m m'. mm_generation m' \<le> mm_generation m) (lsm_sealed ?lsm)"
    by (simp_all add: lsm_wf_def)
  obtain A m B where AB: "lsm_sealed ?lsm = A @ m # B" "mm_id m = mid" "rest = map mm_id B" "mm_generation m \<le> vs_dump_generation s"
      "\<forall>m\<in>set B. mm_generation m \<le> vs_dump_generation s" "dump_lsn \<ge> 0 \<Longrightarrow> \<exists>m\<in>set A. mm_generation m \<le> vs_dump_generation s"
    using scan_ok_split[OF scan dist] by blast
  have ids: "mid \<notin> mm_id ` set A" "mid \<notin> mm_id ` set B" "\<And>x. x \<in> set A \<Longrightarrow> mm_id x \<notin> mm_id ` set B"
    using dist AB(1,2) by auto
  have found: "lsm_sealed_mem mid ?lsm = Some m"
    unfolding lsm_sealed_mem_def AB(1) using ids(1) AB(2) by (induction A) auto
  have filt: "filter (\<lambda>x. mm_id x \<in> set rest) (A @ m # B) = B" "filter (\<lambda>x. mm_id x \<in> set rest) (A @ B) = B"
    using ids AB(2,3) by (auto simp: filter_empty_conv)
  have skip: "dump_new_skip (vs_dump_generation s) B = B" using AB(5) by (cases B) auto
  show ?thesis
  proof (cases "mm_size m = 0")
    case True
    let ?lsm' = "?lsm\<lparr>lsm_sealed := filter (\<lambda>x. mm_id x \<noteq> mid) (lsm_sealed ?lsm)\<rparr>"
    have "filter (\<lambda>x. mm_id x \<noteq> mid) A = A" "filter (\<lambda>x. mm_id x \<noteq> mid) B = B"
      using ids(1,2) unfolding filter_id_conv by blast+
    then have sealed: "lsm_sealed ?lsm' = A @ B" using AB(1,2) by simp
    have "succeeds (fiber_inv R D p n []) (dump_new_continue inp w l B dump_lsn (set_lsm l ?lsm' s))"
      by (rule dump_new_continue_inv[OF inv lsm_wf_filter(1)[OF wf] _ _ _ _ lsm_wf_filter(2)[OF wf] sealed skip AB(5,6)]) simp_all
    then show ?thesis
      using True found AB(1,2) filt(2) sealed by (simp add: dump_new_mem_def vy_lsm_delete_mem_def c_assert_def)
  next
    case False
    have "succeeds (fiber_inv R D p n []) (dump_new_continue inp w l B (max dump_lsn (mm_dump_lsn m)) (set_lsm l ?lsm s))"
      by (rule dump_new_continue_inv[OF inv wf _ _ _ _ _ _ skip AB(5), where A = "A @ [m]"]) (use AB in auto)
    moreover have "set_lsm l ?lsm s = s" by (simp add: set_lsm_def)
    ultimately show ?thesis
      using False found AB(1) filt(1) by (simp add: dump_new_mem_def)
  qed
qed

lemma vy_worker_pool_get_ok: "succeeds (\<lambda>_. True) (vy_worker_pool_get pool)"
  by (simp add: vy_worker_pool_get_def vy_worker_pool_start_def succeeds_if)

text \<open>\<^verbatim>\<open>vy_task_dump_new\<close> up to its first yield.\<close>

lemma dump_new_start_inv:
  assumes inv: "sched_inv R D (Some l) p n s"
  shows "succeeds (\<lambda>r. (fst r \<longrightarrow> succeeds (fiber_inv R D p n [])
        (dump_new_continue inp w l (lsm_sealed (vs_lsm (snd r) l)) (-1) (snd r))) \<and>
      (\<not> fst r \<longrightarrow> fiber_inv R D p n [] (dump_new_failed w (snd r)))) (vy_task_dump_new_begin memory l s)"
  using vy_task_dump_new_begin_inv[OF inv]
proof (rule succeeds_mono)
  fix r :: "bool \<times> vy_scheduler" assume inv': "sched_inv R D (Some l) p n (snd r)"
  let ?s = "snd r"
  have ok: "trees_ok R (Some l) ?s" "l \<in> R" using inv' by (simp_all add: sched_inv_def trees_ok_def)
  note wf = trees_ok_wf[OF ok]
  then have "sorted_wrt (\<lambda>m m'. mm_generation m' \<le> mm_generation m) (lsm_sealed (vs_lsm ?s l))" by (simp add: lsm_wf_def)
  note skip = dump_new_skip_split[OF this, of "vs_dump_generation ?s"]
  from skip(1) obtain A where A: "lsm_sealed (vs_lsm ?s l) = A @ dump_new_skip (vs_dump_generation ?s) (lsm_sealed (vs_lsm ?s l))" ..
  have "succeeds (fiber_inv R D p n []) (dump_new_continue inp w l (lsm_sealed (vs_lsm ?s l)) (-1) (set_lsm l (vs_lsm ?s l) ?s))"
    by (rule dump_new_continue_inv[OF inv' wf _ _ _ _ _ A refl skip(2)]) simp_all
  moreover have "set_lsm l (vs_lsm ?s l) ?s = ?s" by (simp add: set_lsm_def)
  ultimately show "(fst r \<longrightarrow> succeeds (fiber_inv R D p n []) (dump_new_continue inp w l (lsm_sealed (vs_lsm ?s l)) (-1) ?s)) \<and>
      (\<not> fst r \<longrightarrow> fiber_inv R D p n [] (dump_new_failed w ?s))"
    using dump_new_failed_inv[OF inv'] by simp
qed

text \<open>The LSM tree on top of the heap has to be dumped.\<close>

lemma peek_take_inv:
  assumes inv: "sched_inv R D None p n s" and round: "vs_dump_generation s < vs_generation s"
    and top: "l \<in> R" "heap_top (vs_dump_heap s) = Some (Some l)" "\<And>k. k \<in> R \<Longrightarrow> \<not> vy_dump_before (vs_lsm s k) (vs_lsm s l)"
    and free: "vy_lsm_free (vs_lsm s l)" "generation_of s l = vs_dump_generation s"
  shows "succeeds (fiber_inv R D p n []) (vy_scheduler_peek_dump inp worker s)"
proof -
  have ok: "trees_ok R None s" "vs_processed s = p" "vs_tasks_inprogress s = n" using inv by (simp_all add: sched_inv_def)
  have "trees_ok R (Some l) s" by (rule trees_ok_take[OF ok(1) top(1) free round top(3)])
  then have "sched_inv R D (Some l) p n s" using inv by (simp add: sched_inv_def)
  then have "sched_inv R D (Some l) p n (s\<lparr>vs_dump_pool := pool\<rparr>)" for pool
    by (rule sched_inv_cong) (use ok in auto)
  note task = dump_new_start_inv[OF this]
  have idle: "fiber_inv R D p n [] (Fiber_Loop, s\<lparr>vs_dump_pool := pool\<rparr>)" for pool
    using sched_inv_cong[OF inv, of "s\<lparr>vs_dump_pool := pool\<rparr>"] ok by (auto simp: fiber_inv_def)
  have "succeeds (\<lambda>_. True) (case worker of Some w \<Rightarrow> Some (Some w, vs_dump_pool s) | None \<Rightarrow> vy_worker_pool_get (vs_dump_pool s))"
    using vy_worker_pool_get_ok by (simp split: option.split)
  then obtain r where r: "(case worker of Some w \<Rightarrow> Some (Some w, vs_dump_pool s) | None \<Rightarrow> vy_worker_pool_get (vs_dump_pool s)) = Some r"
    by (rule succeedsE)
  have "\<not> lsm_is_dumping (vs_lsm s l)" "lsm_pin_count (vs_lsm s l) = 0" using free(1) by (simp_all add: vy_lsm_free_def)
  then show ?thesis
    using round top(2) free(2) task idle r
    by (cases "fst r") (simp_all add: vy_scheduler_peek_dump_def in_progress_ok[OF inv] Let_def case_prod_beta succeeds_if)
qed

text \<open>No LSM tree has to be dumped, but nothing is in progress.\<close>

lemma peek_catch_up_inv:
  assumes inv: "sched_inv R D None p n s" and idle: "vs_dump_task_count s = 0" and top: "l \<in> R"
    and least: "\<And>k. k \<in> R \<Longrightarrow> \<not> vy_dump_before (vs_lsm s k) (vs_lsm s l)"
    and blocked: "\<not> (vy_lsm_free (vs_lsm s l) \<and> generation_of s l = vs_dump_generation s)"
  shows "vs_dump_generation s < generation_of s l"
    and "fiber_inv R D p n [] (Fiber_Peek worker, s\<lparr>vs_dump_generation := generation_of s l\<rparr>)"
proof -
  have ok: "trees_ok R None s" using inv by (simp add: sched_inv_def)
  have "finite (dumping R s)" using ok by (simp add: trees_ok_def dumping_def)
  then have none: "dumping R s = {}" using ok idle by (simp add: trees_ok_def)
  note free = trees_ok_free[OF ok none]
  show less: "vs_dump_generation s < generation_of s l" using tree_okD[OF ok top] blocked free[OF top] by (simp add: tree_ok_def)
  have "generation_of s l \<le> generation_of s k" if "k \<in> R" for k
    using least[OF that] free[OF that] free[OF top] by (auto simp: vy_dump_before_def)
  then have "trees_ok R None (s\<lparr>vs_dump_generation := generation_of s l\<rparr>)"
    using trees_ok_complete[OF ok none, of "generation_of s l" "[]" "vs_dump_count s"] less lsm_generation_le[OF trees_ok_wf[OF ok top]]
    by simp
  then show "fiber_inv R D p n [] (Fiber_Peek worker, s\<lparr>vs_dump_generation := generation_of s l\<rparr>)"
    using inv by (simp add: fiber_inv_def sched_inv_def heaps_ok_def dumping_def)
qed

lemma vy_scheduler_peek_dump_inv:
  assumes inv: "sched_inv R D None p n s"
  shows "succeeds (fiber_inv R D p n []) (vy_scheduler_peek_dump inp worker s)"
proof (cases "vs_dump_generation s < vs_generation s")
  case False
  then show ?thesis
    using peek_no_task_inv[OF inv, of worker] by (simp add: vy_scheduler_peek_dump_def in_progress_ok[OF inv])
next
  case True
  have "heaps_ok R s" using inv by (simp add: sched_inv_def)
  then show ?thesis
  proof (cases rule: heaps_ok_top)
    case empty
    have "succeeds (\<lambda>s'. fiber_inv R D p n [] (peek_no_task worker s')) (vy_scheduler_complete_dump s)"
      using vy_scheduler_complete_dump_inv[OF inv True] peek_no_task_inv by (rule succeeds_mono)
    then show ?thesis
      using True empty(2) by (simp add: vy_scheduler_peek_dump_def in_progress_ok[OF inv])
  next
    case (top l)
    show ?thesis
    proof (cases "vy_lsm_free (vs_lsm s l) \<and> generation_of s l = vs_dump_generation s")
      case free: True
      then show ?thesis using peek_take_inv[OF inv True top(1,2,3)] by blast
    next
      case blocked: False
      then show ?thesis
        using True top(2) peek_catch_up_inv[OF inv _ top(1,3) blocked] peek_no_task_inv[OF inv, of worker]
        by (auto simp: vy_scheduler_peek_dump_def in_progress_ok[OF inv] vy_lsm_free_def Let_def succeeds_if)
    qed
  qed
qed

lemma task_failed_inv:
  assumes inv: "sched_inv R D None p n s" and "tk_lsm t \<in> D"
  shows "succeeds (fiber_inv R (D - {tk_lsm t}) p n batch) (task_failed t batch i j s)"
proof -
  have "succeeds (\<lambda>s'. fiber_inv R (D - {tk_lsm t}) p n batch
      (Fiber_Tasks batch i (j + 1), put_dump_worker (tk_worker t) (s'\<lparr>vs_tasks_failed := vs_tasks_failed s' + 1\<rparr>))) (vy_task_dump_abort (tk_lsm t) s)"
    using vy_task_dump_abort_inv[OF assms]
  proof (rule succeeds_mono)
    fix s' assume "sched_inv R (D - {tk_lsm t}) None p n s'"
    then have "sched_inv R (D - {tk_lsm t}) None p n (put_dump_worker (tk_worker t) (s'\<lparr>vs_tasks_failed := vs_tasks_failed s' + 1\<rparr>))"
      by (rule sched_inv_cong) (use \<open>sched_inv _ _ _ _ _ s'\<close> in \<open>auto simp: put_dump_worker_def sched_inv_def\<close>)
    then show "fiber_inv R (D - {tk_lsm t}) p n batch
      (Fiber_Tasks batch i (j + 1), put_dump_worker (tk_worker t) (s'\<lparr>vs_tasks_failed := vs_tasks_failed s' + 1\<rparr>))"
      by (simp add: fiber_inv_def)
  qed
  then show ?thesis by (simp add: task_failed_def)
qed

lemma task_done_inv:
  assumes inv: "sched_inv R D None p n s" and "tk_lsm t \<in> D"
  shows "succeeds (fiber_inv R (D - {tk_lsm t}) p n batch) (task_done priority t batch i j s)"
proof -
  have "succeeds (\<lambda>s'. fiber_inv R (D - {tk_lsm t}) p n batch
      (Fiber_Tasks batch (i + 1) j, put_dump_worker (tk_worker t) (s'\<lparr>vs_tasks_completed := vs_tasks_completed s' + 1\<rparr>)))
      (vy_task_dump_complete priority (tk_lsm t) s)"
    using vy_task_dump_complete_inv[OF assms]
  proof (rule succeeds_mono)
    fix s' assume "sched_inv R (D - {tk_lsm t}) None p n s'"
    then have "sched_inv R (D - {tk_lsm t}) None p n (put_dump_worker (tk_worker t) (s'\<lparr>vs_tasks_completed := vs_tasks_completed s' + 1\<rparr>))"
      by (rule sched_inv_cong) (use \<open>sched_inv _ _ _ _ _ s'\<close> in \<open>auto simp: put_dump_worker_def sched_inv_def\<close>)
    then show "fiber_inv R (D - {tk_lsm t}) p n batch
      (Fiber_Tasks batch (i + 1) j, put_dump_worker (tk_worker t) (s'\<lparr>vs_tasks_completed := vs_tasks_completed s' + 1\<rparr>))"
      by (simp add: fiber_inv_def)
  qed
  then show ?thesis by (simp add: task_done_def)
qed

section \<open>Every interleaving keeps the invariant\<close>

fun committing :: "vy_fiber \<Rightarrow> nat" where
  "committing (Fiber_Commit _ _ _ _) = 1"
| "committing _ = 0"

definition world_inv :: "nat set \<Rightarrow> vy_world \<Rightarrow> bool" where
  "world_inv R vw \<longleftrightarrow>
     sched_inv R (tk_lsm ` set (vw_tasks vw)) (fiber_lsm (vw_fiber vw)) (vs_processed (vw_sched vw))
       (length (vw_tasks vw) - committing (vw_fiber vw)) (vw_sched vw) \<and>
     distinct (map tk_lsm (vw_tasks vw)) \<and> fiber_scan_ok (vw_fiber vw) (vw_sched vw)"

lemma with_fiber_inv:
  assumes "succeeds (fiber_inv R (tk_lsm ` set (vw_running vw @ p @ batch)) p (length (vw_running vw @ p @ batch)) batch) r"
    and "distinct (map tk_lsm (vw_running vw @ p @ batch))"
  shows "succeeds (world_inv R) (with_fiber vw r)"
proof -
  have "world_inv R (vw\<lparr>vw_fiber := f, vw_sched := s\<rparr>)"
    if "fiber_inv R (tk_lsm ` set (vw_running vw @ p @ batch)) p (length (vw_running vw @ p @ batch)) batch (f, s)" for f s
  proof -
    have f: "vs_processed s = p" "fiber_tasks f = batch" "committing f = 0"
      using that by (auto simp: fiber_inv_def sched_inv_def) (cases f; simp)
    show ?thesis using that assms(2) f by (simp add: world_inv_def vw_tasks_def fiber_inv_def)
  qed
  then show ?thesis using assms(1) by (auto simp: with_fiber_def elim!: succeeds_mono)
qed

lemma vy_task_complete_inv:
  assumes inv: "sched_inv R D None p (Suc n) s" and "tk_lsm t \<in> D"
  shows "tk_failed t \<Longrightarrow> succeeds (fiber_inv R (D - {tk_lsm t}) p n batch) (vy_task_complete t batch i j s)"
    and "\<not> tk_failed t \<Longrightarrow> succeeds (\<lambda>r. fst r = Fiber_Commit t batch i j \<and> sched_inv R D None p n (snd r)) (vy_task_complete t batch i j s)"
proof -
  have n: "vs_tasks_inprogress s = Suc n" using inv by (simp add: sched_inv_def)
  have inv': "sched_inv R D None p n (s\<lparr>vs_tasks_inprogress := n\<rparr>)"
    by (rule sched_inv_cong[OF inv]) (use inv in \<open>auto simp: sched_inv_def\<close>)
  show "succeeds (fiber_inv R (D - {tk_lsm t}) p n batch) (vy_task_complete t batch i j s)" if "tk_failed t"
    using task_failed_inv[OF inv' assms(2), of batch i j] that n by (simp add: vy_task_complete_def Let_def)
  show "succeeds (\<lambda>r. fst r = Fiber_Commit t batch i j \<and> sched_inv R D None p n (snd r)) (vy_task_complete t batch i j s)" if "\<not> tk_failed t"
    using inv' that n dumping_round(2)[OF inv assms(2)] by (simp add: vy_task_complete_def Let_def)
qed

lemma distinct_remove:
  assumes "distinct (map f (xs @ ys @ x # zs))"
  shows "f ` set (xs @ ys @ x # zs) - {f x} = f ` set (xs @ ys @ zs)" "distinct (map f (xs @ ys @ zs))"
proof -
  have "f x \<notin> f ` set (xs @ ys @ zs)" "f ` set (xs @ ys @ x # zs) = insert (f x) (f ` set (xs @ ys @ zs))"
    using assms by auto
  then show "f ` set (xs @ ys @ x # zs) - {f x} = f ` set (xs @ ys @ zs)" by simp
  show "distinct (map f (xs @ ys @ zs))" using assms by auto
qed

lemma world_invD:
  assumes "world_inv R vw"
  shows "sched_inv R (tk_lsm ` set (vw_tasks vw)) (fiber_lsm (vw_fiber vw)) (vs_processed (vw_sched vw))
      (length (vw_tasks vw) - committing (vw_fiber vw)) (vw_sched vw)"
    and "distinct (map tk_lsm (vw_tasks vw))" and "fiber_scan_ok (vw_fiber vw) (vw_sched vw)"
  using assms by (simp_all add: world_inv_def)

lemma fiber_loop_step:
  assumes inv: "world_inv R vw" and f: "vw_fiber vw = Fiber_Loop"
  shows "succeeds (world_inv R) (vy_scheduler_f inp vw)"
proof -
  let ?s = "vw_sched vw" and ?run = "vw_running vw"
  have c: "sched_inv R (tk_lsm ` set (?run @ vs_processed ?s)) None (vs_processed ?s) (length (?run @ vs_processed ?s)) ?s"
    using world_invD(1)[OF inv] f by (simp add: vw_tasks_def)
  have "sched_inv R (tk_lsm ` set (?run @ vs_processed ?s)) None [] (length (?run @ vs_processed ?s)) (?s\<lparr>vs_processed := []\<rparr>)"
    by (rule sched_inv_cong[OF c]) (use c in \<open>auto simp: sched_inv_def\<close>)
  then show ?thesis
    using with_fiber_inv[of R vw "[]" "vs_processed ?s" "Some (Fiber_Tasks (vs_processed ?s) 0 0, ?s\<lparr>vs_processed := []\<rparr>)"] world_invD(2)[OF inv] f
    by (simp add: vy_scheduler_f_def Let_def vw_tasks_def fiber_inv_def)
qed

lemma fiber_tasks_step:
  assumes inv: "world_inv R vw" and f: "vw_fiber vw = Fiber_Tasks batch i j"
  shows "succeeds (world_inv R) (vy_scheduler_f inp vw)"
proof -
  let ?s = "vw_sched vw" and ?run = "vw_running vw"
  show ?thesis
  proof (cases batch)
    case Nil
    have inv': "sched_inv R (tk_lsm ` set (?run @ vs_processed ?s)) None (vs_processed ?s) (length (?run @ vs_processed ?s)) ?s"
      using world_invD(1)[OF inv] f Nil by (simp add: vw_tasks_def)
    have t: "sched_inv R (tk_lsm ` set (?run @ vs_processed ?s)) None (vs_processed ?s) (length (?run @ vs_processed ?s)) (?s\<lparr>vs_timeout := 0\<rparr>)"
      by (rule sched_inv_cong[OF inv']) (use inv' in \<open>auto simp: sched_inv_def\<close>)
    have e: "sched_inv R (tk_lsm ` set (?run @ vs_processed ?s)) None (vs_processed ?s) (length (?run @ vs_processed ?s)) (vy_scheduler_error ?s)"
      by (rule sched_inv_cong[OF inv']) (use inv' in \<open>auto simp: sched_inv_def vy_scheduler_error_def Let_def\<close>)
    have "fiber_inv R (tk_lsm ` set (?run @ vs_processed ?s @ [])) (vs_processed ?s) (length (?run @ vs_processed ?s @ [])) []
        (if i > 0 then (Fiber_Loop, ?s\<lparr>vs_timeout := 0\<rparr>) else if j > 0 then (Fiber_Throttle, vy_scheduler_error ?s) else (Fiber_Peek None, ?s))"
      using inv' t e by (simp add: fiber_inv_def)
    then show ?thesis
      using with_fiber_inv[of R vw "vs_processed ?s" "[]" "Some _"] world_invD(2)[OF inv] f Nil
      by (simp add: vy_scheduler_f_def Let_def vw_tasks_def)
  next
    case (Cons t b)
    have "distinct (map tk_lsm (?run @ vs_processed ?s @ t # b))" using world_invD(2)[OF inv] f Cons by (simp add: vw_tasks_def)
    note D = distinct_remove(1)[OF this] and d = distinct_remove(2)[OF this]
    have t: "tk_lsm t \<in> tk_lsm ` set (?run @ vs_processed ?s @ t # b)" by simp
    have "sched_inv R (tk_lsm ` set (?run @ vs_processed ?s @ t # b)) None (vs_processed ?s) (Suc (length (?run @ vs_processed ?s @ b))) ?s"
      using world_invD(1)[OF inv] f Cons by (simp add: vw_tasks_def)
    note step = vy_task_complete_inv[OF this t, of b i j, unfolded D]
    show ?thesis
    proof (cases "tk_failed t")
      case True
      then show ?thesis
        using with_fiber_inv[OF step(1) d] f Cons by (simp add: vy_scheduler_f_def Let_def)
    next
      case False
      have "world_inv R (vw\<lparr>vw_fiber := f, vw_sched := s\<rparr>)"
        if "f = Fiber_Commit t b i j" "sched_inv R (tk_lsm ` set (?run @ vs_processed ?s @ t # b)) None (vs_processed ?s) (length (?run @ vs_processed ?s @ b)) s" for f s
      proof -
        have "vs_processed s = vs_processed ?s" using that(2) by (simp add: sched_inv_def)
        then show ?thesis using that world_invD(2)[OF inv] f Cons by (simp add: world_inv_def vw_tasks_def)
      qed
      then show ?thesis
        using step(2)[OF False] f Cons by (auto simp: vy_scheduler_f_def Let_def with_fiber_def elim!: succeeds_mono)
    qed
  qed
qed

lemma fiber_commit_step:
  assumes inv: "world_inv R vw" and f: "vw_fiber vw = Fiber_Commit t b i j"
  shows "succeeds (world_inv R) (vy_scheduler_f inp vw)"
proof -
  let ?s = "vw_sched vw" and ?run = "vw_running vw"
  have "distinct (map tk_lsm (?run @ vs_processed ?s @ t # b))" using world_invD(2)[OF inv] f by (simp add: vw_tasks_def)
  note D = distinct_remove(1)[OF this] and d = distinct_remove(2)[OF this]
  have t: "tk_lsm t \<in> tk_lsm ` set (?run @ vs_processed ?s @ t # b)" by simp
  have c: "sched_inv R (tk_lsm ` set (?run @ vs_processed ?s @ t # b)) None (vs_processed ?s) (length (?run @ vs_processed ?s @ b)) ?s"
    using world_invD(1)[OF inv] f by (simp add: vw_tasks_def)
  show ?thesis
    using with_fiber_inv[OF task_done_inv[OF c t, of b "in_priority inp" i j, unfolded D] d]
      with_fiber_inv[OF task_failed_inv[OF c t, of b i j, unfolded D] d] f
    by (simp add: vy_scheduler_f_def Let_def)
qed

lemma fiber_peek_step:
  assumes inv: "world_inv R vw" and f: "vw_fiber vw = Fiber_Peek w"
  shows "succeeds (world_inv R) (vy_scheduler_f inp vw)"
proof -
  let ?s = "vw_sched vw" and ?run = "vw_running vw"
  have "sched_inv R (tk_lsm ` set (?run @ vs_processed ?s @ [])) None (vs_processed ?s) (length (?run @ vs_processed ?s @ [])) ?s"
    using world_invD(1)[OF inv] f by (simp add: vw_tasks_def)
  from with_fiber_inv[OF vy_scheduler_peek_dump_inv[OF this]] show ?thesis
    using world_invD(2)[OF inv] f by (simp add: vy_scheduler_f_def Let_def vw_tasks_def)
qed

lemma fiber_scan_step:
  assumes inv: "world_inv R vw" and f: "vw_fiber vw = Fiber_Scan w l todo dl"
  shows "succeeds (world_inv R) (vy_scheduler_f inp vw)"
proof -
  let ?s = "vw_sched vw" and ?run = "vw_running vw"
  have c: "sched_inv R (tk_lsm ` set (?run @ vs_processed ?s @ [])) (Some l) (vs_processed ?s) (length (?run @ vs_processed ?s @ [])) ?s"
    using world_invD(1)[OF inv] f by (simp add: vw_tasks_def)
  have sc: "scan_ok (vs_dump_generation ?s) todo dl (vs_lsm ?s l)" using world_invD(3)[OF inv] f by simp
  then obtain mid rest where todo: "todo = mid # rest" by (cases todo) (auto simp: scan_ok_def)
  have "distinct (map tk_lsm (?run @ vs_processed ?s @ []))" using world_invD(2)[OF inv] f by (simp add: vw_tasks_def)
  note w = with_fiber_inv[OF _ this, of R]
  show ?thesis
    using dump_new_mem_inv[OF c sc[unfolded todo], of inp w]
    by (simp add: vy_scheduler_f_def Let_def f todo case_prod_beta) (erule succeeds_mono, rule w, simp)
qed

lemma fiber_prepare_step:
  assumes inv: "world_inv R vw" and f: "vw_fiber vw = Fiber_Prepare w l" and mem: "in_iterator_mem inp"
  shows "succeeds (world_inv R) (vy_scheduler_f inp vw)"
proof -
  let ?s = "vw_sched vw" and ?run = "vw_running vw"
  have c: "sched_inv R (tk_lsm ` set (?run @ vs_processed ?s)) (Some l) (vs_processed ?s) (length (?run @ vs_processed ?s)) ?s"
    using world_invD(1)[OF inv] f by (simp add: vw_tasks_def)
  have d: "distinct (map tk_lsm (?run @ vs_processed ?s))" using world_invD(2)[OF inv] f by (simp add: vw_tasks_def)
  have "succeeds (world_inv R) (with_fiber vw (Some (dump_new_failed w ?s)))"
    by (rule with_fiber_inv[where p = "vs_processed ?s" and batch = "[]"]) (use dump_new_failed_inv[OF c] d in simp_all)
  moreover have "world_inv R (vw\<lparr>vw_sched := s'\<lparr>vs_tasks_inprogress := vs_tasks_inprogress s' + 1\<rparr>, vw_fiber := Fiber_Loop,
      vw_running := ?run @ [\<lparr>tk_lsm = l, tk_worker = w, tk_failed = False\<rparr>]\<rparr>)"
    if s': "sched_inv R (insert l (tk_lsm ` set (?run @ vs_processed ?s))) None (vs_processed ?s) (length (?run @ vs_processed ?s)) s'" for s'
  proof -
    have "vs_processed s' = vs_processed ?s" using s' by (simp add: sched_inv_def)
    moreover have "sched_inv R (insert l (tk_lsm ` set (?run @ vs_processed ?s))) None (vs_processed ?s) (Suc (length (?run @ vs_processed ?s)))
        (s'\<lparr>vs_tasks_inprogress := vs_tasks_inprogress s' + 1\<rparr>)"
      by (rule sched_inv_cong[OF s']) (use s' in \<open>auto simp: sched_inv_def\<close>)
    ultimately show ?thesis
      using d vy_task_dump_new_end_inv(2)[OF c] by (simp add: world_inv_def vw_tasks_def image_Un Un_commute) 
  qed
  ultimately show ?thesis
    using vy_task_dump_new_end_inv(1)[OF c] mem f
    by (auto simp: vy_scheduler_f_def Let_def dump_new_prepared_def succeeds_if with_fiber_def case_prod_beta elim!: succeeds_mono)
qed

lemma fiber_throttle_step:
  assumes inv: "world_inv R vw" and f: "vw_fiber vw = Fiber_Throttle"
  shows "succeeds (world_inv R) (vy_scheduler_f inp vw)"
proof -
  let ?s = "vw_sched vw" and ?run = "vw_running vw"
  have c: "sched_inv R (tk_lsm ` set (?run @ vs_processed ?s @ [])) None (vs_processed ?s) (length (?run @ vs_processed ?s @ [])) ?s"
    using world_invD(1)[OF inv] f by (simp add: vw_tasks_def)
  have "sched_inv R (tk_lsm ` set (?run @ vs_processed ?s @ [])) None (vs_processed ?s) (length (?run @ vs_processed ?s @ [])) (?s\<lparr>vs_is_throttled := False\<rparr>)"
    by (rule sched_inv_cong[OF c]) (use c in \<open>auto simp: sched_inv_def\<close>)
  then show ?thesis
    using with_fiber_inv[of R vw "vs_processed ?s" "[]" "Some (Fiber_Loop, ?s\<lparr>vs_is_throttled := False\<rparr>)"] world_invD(2)[OF inv] f
    by (simp add: vy_scheduler_f_def Let_def vw_tasks_def fiber_inv_def)
qed

lemma vy_scheduler_f_inv:
  assumes "world_inv R vw" and "in_iterator_mem inp"
  shows "succeeds (world_inv R) (vy_scheduler_f inp vw)"
  using assms fiber_loop_step fiber_tasks_step fiber_commit_step fiber_peek_step fiber_scan_step fiber_prepare_step fiber_throttle_step
  by (cases "vw_fiber vw") blast+

text \<open>What happens around the fiber leaves the trees that its loop has not visited where they are.\<close>

definition scan_kept :: "nat set \<Rightarrow> vy_scheduler \<Rightarrow> vy_scheduler \<Rightarrow> bool" where
  "scan_kept R s s' \<longleftrightarrow> vs_dump_generation s' = vs_dump_generation s \<and>
     (\<forall>l\<in>R. \<exists>ks. map (\<lambda>m. (mm_id m, mm_generation m)) (lsm_sealed (vs_lsm s' l)) =
        ks @ map (\<lambda>m. (mm_id m, mm_generation m)) (lsm_sealed (vs_lsm s l)))"

lemma scan_ok_kept:
  assumes "scan_ok dg todo dump_lsn lsm"
    and "map (\<lambda>m. (mm_id m, mm_generation m)) (lsm_sealed lsm') = ks @ map (\<lambda>m. (mm_id m, mm_generation m)) (lsm_sealed lsm)"
  shows "scan_ok dg todo dump_lsn lsm'"
proof -
  obtain pre post where p: "map (\<lambda>m. (mm_id m, mm_generation m)) (lsm_sealed lsm) = pre @ post" "post \<noteq> []" "todo = map fst post"
      "\<forall>k\<in>set post. snd k \<le> dg" "dump_lsn \<ge> 0 \<longrightarrow> (\<exists>k\<in>set pre. snd k \<le> dg)"
    using assms(1) unfolding scan_ok_def by (elim exE conjE)
  show ?thesis
    unfolding scan_ok_def by (rule exI[of _ "ks @ pre"], rule exI[of _ post]) (use p assms(2) in auto)
qed

lemma with_sched_inv:
  assumes inv: "world_inv R vw"
    and s': "\<And>D busy p n. sched_inv R D busy p n (vw_sched vw) \<Longrightarrow> D = tk_lsm ` set (vw_tasks vw) \<Longrightarrow> busy = fiber_lsm (vw_fiber vw) \<Longrightarrow>
        succeeds (\<lambda>s'. sched_inv R' D busy p n s' \<and> scan_kept R (vw_sched vw) s') r"
  shows "succeeds (world_inv R') (with_sched vw r)"
proof -
  let ?s = "vw_sched vw"
  have "world_inv R' (vw\<lparr>vw_sched := s'\<rparr>)"
    if new: "sched_inv R' (tk_lsm ` set (vw_tasks vw)) (fiber_lsm (vw_fiber vw)) (vs_processed ?s) (length (vw_tasks vw) - committing (vw_fiber vw)) s'"
      "scan_kept R ?s s'" for s'
  proof -
    have p: "vs_processed s' = vs_processed ?s" using new(1) by (simp add: sched_inv_def)
    then have tasks: "vw_tasks (vw\<lparr>vw_sched := s'\<rparr>) = vw_tasks vw" by (simp add: vw_tasks_def)
    have "fiber_scan_ok (vw_fiber vw) s'"
    proof (cases "vw_fiber vw")
      case (Fiber_Scan w l todo dl)
      then have "l \<in> R" using world_invD(1)[OF inv] by (simp add: sched_inv_def trees_ok_def)
      then obtain ks where "map (\<lambda>m. (mm_id m, mm_generation m)) (lsm_sealed (vs_lsm s' l)) =
          ks @ map (\<lambda>m. (mm_id m, mm_generation m)) (lsm_sealed (vs_lsm ?s l))" using new(2) by (auto simp: scan_kept_def)
      moreover have "vs_dump_generation s' = vs_dump_generation ?s" using new(2) by (simp add: scan_kept_def)
      ultimately show ?thesis
        using scan_ok_kept world_invD(3)[OF inv] Fiber_Scan by simp
    qed simp_all
    then show ?thesis
      using new(1) world_invD(2)[OF inv] p unfolding world_inv_def tasks by simp
  qed
  then show ?thesis
    using s'[OF world_invD(1)[OF inv] refl refl] by (auto simp: with_sched_def elim!: succeeds_mono)
qed

lemma same_but_heaps_kept: "same_but_heaps s s' \<Longrightarrow> scan_kept R s s'"
  by (elim same_but_heapsE) (simp add: scan_kept_def)

lemma scan_kept_same: "vs_lsm s' = vs_lsm s \<Longrightarrow> vs_dump_generation s' = vs_dump_generation s \<Longrightarrow> scan_kept R s s'"
  by (simp add: scan_kept_def)

lemma scan_kept_set:
  assumes "l \<in> R \<Longrightarrow> map (\<lambda>m. (mm_id m, mm_generation m)) (lsm_sealed lsm) = ks @ map (\<lambda>m. (mm_id m, mm_generation m)) (lsm_sealed (vs_lsm s l))"
  shows "scan_kept R s (set_lsm l lsm s)"
  using assms by (simp add: scan_kept_def set_lsm_def)

lemma scan_kept_trans: "scan_kept R s s' \<Longrightarrow> scan_kept R s' s'' \<Longrightarrow> scan_kept R s s''"
  by (fastforce simp: scan_kept_def)

lemma round_begin_kept:
  "vy_scheduler_trigger_dump s = Some s' \<Longrightarrow> scan_kept R s s'"
  "vy_scheduler_dump_begin s = Some s' \<Longrightarrow> scan_kept R s s'"
  "vy_scheduler_begin_checkpoint is_scheduled s = Some r \<Longrightarrow> scan_kept R s (snd r)"
  "vy_scheduler_end_checkpoint s = Some s' \<Longrightarrow> scan_kept R s s'"
  by (rule scan_kept_same;
      auto simp: vy_scheduler_trigger_dump_def vy_scheduler_dump_begin_def vy_scheduler_begin_checkpoint_def vy_scheduler_end_checkpoint_def
        vy_scheduler_dump_in_progress_def c_assert_def Let_def split: if_splits bind_splits)+

lemma vy_scheduler_update_lsm_same: "vy_scheduler_update_lsm l s = Some s' \<Longrightarrow> same_but_heaps s s'"
  by (auto simp: vy_scheduler_update_lsm_def same_but_heaps_def c_assert_def Let_def split: if_splits bind_splits)


lemma succeeds_and: "succeeds P m \<Longrightarrow> (\<And>x. m = Some x \<Longrightarrow> Q x) \<Longrightarrow> succeeds (\<lambda>x. P x \<and> Q x) m"
  by (auto simp: succeeds_def split: option.splits)

lemma act_add_inv:
  assumes inv: "world_inv R vw" and "vy_allowed (Act_Add l iid pk) vw"
  shows "succeeds (world_inv (insert l R)) (vy_act (Act_Add l iid pk) vw)"
proof -
  let ?s = "vw_sched vw"
  let ?s1 = "(set_lsm l (vy_lsm_new iid pk (vs_next_mem ?s) (vs_generation ?s)) ?s)\<lparr>vs_next_mem := vs_next_mem ?s + 1\<rparr>"
  have heaps: "heaps_ok R ?s" "trees_ok R (fiber_lsm (vw_fiber vw)) ?s" using world_invD(1)[OF inv] by (simp_all add: sched_inv_def)
  note stray = heaps_ok_stray[OF heaps(1)]
  have l: "l \<notin> R" "hp_size (vs_dump_heap ?s) < 2147483647"
    and pk: "case pk of None \<Rightarrow> iid = 0 | Some p \<Rightarrow> iid \<noteq> 0 \<and> p \<in> R \<and> lsm_index_id (vs_lsm ?s p) = 0"
    using assms(2) stray by (auto simp: Let_def split: option.splits)
  have "heaps_ok R (?s\<lparr>vs_lsm := (vs_lsm ?s)(l := vy_lsm_new iid pk (vs_next_mem ?s) (vs_generation ?s))\<rparr>)"
    by (rule heaps_ok_set[OF heaps(1)]) (use l(1) in auto)
  then have h: "heaps_ok R ?s1" by (simp add: set_lsm_def)
  have size: "unat (hp_size (vs_dump_heap ?s1)) + 1 < 2 ^ 31" using l(2) by (simp add: set_lsm_def word_less_nat_alt)
  have add: "succeeds (\<lambda>s'. heaps_ok (insert l R) s' \<and> same_but_heaps ?s1 s') (map_option snd (vy_scheduler_add_lsm True True True l ?s1))"
    using add_lsm_ok[OF h l(1) size] by (auto elim!: succeeds_mono)
  have kept: "scan_kept R ?s ?s1" using l(1) by (simp add: scan_kept_def set_lsm_def)
  have "succeeds (world_inv (insert l R)) (with_sched vw (map_option snd (vy_scheduler_add_lsm True True True l ?s1)))"
  proof (rule with_sched_inv[OF inv])
    fix D busy p n assume s: "sched_inv R D busy p n ?s"
    then have ok: "trees_ok R busy ?s" by (simp add: sched_inv_def)
    show "succeeds (\<lambda>s'. sched_inv (insert l R) D busy p n s' \<and> scan_kept R ?s s') (map_option snd (vy_scheduler_add_lsm True True True l ?s1))"
      using add
    proof (rule succeeds_mono)
      fix s' assume s': "heaps_ok (insert l R) s' \<and> same_but_heaps ?s1 s'"
      have "sched_inv (insert l R) D busy p n s'"
        by (rule sched_inv_heaps[OF s' trees_ok_add(1)[OF ok l(1) pk]]) (use trees_ok_add(2)[OF ok l(1) pk] s in \<open>simp_all add: sched_inv_def set_lsm_def\<close>)
      then show "sched_inv (insert l R) D busy p n s' \<and> scan_kept R ?s s'"
        using s' scan_kept_trans[OF kept same_but_heaps_kept] by blast
    qed
  qed
  then show ?thesis by (simp add: Let_def)
qed

lemma act_delete_inv:
  assumes inv: "world_inv R vw" and "vy_allowed (Act_Delete l) vw"
  shows "succeeds (world_inv (R - {l})) (vy_act (Act_Delete l) vw)"
proof -
  let ?s = "vw_sched vw"
  have heaps: "heaps_ok R ?s" using world_invD(1)[OF inv] by (simp add: sched_inv_def)
  have l: "l \<in> R" "l \<notin> tk_lsm ` set (vw_tasks vw)" "fiber_lsm (vw_fiber vw) \<noteq> Some l" "\<And>k. k \<in> R \<Longrightarrow> lsm_pk (vs_lsm ?s k) \<noteq> Some l"
    using assms(2) heaps_ok_stray[OF heaps] heaps_ok_registered[OF heaps] by (auto simp: Let_def)
  have "succeeds (world_inv (R - {l})) (with_sched vw (vy_scheduler_on_delete_lsm l ?s))"
  proof (rule with_sched_inv[OF inv])
    fix D busy p n assume s: "sched_inv R D busy p n ?s" and D: "D = tk_lsm ` set (vw_tasks vw)" "busy = fiber_lsm (vw_fiber vw)"
    then have ok: "trees_ok R busy ?s" "dumping R ?s = D" by (simp_all add: sched_inv_def)
    show "succeeds (\<lambda>s'. sched_inv (R - {l}) D busy p n s' \<and> scan_kept R ?s s') (vy_scheduler_on_delete_lsm l ?s)"
      using delete_lsm_ok[OF heaps l(1)]
    proof (rule succeeds_mono)
      fix s' assume s': "heaps_ok (R - {l}) s' \<and> same_but_heaps ?s s'"
      have "l \<notin> dumping R ?s" "busy \<noteq> Some l" using l(2,3) D ok(2) by simp_all
      note del = trees_ok_delete[OF ok(1) this l(4)]
      have "sched_inv (R - {l}) D busy p n s'"
        by (rule sched_inv_heaps[OF s' del(1)]) (use del(2) s in \<open>simp_all add: sched_inv_def\<close>)
      then show "sched_inv (R - {l}) D busy p n s' \<and> scan_kept R ?s s'"
        using s' same_but_heaps_kept by blast
    qed
  qed
  then show ?thesis by simp
qed

lemma lsm_map_mem_like:
  assumes "lsm_wf g n lsm" and "\<And>m. mm_id (f m) = mm_id m \<and> mm_generation (f m) = mm_generation m"
  shows "lsm_like lsm (lsm_map_mem mid f lsm)" "lsm_wf g n (lsm_map_mem mid f lsm)"
    "map (\<lambda>m. (mm_id m, mm_generation m)) (lsm_sealed (lsm_map_mem mid f lsm)) = [] @ map (\<lambda>m. (mm_id m, mm_generation m)) (lsm_sealed lsm)"
proof -
  let ?g = "\<lambda>m. if mm_id m = mid then f m else m"
  have g: "mm_id (?g m) = mm_id m" "mm_generation (?g m) = mm_generation m" for m using assms(2) by simp_all
  show "lsm_like lsm (lsm_map_mem mid f lsm)"
    by (simp add: lsm_like_def lsm_map_mem_def Let_def vy_lsm_generation_def last_map g)
  show "lsm_wf g n (lsm_map_mem mid f lsm)"
    using assms(1) unfolding lsm_wf_def by (auto simp: lsm_map_mem_def Let_def sorted_wrt_map g o_def assms(2))
  show "map (\<lambda>m. (mm_id m, mm_generation m)) (lsm_sealed (lsm_map_mem mid f lsm)) = [] @ map (\<lambda>m. (mm_id m, mm_generation m)) (lsm_sealed lsm)"
    by (simp add: lsm_map_mem_def Let_def g o_def)
qed

lemma act_lsm_inv:
  assumes inv: "world_inv R vw" and l: "in_dump l (vw_sched vw)"
  shows "succeeds (world_inv R) (vy_act (Act_Drop l) vw)" "succeeds (world_inv R) (vy_act (Act_Mem l mid n lsn) vw)"
    "succeeds (world_inv R) (vy_act (Act_Write l schema memory) vw)" "succeeds (world_inv R) (vy_act (Act_Compaction l priority) vw)"
proof -
  let ?s = "vw_sched vw"
  have ok: "heaps_ok R ?s" "trees_ok R (fiber_lsm (vw_fiber vw)) ?s" using world_invD(1)[OF inv] by (simp_all add: sched_inv_def)
  have l: "l \<in> R" using l heaps_ok_stray[OF ok(1)] by blast
  note wf = trees_ok_wf[OF ok(2) l]
  have set: "succeeds (world_inv R) (with_sched vw (Some (set_lsm l lsm ?s)))"
    if "lsm_like (vs_lsm ?s l) lsm" "lsm_wf (vs_generation ?s) (vs_next_mem ?s) lsm"
      "map (\<lambda>m. (mm_id m, mm_generation m)) (lsm_sealed lsm) = [] @ map (\<lambda>m. (mm_id m, mm_generation m)) (lsm_sealed (vs_lsm ?s l))" for lsm
    by (rule with_sched_inv[OF inv]) (use sched_inv_like'[OF _ that(1,2)] scan_kept_set that(3) in simp)
  show "succeeds (world_inv R) (vy_act (Act_Drop l) vw)"
    using set[of "(vs_lsm ?s l)\<lparr>lsm_is_dropped := True\<rparr>"] wf by (simp add: Let_def lsm_like_def)
  show "succeeds (world_inv R) (vy_act (Act_Mem l mid n lsn) vw)"
    using set[OF lsm_map_mem_like[OF wf]] by (simp add: Let_def)
  show "succeeds (world_inv R) (vy_act (Act_Write l schema memory) vw)"
  proof -
    have "scan_kept R ?s (snd (vy_tx_write_prepare schema memory l ?s))"
      by (auto simp: vy_tx_write_prepare_def vy_lsm_rotate_mem_def scan_kept_def set_lsm_def split: option.split)
    then have "succeeds (world_inv R) (with_sched vw (Some (snd (vy_tx_write_prepare schema memory l ?s))))"
      by (intro with_sched_inv[OF inv]) (use vy_tx_write_prepare_inv l in simp)
    then show ?thesis by simp
  qed
  show "succeeds (world_inv R) (vy_act (Act_Compaction l priority) vw)"
  proof -
    have "scan_kept R ?s s'" if "vy_scheduler_force_compaction priority l ?s = Some s'" for s'
    proof (rule scan_kept_trans)
      show "scan_kept R (set_lsm l ((vs_lsm ?s l)\<lparr>lsm_range_top := priority\<rparr>) ?s) s'"
        using that vy_scheduler_update_lsm_same same_but_heaps_kept by (auto simp: vy_scheduler_force_compaction_def)
      show "scan_kept R ?s (set_lsm l ((vs_lsm ?s l)\<lparr>lsm_range_top := priority\<rparr>) ?s)" by (rule scan_kept_set[of _ _ _ "[]"]) simp
    qed
    then have "succeeds (world_inv R) (with_sched vw (vy_scheduler_force_compaction priority l ?s))"
      by (intro with_sched_inv[OF inv] succeeds_and) (use vy_scheduler_force_compaction_inv l in auto)
    then show ?thesis by simp
  qed
qed

lemma act_round_inv:
  assumes inv: "world_inv R vw"
  shows "succeeds (world_inv R) (vy_act Act_Trigger vw)" "succeeds (world_inv R) (vy_act Act_Dump vw)"
    "vy_allowed (Act_Begin is_scheduled) vw \<Longrightarrow> succeeds (world_inv R) (vy_act (Act_Begin is_scheduled) vw)"
    "succeeds (world_inv R) (vy_act Act_End vw)"
proof -
  let ?s = "vw_sched vw"
  have "succeeds (world_inv R) (with_sched vw (vy_scheduler_trigger_dump ?s))"
    by (intro with_sched_inv[OF inv] succeeds_and round_begin_inv(1) round_begin_kept(1))
  then show "succeeds (world_inv R) (vy_act Act_Trigger vw)" by simp
  have "succeeds (world_inv R) (with_sched vw (vy_scheduler_dump_begin ?s))"
    by (intro with_sched_inv[OF inv] succeeds_and round_begin_inv(2) round_begin_kept(2))
  then show "succeeds (world_inv R) (vy_act Act_Dump vw)" by simp
  have "succeeds (world_inv R) (with_sched vw (vy_scheduler_end_checkpoint ?s))"
    by (intro with_sched_inv[OF inv] succeeds_and vy_scheduler_end_checkpoint_inv round_begin_kept(4))
  then show "succeeds (world_inv R) (vy_act Act_End vw)" by simp
  show "succeeds (world_inv R) (vy_act (Act_Begin is_scheduled) vw)" if "vy_allowed (Act_Begin is_scheduled) vw"
  proof -
    have "succeeds (world_inv R) (with_sched vw (map_option snd (vy_scheduler_begin_checkpoint is_scheduled ?s)))"
      by (intro with_sched_inv[OF inv] succeeds_and) (use that round_begin_inv(3) round_begin_kept(3) in auto)
    then show ?thesis by simp
  qed
qed

lemma act_executed_inv:
  assumes inv: "world_inv R vw" and i: "i < length (vw_running vw)"
  shows "succeeds (world_inv R) (vy_act (Act_Executed i is_failed) vw)"
proof -
  let ?s = "vw_sched vw" and ?t = "vw_running vw ! i"
  let ?vw = "vw\<lparr>vw_sched := ?s\<lparr>vs_processed := vs_processed ?s @ [?t\<lparr>tk_failed := is_failed\<rparr>]\<rparr>,
    vw_running := take i (vw_running vw) @ drop (Suc i) (vw_running vw)\<rparr>"
  have run: "vw_running vw = take i (vw_running vw) @ ?t # drop (Suc i) (vw_running vw)" by (rule id_take_nth_drop[OF i])
  have "mset (map tk_lsm (vw_tasks ?vw)) = mset (map tk_lsm (vw_tasks vw))"
    unfolding vw_tasks_def by (subst (3) run) simp
  then have m: "tk_lsm ` set (vw_tasks ?vw) = tk_lsm ` set (vw_tasks vw)" "distinct (map tk_lsm (vw_tasks ?vw))" "length (vw_tasks ?vw) = length (vw_tasks vw)"
    using world_invD(2)[OF inv] by (metis mset_eq_setD set_map, metis mset_eq_imp_distinct_iff, metis length_map mset_eq_length)
  have "sched_inv R (tk_lsm ` set (vw_tasks vw)) (fiber_lsm (vw_fiber vw)) (vs_processed (vw_sched ?vw))
      (length (vw_tasks vw) - committing (vw_fiber vw)) (vw_sched ?vw)"
    by (rule sched_inv_cong[OF world_invD(1)[OF inv]]) (use world_invD(1)[OF inv] in \<open>auto simp: sched_inv_def\<close>)
  moreover have "fiber_scan_ok (vw_fiber vw) (vw_sched ?vw)"
    using world_invD(3)[OF inv] by (cases "vw_fiber vw") simp_all
  ultimately have "world_inv R ?vw" unfolding world_inv_def m using m(2) by simp
  then show ?thesis by (simp add: Let_def)
qed

lemma vy_act_inv:
  assumes "world_inv R vw" and "vy_allowed a vw"
  shows "succeeds (\<lambda>vw'. \<exists>R'. world_inv R' vw') (vy_act a vw)"
proof -
  have "\<exists>R'. succeeds (world_inv R') (vy_act a vw)"
  proof (cases a)
    case (Act_Add l iid pk)
    then show ?thesis using act_add_inv assms by blast
  next
    case (Act_Delete l)
    then show ?thesis using act_delete_inv assms by blast
  next
    case (Act_Executed i is_failed)
    then have "i < length (vw_running vw)" using assms(2) by simp
    then show ?thesis using act_executed_inv[OF assms(1)] Act_Executed by blast
  next
    case (Act_Fiber inp)
    then show ?thesis using vy_scheduler_f_inv assms by auto
  qed (use assms act_lsm_inv[OF assms(1)] act_round_inv[OF assms(1)] in \<open>auto simp del: vy_act.simps intro!: exI[of _ R]\<close>)
  then show ?thesis by (auto elim!: succeeds_mono)
qed

end
