(* ===== verification/Vy_Rounds.thy ===== *)
theory Vy_Rounds
  imports Vy_Dump
begin



section \<open>Properties\<close>


text \<open>Scenarios.\<close>

fun vy_run :: "vy_action list \<Rightarrow> vy_world \<Rightarrow> vy_world option" where
  "vy_run [] vw = Some vw"
| "vy_run (a # as) vw = (if vy_allowed a vw then do { vw \<leftarrow> vy_act a vw; vy_run as vw } else None)"


definition vy_scenario :: "vy_action list \<Rightarrow> vy_world option" where
  "vy_scenario as = do { s \<leftarrow> vy_scheduler_create 4 no_heap (\<lambda>_. vy_lsm_new 0 None 0 0); vy_run as (vy_start s) }"


definition turns :: "nat \<Rightarrow> vy_action list" where
  "turns n = replicate n (Act_Fiber \<lparr>in_mem = True, in_task = True, in_run = True, in_iterator = True, in_iterator_mem = True,
     in_complete = True, in_priority = None\<rparr>)"







text \<open>
  A round may end without a signal: a checkpoint waits for the dump of an LSM tree, the LSM tree is deleted, and the
  fiber catches up with the generation of another one.  The waiting fiber would find the round over, but nothing
  wakes it up.
\<close>

lemma vy_round_ends_unsignalled:
  "case vy_scenario ([Act_Add 0 0 None, Act_Begin False, Act_Delete 0, Act_Add 1 0 None] @ turns 3) of None \<Rightarrow> False
   | Some vw \<Rightarrow> vs_checkpoint_in_progress (vw_sched vw) \<and> vs_events (vw_sched vw) = [] \<and>
       vy_scheduler_wait_checkpoint (vw_sched vw) = Some Wait_Done"
  by code_simp

text \<open>An LSM tree that is added with an outdated generation breaks an assertion of the next dump.\<close>

lemma vy_outdated_lsm_fails:
  "case vy_scenario ([Act_Trigger] @ turns 3) of None \<Rightarrow> False
   | Some vw \<Rightarrow>
       (let s = vw_sched vw; s = set_lsm 0 (vy_lsm_new 0 None 0 0) s
        in vs_dump_generation s = 1 \<and>
           (case vy_scheduler_add_lsm True True True 0 s of None \<Rightarrow> False
            | Some (_, s) \<Rightarrow> vy_run (Act_Trigger # turns 3) (vw\<lparr>vw_sched := s\<rparr>) = None))"
  by code_simp

end
