(* ===== verification/Csv.thy ===== *)
theory Csv
  imports Prelude
begin

text \<open>
  The CSV parser and printer of \<open>src/lib/csv/csv.c\<close>, and the two loops of
  \<open>src/lua/csv.lua\<close> that drive them (\<open>iter\<close> and \<open>dump\<close>).

  The parser writes the field it collects into a buffer that it reallocates.
  \<open>cs_buf\<close> is the allocated block (\<^const>\<open>None\<close> is \<open>NULL\<close>), \<open>cs_bufp\<close> the
  offset of the write pointer in it (\<^const>\<open>None\<close> is \<open>NULL\<close>).  A write outside
  of the block, a pointer moved in front of the block, a dereferenced \<open>NULL\<close> or
  a failed assertion makes the operation \<^const>\<open>None\<close>.  The calls of \<open>emit_field\<close>
  and \<open>emit_row\<close> are returned as a list of outputs.  Input memory is a list, a
  pointer into it the list of the characters up to \<open>end\<close>.  \<open>realloc\<close> is a
  parameter: \<open>alloc n\<close> says whether a request of \<open>n\<close> bytes is granted.
  Sizes are natural numbers: the buffer doubles when it is full, so an input of at
  most \<^const>\<open>INT_MAX\<close> characters keeps it below \<open>2 ^ 33\<close> bytes, far from the end of
  \<open>size_t\<close>.
\<close>

section \<open>The parser\<close>

datatype csv_parser_state =
    CSV_LEADING_SPACES
  | CSV_OUT_OF_QUOTES
  | CSV_IN_QUOTES
  | CSV_QUOTE_OPENING
  | CSV_QUOTE_CLOSING
  | CSV_LINE_BREAKING
  | CSV_NEWFIELD
  | CSV_END_OF_LAST_LINE

datatype csv_error_status = CSV_ER_OK | CSV_ER_INVALID | CSV_ER_MEMORY_ERROR

record csv =
  cs_delimiter :: char
  cs_quote_char :: char
  cs_prev_symbol :: char
  cs_error_status :: csv_error_status
  cs_ending_spaces :: nat
  cs_state :: csv_parser_state
  cs_buf :: "char list option"
  cs_bufp :: "nat option"
  cs_buf_len :: nat

datatype csv_out = Field string | Row

abbreviation NUL :: char where
  "NUL \<equiv> CHR 0x00"

abbreviation LF :: char where
  "LF \<equiv> CHR 0x0A"

abbreviation CR :: char where
  "CR \<equiv> CHR 0x0D"

abbreviation SP :: char where
  "SP \<equiv> CHR '' ''"

definition csv_create :: csv where
  "csv_create = \<lparr>cs_delimiter = CHR '','', cs_quote_char = CHR 0x22, cs_prev_symbol = NUL,
     cs_error_status = CSV_ER_OK, cs_ending_spaces = 0, cs_state = CSV_LEADING_SPACES,
     cs_buf = None, cs_bufp = None, cs_buf_len = 0\<rparr>"

definition csv_destroy :: "csv \<Rightarrow> csv" where
  "csv_destroy csv = (if cs_buf csv \<noteq> None then csv\<lparr>cs_buf := None\<rparr> else csv)"

definition csv_isvalid :: "csv \<Rightarrow> bool \<times> csv" where
  "csv_isvalid csv =
     (let csv = (if cs_error_status csv = CSV_ER_OK \<and> cs_state csv = CSV_IN_QUOTES
                 then csv\<lparr>cs_error_status := CSV_ER_INVALID\<rparr> else csv)
      in (cs_error_status csv = CSV_ER_OK, csv))"

definition csv_get_error_status :: "csv \<Rightarrow> csv_error_status" where
  "csv_get_error_status csv = cs_error_status csv"

datatype csv_option = CSV_OPT_DELIMITER char | CSV_OPT_QUOTE char

fun csv_setopt :: "csv_option \<Rightarrow> csv \<Rightarrow> csv" where
  "csv_setopt (CSV_OPT_DELIMITER c) csv = csv\<lparr>cs_delimiter := c\<rparr>"
| "csv_setopt (CSV_OPT_QUOTE c) csv = csv\<lparr>cs_quote_char := c\<rparr>"

definition is_line_end :: "char \<Rightarrow> bool" where
  "is_line_end c = (c = LF \<or> c = CR)"

text \<open>\<open>*csv->bufp++ = c\<close>.\<close>

definition csv_put :: "char \<Rightarrow> csv \<Rightarrow> csv option" where
  "csv_put c csv =
     (case (cs_buf csv, cs_bufp csv) of
        (Some b, Some i) \<Rightarrow>
          if i < length b then Some (csv\<lparr>cs_buf := Some (b[i := c]), cs_bufp := Some (Suc i)\<rparr>) else None
      | _ \<Rightarrow> None)"

text \<open>\<open>csv->bufp -= csv->ending_spaces\<close>.\<close>

definition csv_trim :: "csv \<Rightarrow> csv option" where
  "csv_trim csv =
     (case cs_bufp csv of
        Some i \<Rightarrow> if cs_ending_spaces csv \<le> i then Some (csv\<lparr>cs_bufp := Some (i - cs_ending_spaces csv)\<rparr>) else None
      | None \<Rightarrow> if cs_ending_spaces csv = 0 then Some csv else None)"

text \<open>The count of trailing spaces, a C \<open>int\<close> that is never negative: counting past \<^const>\<open>INT_MAX\<close> is undefined.\<close>

definition csv_count_spaces :: "char \<Rightarrow> csv \<Rightarrow> csv option" where
  "csv_count_spaces c csv =
     (if c = SP then do { n \<leftarrow> c_int (int (cs_ending_spaces csv) + 1); Some (csv\<lparr>cs_ending_spaces := nat n\<rparr>) }
      else Some (csv\<lparr>cs_ending_spaces := 0\<rparr>))"

text \<open>\<open>csv->bufp = csv->buf\<close>.\<close>

definition csv_rewind :: "csv \<Rightarrow> csv" where
  "csv_rewind csv = csv\<lparr>cs_bufp := map_option (\<lambda>_. 0) (cs_buf csv)\<rparr>"

text \<open>The bytes between \<open>csv->buf\<close> and \<open>csv->bufp\<close>.\<close>

definition csv_field :: "csv \<Rightarrow> string option" where
  "csv_field csv =
     (case (cs_buf csv, cs_bufp csv) of (Some b, Some i) \<Rightarrow> Some (take i b) | _ \<Rightarrow> None)"

text \<open>The block that reallocates the buffer; \<open>False\<close> is the memory error.  Pointer
  arithmetic on two \<open>NULL\<close>s makes \<open>bufp\<close> point to the new block.\<close>

definition csv_reserve :: "(nat \<Rightarrow> bool) \<Rightarrow> csv \<Rightarrow> bool \<times> csv" where
  "csv_reserve alloc csv =
     (if cs_buf csv = None \<or> (case cs_bufp csv of None \<Rightarrow> False | Some i \<Rightarrow> cs_buf_len csv < i + 1) then
        let new_size = (if cs_buf_len csv = 0 \<or> cs_buf csv = None then 256 else cs_buf_len csv * 2)
        in if \<not> alloc new_size then (False, csv\<lparr>cs_error_status := CSV_ER_MEMORY_ERROR\<rparr>)
           else (True, csv\<lparr>cs_buf_len := new_size,
                           cs_bufp := (case cs_bufp csv of None \<Rightarrow> Some 0 | Some i \<Rightarrow> Some i),
                           cs_buf := (let b = (case cs_buf csv of None \<Rightarrow> [] | Some b \<Rightarrow> b)
                                      in Some (b @ replicate (new_size - length b) NUL))\<rparr>)
      else (True, csv))"

text \<open>The first switch; the flag says that the character has been handled (\<open>continue\<close>).\<close>

definition csv_switch1 :: "char \<Rightarrow> csv \<Rightarrow> (bool \<times> csv) option" where
  "csv_switch1 c csv =
     (case cs_state csv of
        CSV_LEADING_SPACES \<Rightarrow>
          let csv = csv_rewind csv
          in if c = SP then Some (True, csv) else Some (False, csv\<lparr>cs_state := CSV_OUT_OF_QUOTES\<rparr>)
      | CSV_QUOTE_OPENING \<Rightarrow>
          if c = cs_quote_char csv \<and> cs_bufp csv \<noteq> None then
            do { csv \<leftarrow> csv_put (cs_quote_char csv) csv; Some (True, csv\<lparr>cs_state := CSV_OUT_OF_QUOTES\<rparr>) }
          else Some (False, csv\<lparr>cs_state := CSV_IN_QUOTES\<rparr>)
      | CSV_QUOTE_CLOSING \<Rightarrow>
          if c = cs_quote_char csv then
            do { csv \<leftarrow> csv_put (cs_quote_char csv) csv; Some (True, csv\<lparr>cs_state := CSV_IN_QUOTES\<rparr>) }
          else Some (False, csv\<lparr>cs_state := CSV_OUT_OF_QUOTES\<rparr>)
      | _ \<Rightarrow> Some (False, csv))"

text \<open>How an iteration of the loop ends: with the next character, with \<open>return p\<close>,
  with the return of \<open>p + 1\<close>, or with \<open>return NULL\<close>.\<close>

datatype csv_ret = Next | Return_p | Return_p1 | Return_NULL

text \<open>The case \<open>CSV_OUT_OF_QUOTES\<close> of the second switch.\<close>

definition csv_out_of_quotes :: "bool \<Rightarrow> char \<Rightarrow> csv \<Rightarrow> (csv \<times> csv_out list \<times> csv_ret) option" where
  "csv_out_of_quotes firstonly c csv =
     (let finish = (\<lambda>out csv. do {
            csv \<leftarrow> csv_count_spaces c csv;
            if is_line_end c then Some (csv\<lparr>cs_bufp := None\<rparr>, out @ [Row], Next)
            else Some (csv, out, Next) })
      in if is_line_end c \<or> c = cs_delimiter csv then
           do { csv \<leftarrow> csv_trim (csv\<lparr>cs_state := CSV_LEADING_SPACES\<rparr>);
                let csv = csv\<lparr>cs_ending_spaces := 0\<rparr>;
                if firstonly then Some (csv\<lparr>cs_state := CSV_NEWFIELD\<rparr>, [], Return_p)
                else do { field \<leftarrow> csv_field csv; finish [Field field] (csv_rewind csv) } }
         else if c = cs_quote_char csv then finish [] (csv\<lparr>cs_state := CSV_QUOTE_OPENING\<rparr>)
         else do { csv \<leftarrow> csv_put c csv; finish [] csv })"

definition csv_switch2 :: "bool \<Rightarrow> char \<Rightarrow> csv \<Rightarrow> (csv \<times> csv_out list \<times> csv_ret) option" where
  "csv_switch2 firstonly c csv =
     (case cs_state csv of
        CSV_OUT_OF_QUOTES \<Rightarrow> csv_out_of_quotes firstonly c csv
      | CSV_IN_QUOTES \<Rightarrow>
          do { csv \<leftarrow> c_assert (cs_bufp csv \<noteq> None) csv;
               if c = cs_quote_char csv then Some (csv\<lparr>cs_state := CSV_QUOTE_CLOSING\<rparr>, [], Next)
               else do { csv \<leftarrow> csv_put c csv; Some (csv, [], Next) } }
      | CSV_NEWFIELD \<Rightarrow>
          let csv = (csv_rewind csv)\<lparr>cs_state := CSV_LEADING_SPACES\<rparr>
          in if is_line_end c then Some (csv\<lparr>cs_bufp := None\<rparr>, [], Return_p1) else Some (csv, [], Next)
      | _ \<Rightarrow> Some (csv, [], Next))"

text \<open>One iteration of the loop of \<open>csv_parse_impl\<close>.\<close>

definition csv_step :: "(nat \<Rightarrow> bool) \<Rightarrow> bool \<Rightarrow> char \<Rightarrow> csv \<Rightarrow> (csv \<times> csv_out list \<times> csv_ret) option" where
  "csv_step alloc firstonly c csv =
     (let (ok, csv) = csv_reserve alloc csv
      in if \<not> ok then Some (csv, [], Return_NULL)
         else if is_line_end c \<and> cs_state csv \<noteq> CSV_IN_QUOTES \<and> c \<noteq> cs_prev_symbol csv \<and>
                 is_line_end (cs_prev_symbol csv)
         then Some (csv\<lparr>cs_prev_symbol := NUL\<rparr>, [], Next)
         else do { (handled, csv) \<leftarrow> csv_switch1 c (csv\<lparr>cs_prev_symbol := c\<rparr>);
                   if handled then Some (csv, [], Next) else csv_switch2 firstonly c csv })"

text \<open>The result is the parser, the emitted outputs and the unprocessed tail
  (\<^const>\<open>None\<close> is \<open>NULL\<close>, the empty list is \<open>end\<close>).\<close>

fun csv_loop :: "(nat \<Rightarrow> bool) \<Rightarrow> bool \<Rightarrow> string \<Rightarrow> csv \<Rightarrow> (csv \<times> csv_out list \<times> string option) option" where
  "csv_loop alloc firstonly [] csv = Some (csv, [], Some [])"
| "csv_loop alloc firstonly (c # s) csv =
     do { (csv, out, ret) \<leftarrow> csv_step alloc firstonly c csv;
          (case ret of
             Next \<Rightarrow> do { (csv, out', tail) \<leftarrow> csv_loop alloc firstonly s csv; Some (csv, out @ out', tail) }
           | Return_p \<Rightarrow> Some (csv, out, Some (c # s))
           | Return_p1 \<Rightarrow> Some (csv, out, if s = [] then None else Some s)
           | Return_NULL \<Rightarrow> Some (csv, out, None)) }"

definition csv_parse_impl :: "(nat \<Rightarrow> bool) \<Rightarrow> csv \<Rightarrow> string \<Rightarrow> bool \<Rightarrow> (csv \<times> csv_out list \<times> string option) option" where
  "csv_parse_impl alloc csv s firstonly =
     (if s = [] then Some (csv, [], None) else csv_loop alloc firstonly s csv)"

definition csv_parse_chunk :: "(nat \<Rightarrow> bool) \<Rightarrow> string \<Rightarrow> csv \<Rightarrow> (csv \<times> csv_out list) option" where
  "csv_parse_chunk alloc s csv =
     do { (csv, out, _) \<leftarrow> csv_parse_impl alloc csv s False; Some (csv, out) }"

definition csv_finish_parsing :: "csv \<Rightarrow> (csv \<times> csv_out list) option" where
  "csv_finish_parsing csv =
     (let (valid, csv) = csv_isvalid csv
      in if valid then
           do { (csv, out) \<leftarrow>
                  (if cs_bufp csv \<noteq> None then
                     do { csv \<leftarrow> csv_trim csv; field \<leftarrow> csv_field csv; Some (csv, [Field field, Row]) }
                   else Some (csv, []));
                Some (csv\<lparr>cs_bufp := None, cs_buf := None, cs_buf_len := 0\<rparr>, out) }
         else Some (csv, []))"

section \<open>The iterator\<close>

datatype csv_iteration_state = CSV_IT_OK | CSV_IT_EOL | CSV_IT_NEEDMORE | CSV_IT_EOF | CSV_IT_ERROR

text \<open>\<open>ci_buf\<close> is the input from \<open>buf_begin\<close> to \<open>buf_end\<close>, \<^const>\<open>None\<close> when
  \<open>buf_begin\<close> is \<open>NULL\<close>; \<open>ci_field\<close> the returned field with its length.\<close>

record csv_iterator =
  ci_csv :: csv
  ci_buf :: "string option"
  ci_field :: "string option"

definition csv_iterator_create :: "csv \<Rightarrow> csv_iterator" where
  "csv_iterator_create csv = \<lparr>ci_csv = csv, ci_buf = None, ci_field = None\<rparr>"

definition csv_feed :: "string \<Rightarrow> csv_iterator \<Rightarrow> csv_iterator" where
  "csv_feed s it = it\<lparr>ci_buf := Some s\<rparr>"

text \<open>The release of the parser's buffer that two branches of \<open>csv_next\<close> share.\<close>

definition csv_release :: "csv \<Rightarrow> csv" where
  "csv_release csv = csv\<lparr>cs_buf := None, cs_bufp := None, cs_buf_len := 0\<rparr>"

text \<open>The branch of \<open>csv_next\<close> for an empty input buffer.\<close>

definition csv_next_end :: "csv_iterator \<Rightarrow> (csv_iteration_state \<times> csv_iterator) option" where
  "csv_next_end it =
     (let csv = ci_csv it
      in if cs_bufp csv = None then Some (CSV_IT_EOF, it)
         else let (invalid, csv) = (if cs_error_status csv = CSV_ER_OK
                                    then let (valid, csv) = csv_isvalid csv in (\<not> valid, csv)
                                    else (False, csv))
              in if invalid then Some (CSV_IT_ERROR, it\<lparr>ci_csv := csv_release csv\<rparr>)
                 else if cs_state csv \<noteq> CSV_END_OF_LAST_LINE then
                   do { csv \<leftarrow> csv_trim (csv\<lparr>cs_state := CSV_END_OF_LAST_LINE\<rparr>);
                        field \<leftarrow> csv_field csv;
                        Some (CSV_IT_OK, it\<lparr>ci_csv := csv_rewind csv, ci_field := Some field\<rparr>) }
                 else Some (CSV_IT_EOL, it\<lparr>ci_csv := csv_release csv\<rparr>))"

definition csv_next :: "(nat \<Rightarrow> bool) \<Rightarrow> csv_iterator \<Rightarrow> (csv_iteration_state \<times> csv_iterator) option" where
  "csv_next alloc it =
     (let it = it\<lparr>ci_field := None\<rparr>
      in case ci_buf it of
           None \<Rightarrow> Some (CSV_IT_NEEDMORE, it)
         | Some [] \<Rightarrow> csv_next_end it
         | Some s \<Rightarrow>
             do { (csv, _, tail) \<leftarrow> csv_parse_impl alloc (ci_csv it) s True;
                  let it = it\<lparr>ci_csv := csv\<rparr>;
                  if csv_get_error_status csv = CSV_ER_MEMORY_ERROR then Some (CSV_IT_ERROR, it)
                  else let it = it\<lparr>ci_buf := tail\<rparr>
                       in if tail = Some [] then Some (CSV_IT_NEEDMORE, it)
                          else if cs_bufp csv = None then Some (CSV_IT_EOL, it)
                          else do { field \<leftarrow> csv_field csv; Some (CSV_IT_OK, it\<lparr>ci_field := Some field\<rparr>) } })"

text \<open>The loop of \<open>iter\<close> in \<open>csv.lua\<close>, run until the iteration ends: the fields
  and rows that a program reading \<open>s\<close> gets.  A string has no \<open>read\<close>, so every
  request for more input is answered with an empty buffer.\<close>

partial_function (option) csv_iterate ::
    "(nat \<Rightarrow> bool) \<Rightarrow> csv_iterator \<Rightarrow> (csv_out list \<times> csv_iteration_state) option" where
  "csv_iterate alloc it =
     do { (st, it) \<leftarrow> csv_next alloc it;
          (case st of
             CSV_IT_EOF \<Rightarrow> Some ([], CSV_IT_EOF)
           | CSV_IT_ERROR \<Rightarrow> Some ([], CSV_IT_ERROR)
           | CSV_IT_NEEDMORE \<Rightarrow> csv_iterate alloc (csv_feed [] it)
           | CSV_IT_EOL \<Rightarrow> do { (out, end) \<leftarrow> csv_iterate alloc it; Some (Row # out, end) }
           | CSV_IT_OK \<Rightarrow>
               do { field \<leftarrow> ci_field it; (out, end) \<leftarrow> csv_iterate alloc it; Some (Field field # out, end) }) }"

declare csv_iterate.simps [code]

section \<open>The printer\<close>

text \<open>\<open>*p++ = c\<close> in \<open>csv_escape_field\<close>, where \<open>out\<close> are the bytes from \<open>dst\<close> to
  \<open>p\<close>: writing past \<open>buf_size\<close> bytes fails, asserted by the source or not.\<close>

definition esc_put :: "nat \<Rightarrow> char \<Rightarrow> string \<Rightarrow> string option" where
  "esc_put buf_size c out = (if length out < buf_size then Some (out @ [c]) else None)"

text \<open>The loop over the bytes of \<open>field\<close>, which stops at the first NUL.\<close>

fun esc_loop :: "char \<Rightarrow> nat \<Rightarrow> string \<Rightarrow> string \<Rightarrow> string option" where
  "esc_loop q buf_size [] out = Some out"
| "esc_loop q buf_size (c # field) out =
     (if c = NUL then Some out
      else do { out \<leftarrow> (if c = q then esc_put buf_size q out else Some out);
                out \<leftarrow> esc_put buf_size c out;
                esc_loop q buf_size field out })"

definition csv_escape_field :: "csv \<Rightarrow> string \<Rightarrow> nat \<Rightarrow> string option" where
  "csv_escape_field csv field buf_size =
     (let inquotes = (cs_delimiter csv \<in> set field \<or> LF \<in> set field \<or> CR \<in> set field); q = cs_quote_char csv
      in do { out \<leftarrow> (if inquotes then esc_put buf_size q [] else Some []);
              out \<leftarrow> esc_loop q buf_size field out;
              out \<leftarrow> (if inquotes then esc_put buf_size q out else Some out);
              _ \<leftarrow> esc_put buf_size NUL out;
              Some out })"

text \<open>The two loops of \<open>dump\<close> in \<open>csv.lua\<close>; \<open>bufsz\<close> is the size of the buffer,
  which grows with the longest field.\<close>

fun dump_line :: "csv \<Rightarrow> bool \<Rightarrow> string list \<Rightarrow> nat \<Rightarrow> (string \<times> nat) option" where
  "dump_line csv first [] bufsz = Some ([LF], bufsz)"
| "dump_line csv first (strf # line) bufsz =
     do { let buf_new_size = (length strf + 1) * 2;
          let bufsz = (if buf_new_size > bufsz then buf_new_size else bufsz);
          esc \<leftarrow> csv_escape_field csv strf bufsz;
          (rest, bufsz) \<leftarrow> dump_line csv False line bufsz;
          Some ((if first then [] else [cs_delimiter csv]) @ esc @ rest, bufsz) }"

fun dump_lines :: "csv \<Rightarrow> string list list \<Rightarrow> nat \<Rightarrow> string option" where
  "dump_lines csv [] bufsz = Some []"
| "dump_lines csv (line # t) bufsz =
     do { (out, bufsz) \<leftarrow> dump_line csv True line bufsz;
          rest \<leftarrow> dump_lines csv t bufsz;
          Some (out @ rest) }"

text \<open>Options of \<open>dump\<close> and of \<open>iterate\<close>: a fresh parser with its two characters.\<close>

definition csv_with :: "char \<Rightarrow> char \<Rightarrow> csv" where
  "csv_with delimiter quote_char =
     csv_setopt (CSV_OPT_QUOTE quote_char) (csv_setopt (CSV_OPT_DELIMITER delimiter) csv_create)"

definition csv_dump :: "char \<Rightarrow> char \<Rightarrow> string list list \<Rightarrow> string option" where
  "csv_dump delimiter quote_char t = dump_lines (csv_with delimiter quote_char) t 256"


section \<open>The parser without its buffer\<close>

text \<open>The reference parser: the field collected so far is a list (\<^const>\<open>None\<close>:
  no field at the moment), so nothing can go out of bounds.\<close>

record pst =
  ps_state :: csv_parser_state
  ps_prev :: char
  ps_spaces :: nat
  ps_acc :: "string option"

definition pfield :: "pst \<Rightarrow> string" where
  "pfield p = (let acc = the (ps_acc p) in take (length acc - ps_spaces p) acc)"

definition pput :: "char \<Rightarrow> pst \<Rightarrow> pst" where
  "pput c p = p\<lparr>ps_acc := map_option (\<lambda>acc. acc @ [c]) (ps_acc p)\<rparr>"

definition pout :: "char \<Rightarrow> char \<Rightarrow> bool \<Rightarrow> char \<Rightarrow> pst \<Rightarrow> pst \<times> csv_out list \<times> csv_ret" where
  "pout d q fo c p =
     (if is_line_end c \<or> c = d then
        if fo then (p\<lparr>ps_state := CSV_NEWFIELD, ps_spaces := 0, ps_acc := Some (pfield p)\<rparr>, [], Return_p)
        else (p\<lparr>ps_state := CSV_LEADING_SPACES, ps_spaces := 0,
                ps_acc := (if is_line_end c then None else Some [])\<rparr>,
              Field (pfield p) # (if is_line_end c then [Row] else []), Next)
      else if c = q then (p\<lparr>ps_state := CSV_QUOTE_OPENING, ps_spaces := 0\<rparr>, [], Next)
      else ((pput c p)\<lparr>ps_spaces := (if c = SP then ps_spaces p + 1 else 0)\<rparr>, [], Next))"

definition pin :: "char \<Rightarrow> char \<Rightarrow> pst \<Rightarrow> pst \<times> csv_out list \<times> csv_ret" where
  "pin q c p = (if c = q then (p\<lparr>ps_state := CSV_QUOTE_CLOSING\<rparr>, [], Next) else (pput c p, [], Next))"

definition pmain :: "char \<Rightarrow> char \<Rightarrow> bool \<Rightarrow> char \<Rightarrow> pst \<Rightarrow> pst \<times> csv_out list \<times> csv_ret" where
  "pmain d q fo c p =
     (case ps_state p of
        CSV_LEADING_SPACES \<Rightarrow>
          if c = SP then (p\<lparr>ps_acc := Some []\<rparr>, [], Next)
          else pout d q fo c (p\<lparr>ps_acc := Some [], ps_state := CSV_OUT_OF_QUOTES\<rparr>)
      | CSV_OUT_OF_QUOTES \<Rightarrow> pout d q fo c p
      | CSV_IN_QUOTES \<Rightarrow> pin q c p
      | CSV_QUOTE_OPENING \<Rightarrow>
          if c = q then ((pput c p)\<lparr>ps_state := CSV_OUT_OF_QUOTES\<rparr>, [], Next)
          else pin q c (p\<lparr>ps_state := CSV_IN_QUOTES\<rparr>)
      | CSV_QUOTE_CLOSING \<Rightarrow>
          if c = q then ((pput c p)\<lparr>ps_state := CSV_IN_QUOTES\<rparr>, [], Next)
          else pout d q fo c (p\<lparr>ps_state := CSV_OUT_OF_QUOTES\<rparr>)
      | CSV_NEWFIELD \<Rightarrow>
          if is_line_end c then (p\<lparr>ps_acc := None, ps_state := CSV_LEADING_SPACES\<rparr>, [], Return_p1)
          else (p\<lparr>ps_acc := Some [], ps_state := CSV_LEADING_SPACES\<rparr>, [], Next)
      | _ \<Rightarrow> (p, [], Next))"

definition pstep :: "char \<Rightarrow> char \<Rightarrow> bool \<Rightarrow> char \<Rightarrow> pst \<Rightarrow> pst \<times> csv_out list \<times> csv_ret" where
  "pstep d q fo c p =
     (if is_line_end c \<and> ps_state p \<noteq> CSV_IN_QUOTES \<and> c \<noteq> ps_prev p \<and> is_line_end (ps_prev p)
      then (p\<lparr>ps_prev := NUL\<rparr>, [], Next)
      else pmain d q fo c (p\<lparr>ps_prev := c\<rparr>))"

text \<open>What the buffer of a parser stands for; a parser without a buffer gets an
  empty one before it looks at the next character.\<close>

definition abs_acc :: "csv \<Rightarrow> string option" where
  "abs_acc csv = (case cs_buf csv of None \<Rightarrow> Some [] | Some b \<Rightarrow> map_option (\<lambda>i. take i b) (cs_bufp csv))"

definition csv_abs :: "csv \<Rightarrow> pst" where
  "csv_abs csv = \<lparr>ps_state = cs_state csv, ps_prev = cs_prev_symbol csv, ps_spaces = cs_ending_spaces csv,
                  ps_acc = abs_acc csv\<rparr>"

definition pinv :: "pst \<Rightarrow> bool" where
  "pinv p = ((ps_state p \<noteq> CSV_OUT_OF_QUOTES \<and> ps_state p \<noteq> CSV_END_OF_LAST_LINE \<longrightarrow> ps_spaces p = 0) \<and>
             (case ps_acc p of
                None \<Rightarrow> ps_state p \<notin> {CSV_OUT_OF_QUOTES, CSV_IN_QUOTES, CSV_QUOTE_OPENING, CSV_QUOTE_CLOSING}
              | Some acc \<Rightarrow> ps_state p = CSV_OUT_OF_QUOTES \<longrightarrow> ps_spaces p \<le> length acc))"

text \<open>The well-formedness of a parser: the write pointer is inside the block, and the
  trailing spaces it counts have been written.\<close>

definition buf_wf :: "csv \<Rightarrow> bool" where
  "buf_wf csv =
     (case cs_buf csv of
        None \<Rightarrow> False
      | Some b \<Rightarrow> length b = cs_buf_len csv \<and> 0 < cs_buf_len csv \<and>
                  (case cs_bufp csv of None \<Rightarrow> True | Some i \<Rightarrow> i \<le> cs_buf_len csv))"

definition csv_inv :: "csv \<Rightarrow> bool" where
  "csv_inv csv = (cs_delimiter csv \<noteq> SP \<and> cs_quote_char csv \<noteq> SP \<and> pinv (csv_abs csv) \<and>
                  (if cs_buf csv = None then cs_bufp csv = None \<and> cs_state csv \<noteq> CSV_OUT_OF_QUOTES
                   else buf_wf csv))"

text \<open>What an operation leaves as it is.\<close>

definition frame :: "csv \<Rightarrow> csv \<Rightarrow> bool" where
  "frame csv csv' = (cs_delimiter csv' = cs_delimiter csv \<and> cs_quote_char csv' = cs_quote_char csv \<and>
                     cs_error_status csv' = cs_error_status csv)"

text \<open>The write pointer, where there is one, has room for one more character.\<close>

definition room :: "csv \<Rightarrow> bool" where
  "room csv = (buf_wf csv \<and> (case cs_bufp csv of None \<Rightarrow> True | Some i \<Rightarrow> i < cs_buf_len csv))"

section \<open>Refinement of the reference parser\<close>

lemma take_Suc_list_update: "i < length b \<Longrightarrow> take (Suc i) (b[i := c]) = take i b @ [c]"
  by (simp add: take_Suc_conv_app_nth)

lemma csv_abs_upd [simp]:
  "csv_abs (csv\<lparr>cs_state := st\<rparr>) = (csv_abs csv)\<lparr>ps_state := st\<rparr>"
  "csv_abs (csv\<lparr>cs_prev_symbol := c\<rparr>) = (csv_abs csv)\<lparr>ps_prev := c\<rparr>"
  "csv_abs (csv\<lparr>cs_ending_spaces := n\<rparr>) = (csv_abs csv)\<lparr>ps_spaces := n\<rparr>"
  "csv_abs (csv\<lparr>cs_error_status := e\<rparr>) = csv_abs csv"
  by (simp_all add: csv_abs_def abs_acc_def split: option.split)

lemma csv_abs_sel [simp]:
  "ps_state (csv_abs csv) = cs_state csv" "ps_prev (csv_abs csv) = cs_prev_symbol csv"
  "ps_spaces (csv_abs csv) = cs_ending_spaces csv" "ps_acc (csv_abs csv) = abs_acc csv"
  by (simp_all add: csv_abs_def)

lemma buf_wf_upd [simp]:
  "buf_wf (csv\<lparr>cs_state := st\<rparr>) = buf_wf csv" "buf_wf (csv\<lparr>cs_prev_symbol := c\<rparr>) = buf_wf csv"
  "buf_wf (csv\<lparr>cs_ending_spaces := n\<rparr>) = buf_wf csv" "buf_wf (csv\<lparr>cs_error_status := e\<rparr>) = buf_wf csv"
  by (simp_all add: buf_wf_def split: option.split)

lemma room_upd [simp]:
  "room (csv\<lparr>cs_state := st\<rparr>) = room csv" "room (csv\<lparr>cs_prev_symbol := c\<rparr>) = room csv"
  "room (csv\<lparr>cs_ending_spaces := n\<rparr>) = room csv"
  by (simp_all add: room_def split: option.split)

lemma room_buf_wf [simp]: "room csv \<Longrightarrow> buf_wf csv"
  by (simp add: room_def)

lemma room_rewind [simp]: "buf_wf csv \<Longrightarrow> room (csv_rewind csv)"
  by (auto simp: room_def buf_wf_def csv_rewind_def split: option.splits)

lemma csv_rewind_sel [simp]:
  "cs_state (csv_rewind csv) = cs_state csv" "cs_ending_spaces (csv_rewind csv) = cs_ending_spaces csv"
  "cs_prev_symbol (csv_rewind csv) = cs_prev_symbol csv" "cs_delimiter (csv_rewind csv) = cs_delimiter csv"
  "cs_quote_char (csv_rewind csv) = cs_quote_char csv" "cs_error_status (csv_rewind csv) = cs_error_status csv"
  "cs_buf (csv_rewind csv) = cs_buf csv"
  "cs_bufp (csv_rewind csv) = map_option (\<lambda>_. 0) (cs_buf csv)"
  by (simp_all add: csv_rewind_def)

lemma csv_abs_rewind [simp]: "csv_abs (csv_rewind csv) = (csv_abs csv)\<lparr>ps_acc := Some []\<rparr>"
  by (auto simp: csv_abs_def abs_acc_def csv_rewind_def split: option.splits)

lemma csv_no_field [simp]:
  assumes "buf_wf csv"
  shows "buf_wf (csv\<lparr>cs_bufp := None\<rparr>)" "csv_abs (csv\<lparr>cs_bufp := None\<rparr>) = (csv_abs csv)\<lparr>ps_acc := None\<rparr>"
  using assms by (auto simp: buf_wf_def csv_abs_def abs_acc_def split: option.splits)

lemma csv_field_upd [simp]:
  "csv_field (csv\<lparr>cs_ending_spaces := n\<rparr>) = csv_field csv" "csv_field (csv\<lparr>cs_state := st\<rparr>) = csv_field csv"
  by (simp_all add: csv_field_def split: option.split)

lemma buf_wf_rewind [simp]: "buf_wf csv \<Longrightarrow> buf_wf (csv_rewind csv)"
  by (simp add: room_buf_wf)

lemma csv_count_spaces_eq:
  "int (cs_ending_spaces csv) < INT_MAX \<or> c \<noteq> SP \<Longrightarrow>
     csv_count_spaces c csv = Some (csv\<lparr>cs_ending_spaces := (if c = SP then cs_ending_spaces csv + 1 else 0)\<rparr>)"
  by (auto simp: csv_count_spaces_def c_int_nonneg nat_add_distrib)

lemma csv_put_refines:
  assumes "room csv" "cs_bufp csv \<noteq> None"
  obtains csv' where "csv_put c csv = Some csv'" "buf_wf csv'" "csv_abs csv' = pput c (csv_abs csv)"
    "frame csv csv'" "cs_bufp csv' \<noteq> None"
    "cs_state csv' = cs_state csv" "cs_ending_spaces csv' = cs_ending_spaces csv"
  using assms
  by (auto simp: csv_put_def room_def buf_wf_def pput_def csv_abs_def abs_acc_def frame_def
      take_Suc_list_update split: option.splits)

lemma csv_trim_refines:
  assumes "buf_wf csv" "cs_bufp csv = Some i" "cs_ending_spaces csv \<le> i"
  obtains csv' where "csv_trim csv = Some csv'" "buf_wf csv'" "csv_field csv' = Some (pfield (csv_abs csv))"
    "csv_abs csv' = (csv_abs csv)\<lparr>ps_acc := Some (pfield (csv_abs csv))\<rparr>" "frame csv csv'"
    "cs_state csv' = cs_state csv" "cs_bufp csv' \<noteq> None"
  using assms
  by (auto simp: csv_trim_def csv_field_def room_def buf_wf_def pfield_def csv_abs_def abs_acc_def frame_def Let_def
      min_absorb1 split: option.splits)

lemma csv_reserve_cases:
  assumes "csv_inv csv"
  obtains (fail) "csv_reserve alloc csv = (False, csv\<lparr>cs_error_status := CSV_ER_MEMORY_ERROR\<rparr>)"
      "\<not> (\<forall>n. alloc n)"
  | (ok) csv' where "csv_reserve alloc csv = (True, csv')" "room csv'" "csv_abs csv' = csv_abs csv"
      "frame csv csv'"
proof -
  let ?grow = "cs_buf csv = None \<or> (case cs_bufp csv of None \<Rightarrow> False | Some i \<Rightarrow> cs_buf_len csv < i + 1)"
  let ?n = "if cs_buf_len csv = 0 \<or> cs_buf csv = None then 256 else cs_buf_len csv * 2"
  consider "\<not> ?grow" | "?grow" "\<not> alloc ?n" | "?grow" "alloc ?n"
    by blast
  then show ?thesis
  proof cases
    case 1
    then show ?thesis
      using assms ok[of csv]
      by (auto simp: csv_reserve_def csv_inv_def room_def frame_def not_less split: option.splits)
  next
    case 2
    then show ?thesis
      using fail by (auto simp: csv_reserve_def Let_def)
  next
    case 3
    then show ?thesis
      using assms ok[of "snd (csv_reserve alloc csv)"]
      by (auto simp: csv_reserve_def csv_inv_def room_def buf_wf_def frame_def csv_abs_def abs_acc_def Let_def
          split: option.splits)
  qed
qed

lemma csv_out_of_quotes_refines:
  assumes "room csv" "cs_bufp csv = Some i" "cs_ending_spaces csv \<le> i"
    "cs_delimiter csv \<noteq> SP" "cs_quote_char csv \<noteq> SP" "cs_state csv = CSV_OUT_OF_QUOTES"
    "int (cs_ending_spaces csv) < INT_MAX"
  shows "succeeds (\<lambda>(csv', out, ret). buf_wf csv' \<and> frame csv csv' \<and>
           (csv_abs csv', out, ret) = pout (cs_delimiter csv) (cs_quote_char csv) fo c (csv_abs csv))
         (csv_out_of_quotes fo c csv)"
proof -
  consider (endf) "is_line_end c \<or> c = cs_delimiter csv"
    | (quote) "\<not> is_line_end c" "c \<noteq> cs_delimiter csv" "c = cs_quote_char csv"
    | (other) "\<not> is_line_end c" "c \<noteq> cs_delimiter csv" "c \<noteq> cs_quote_char csv"
    by blast
  then show ?thesis
  proof cases
    case endf
    have "c \<noteq> SP" using endf assms by (auto simp: is_line_end_def)
    obtain csv' where t: "csv_trim (csv\<lparr>cs_state := CSV_LEADING_SPACES\<rparr>) = Some csv'" "buf_wf csv'"
      "csv_field csv' = Some (pfield (csv_abs csv))"
      "csv_abs csv' = (csv_abs csv)\<lparr>ps_state := CSV_LEADING_SPACES, ps_acc := Some (pfield (csv_abs csv))\<rparr>" "frame csv csv'"
      using csv_trim_refines[of "csv\<lparr>cs_state := CSV_LEADING_SPACES\<rparr>" i] assms
      by (auto simp: pfield_def frame_def)
    then show ?thesis using endf \<open>c \<noteq> SP\<close> assms
      by (auto simp: csv_out_of_quotes_def pout_def Let_def frame_def csv_count_spaces_eq)
  next
    case quote
    then show ?thesis using assms
      by (auto simp: csv_out_of_quotes_def pout_def Let_def frame_def csv_count_spaces_eq)
  next
    case other
    obtain csv' where "csv_put c csv = Some csv'" "buf_wf csv'" "csv_abs csv' = pput c (csv_abs csv)"
      "frame csv csv'" "cs_ending_spaces csv' = cs_ending_spaces csv"
      using csv_put_refines[of csv c] assms by auto
    then show ?thesis using other assms
      by (auto simp: csv_out_of_quotes_def pout_def Let_def frame_def csv_count_spaces_eq)
  qed
qed

lemma csv_switch2_in_quotes:
  assumes "room csv" "cs_bufp csv \<noteq> None" "cs_state csv = CSV_IN_QUOTES"
  shows "succeeds (\<lambda>(csv', out, ret). buf_wf csv' \<and> frame csv csv' \<and>
           (csv_abs csv', out, ret) = pin (cs_quote_char csv) c (csv_abs csv)) (csv_switch2 fo c csv)"
proof -
  obtain csv' where "csv_put c csv = Some csv'" "buf_wf csv'" "csv_abs csv' = pput c (csv_abs csv)"
    "frame csv csv'"
    using csv_put_refines[of csv c] assms by auto
  then show ?thesis using assms
    by (auto simp: csv_switch2_def pin_def frame_def)
qed

lemma pinv_pstep:
  assumes "pinv p" "d \<noteq> SP" "q \<noteq> SP" "pstep d q fo c p = (p', out, ret)"
  shows "pinv p'"
  using assms
  by (cases "ps_state p"; cases "ps_acc p")
    (auto simp: pstep_def pmain_def pout_def pin_def pput_def pinv_def Let_def split: if_splits)

lemma pinv_offset:
  assumes "pinv (csv_abs csv)" "room csv" "cs_state csv = CSV_OUT_OF_QUOTES"
  obtains i where "cs_bufp csv = Some i" "cs_ending_spaces csv \<le> i"
  using assms
  by (auto simp: pinv_def csv_abs_def abs_acc_def room_def buf_wf_def min_def split: option.splits if_splits)

text \<open>The two switches together, with room in the buffer.\<close>

lemma csv_switches_refine:
  assumes "room csv" "pinv (csv_abs csv)" "cs_delimiter csv \<noteq> SP" "cs_quote_char csv \<noteq> SP"
    "int (cs_ending_spaces csv) < INT_MAX"
  shows "succeeds (\<lambda>(csv', out, ret). buf_wf csv' \<and> frame csv csv' \<and>
           (csv_abs csv', out, ret) = pmain (cs_delimiter csv) (cs_quote_char csv) fo c (csv_abs csv))
         (do { (handled, csv) \<leftarrow> csv_switch1 c csv;
               if handled then Some (csv, [], Next) else csv_switch2 fo c csv })"
proof -
  have bufp: "cs_bufp csv \<noteq> None" "cs_ending_spaces csv = 0"
    if "cs_state csv \<in> {CSV_IN_QUOTES, CSV_QUOTE_OPENING, CSV_QUOTE_CLOSING}"
    using assms that by (auto simp: pinv_def abs_acc_def room_def buf_wf_def split: option.splits)
  show ?thesis
  proof (cases "cs_state csv")
    case CSV_LEADING_SPACES
    let ?csv = "(csv_rewind csv)\<lparr>cs_state := CSV_OUT_OF_QUOTES\<rparr>"
    have "cs_ending_spaces csv = 0" "cs_buf csv \<noteq> None"
      using assms CSV_LEADING_SPACES by (auto simp: pinv_def room_def buf_wf_def split: option.splits)
    then show ?thesis
      using CSV_LEADING_SPACES assms csv_out_of_quotes_refines[of ?csv 0 fo c]
      by (auto simp: csv_switch1_def csv_switch2_def pmain_def frame_def Let_def elim!: succeeds_mono)
  next
    case CSV_OUT_OF_QUOTES
    obtain i where "cs_bufp csv = Some i" "cs_ending_spaces csv \<le> i"
      using pinv_offset assms CSV_OUT_OF_QUOTES by blast
    then show ?thesis
      using CSV_OUT_OF_QUOTES assms csv_out_of_quotes_refines[of csv i fo c]
      by (auto simp: csv_switch1_def csv_switch2_def pmain_def)
  next
    case CSV_IN_QUOTES
    then show ?thesis
      using assms bufp csv_switch2_in_quotes[of csv c fo]
      by (auto simp: csv_switch1_def pmain_def)
  next
    case CSV_QUOTE_OPENING
    obtain csv' where "csv_put c csv = Some csv'" "buf_wf csv'" "csv_abs csv' = pput c (csv_abs csv)" "frame csv csv'"
      using csv_put_refines[of csv c] bufp CSV_QUOTE_OPENING assms by auto
    then show ?thesis
      using CSV_QUOTE_OPENING assms bufp csv_switch2_in_quotes[of "csv\<lparr>cs_state := CSV_IN_QUOTES\<rparr>" c fo]
      by (cases "c = cs_quote_char csv") (auto simp: csv_switch1_def pmain_def frame_def)
  next
    case CSV_QUOTE_CLOSING
    then obtain i where p: "cs_bufp csv = Some i" using bufp by auto
    obtain csv' where "csv_put c csv = Some csv'" "buf_wf csv'" "csv_abs csv' = pput c (csv_abs csv)" "frame csv csv'"
      using csv_put_refines[of csv c] p assms by auto
    then show ?thesis
      using CSV_QUOTE_CLOSING assms p bufp
        csv_out_of_quotes_refines[of "csv\<lparr>cs_state := CSV_OUT_OF_QUOTES\<rparr>" i fo c]
      by (cases "c = cs_quote_char csv") (auto simp: csv_switch1_def csv_switch2_def pmain_def frame_def)
  next
    case CSV_NEWFIELD
    then show ?thesis using assms
      by (simp add: csv_switch1_def csv_switch2_def pmain_def frame_def Let_def)
  qed (use assms in \<open>simp_all add: csv_switch1_def csv_switch2_def pmain_def frame_def\<close>)
qed

lemma csv_invI:
  assumes "buf_wf csv" "pinv (csv_abs csv)" "cs_delimiter csv \<noteq> SP" "cs_quote_char csv \<noteq> SP"
  shows "csv_inv csv"
  using assms by (auto simp: csv_inv_def buf_wf_def split: option.splits)

lemma buf_wf_buf: "buf_wf csv \<Longrightarrow> \<exists>b. cs_buf csv = Some b"
  by (auto simp: buf_wf_def split: option.splits)

text \<open>The spaces counted and the characters still to be read do not grow together.\<close>

lemma pstep_spaces:
  "pstep d q fo c p = (p', out, ret) \<Longrightarrow> ps_spaces p' + (if ret = Return_p then 1 else 0) \<le> ps_spaces p + 1"
  by (cases "ps_state p") (auto simp: pstep_def pmain_def pout_def pin_def pput_def split: if_splits)

lemma csv_step_refines:
  assumes "csv_inv csv" "int (cs_ending_spaces csv) < INT_MAX"
  shows "succeeds (\<lambda>(csv', out, ret). csv_inv csv' \<and> cs_delimiter csv' = cs_delimiter csv \<and> cs_quote_char csv' = cs_quote_char csv \<and>
           cs_ending_spaces csv' + (if ret = Return_p then 1 else 0) \<le> cs_ending_spaces csv + 1 \<and>
           (ret = Return_NULL \<and> out = [] \<and> cs_error_status csv' = CSV_ER_MEMORY_ERROR \<and> \<not> (\<forall>n. alloc n) \<or>
            cs_error_status csv' = cs_error_status csv \<and> cs_buf csv' \<noteq> None \<and>
            (csv_abs csv', out, ret) = pstep (cs_delimiter csv) (cs_quote_char csv) fo c (csv_abs csv)))
         (csv_step alloc fo c csv)"
  using assms(1)
proof (cases rule: csv_reserve_cases[where alloc = alloc])
  case fail
  then show ?thesis using assms
    by (auto simp: csv_step_def csv_inv_def)
next
  case (ok csv1)
  have i: "cs_delimiter csv1 \<noteq> SP" "cs_quote_char csv1 \<noteq> SP" "pinv (csv_abs csv1)"
    using assms ok by (auto simp: csv_inv_def frame_def)
  have spaces: "cs_ending_spaces csv1 = cs_ending_spaces csv" using arg_cong[OF ok(3), of ps_spaces] by simp
  have keeps: "pinv (csv_abs csv') \<and> cs_ending_spaces csv' + (if ret = Return_p then 1 else 0) \<le> cs_ending_spaces csv + 1"
    if "(csv_abs csv', out, ret) = pstep (cs_delimiter csv1) (cs_quote_char csv1) fo c (csv_abs csv1)" for csv' out ret
    using pinv_pstep[OF i(3,1,2) that[symmetric]] pstep_spaces[OF that[symmetric]] spaces by simp
  have "succeeds (\<lambda>(csv', out, ret). buf_wf csv' \<and> frame csv1 csv' \<and>
           (csv_abs csv', out, ret) = pstep (cs_delimiter csv1) (cs_quote_char csv1) fo c (csv_abs csv1))
         (csv_step alloc fo c csv)"
  proof (cases "is_line_end c \<and> cs_state csv1 \<noteq> CSV_IN_QUOTES \<and> c \<noteq> cs_prev_symbol csv1 \<and> is_line_end (cs_prev_symbol csv1)")
    case True
    then show ?thesis
      using ok(1,2) by (simp add: csv_step_def pstep_def frame_def)
  next
    case False
    have "pinv (csv_abs (csv1\<lparr>cs_prev_symbol := c\<rparr>))"
      using i(3) by (simp add: pinv_def split: option.splits)
    then show ?thesis
      using ok(1,2) i False spaces assms(2) csv_switches_refine[of "csv1\<lparr>cs_prev_symbol := c\<rparr>" fo c]
      by (auto simp add: csv_step_def pstep_def frame_def)
  qed
  then show ?thesis
    unfolding ok(3)[symmetric]
  proof (rule succeeds_mono, elim case_prodE conjE)
    fix x csv' y out ret
    assume x: "x = (csv', y)" "y = (out, ret)" "buf_wf csv'" "frame csv1 csv'"
      "(csv_abs csv', out, ret) = pstep (cs_delimiter csv1) (cs_quote_char csv1) fo c (csv_abs csv1)"
    from keeps[OF x(5)] show "case x of (csv', out, ret) \<Rightarrow> csv_inv csv' \<and> cs_delimiter csv' = cs_delimiter csv \<and>
        cs_quote_char csv' = cs_quote_char csv \<and>
        cs_ending_spaces csv' + (if ret = Return_p then 1 else 0) \<le> cs_ending_spaces csv + 1 \<and>
        (ret = Return_NULL \<and> out = [] \<and> cs_error_status csv' = CSV_ER_MEMORY_ERROR \<and> \<not> (\<forall>n. alloc n) \<or>
         cs_error_status csv' = cs_error_status csv \<and> cs_buf csv' \<noteq> None \<and>
         (csv_abs csv', out, ret) = pstep (cs_delimiter csv) (cs_quote_char csv) fo c (csv_abs csv1))"
      using x i ok(4) buf_wf_buf[OF x(3)] by (auto simp: frame_def intro!: csv_invI)
  qed
qed

fun ploop :: "char \<Rightarrow> char \<Rightarrow> bool \<Rightarrow> string \<Rightarrow> pst \<Rightarrow> pst \<times> csv_out list \<times> string option" where
  "ploop d q fo [] p = (p, [], Some [])"
| "ploop d q fo (c # s) p =
     (let (p, out, ret) = pstep d q fo c p
      in case ret of
           Next \<Rightarrow> let (p, out', tail) = ploop d q fo s p in (p, out @ out', tail)
         | Return_p \<Rightarrow> (p, out, Some (c # s))
         | Return_p1 \<Rightarrow> (p, out, if s = [] then None else Some s)
         | Return_NULL \<Rightarrow> (p, out, None))"

lemma pstep_not_NULL: "pstep d q fo c p = (p', out, ret) \<Longrightarrow> ret \<noteq> Return_NULL"
  by (cases "ps_state p") (auto simp: pstep_def pmain_def pout_def pin_def split: if_splits)

abbreviation unread :: "string option \<Rightarrow> nat" where
  "unread buf \<equiv> (case buf of None \<Rightarrow> 0 | Some s \<Rightarrow> length s)"

lemma csv_loop_refines:
  assumes "csv_inv csv" "int (cs_ending_spaces csv + length s) \<le> INT_MAX"
  shows "succeeds (\<lambda>(csv', out, tail). csv_inv csv' \<and> cs_delimiter csv' = cs_delimiter csv \<and> cs_quote_char csv' = cs_quote_char csv \<and>
           cs_ending_spaces csv' + unread tail \<le> cs_ending_spaces csv + length s \<and>
           (cs_error_status csv' = CSV_ER_MEMORY_ERROR \<and> \<not> (\<forall>n. alloc n) \<or>
            cs_error_status csv' = cs_error_status csv \<and> (s \<noteq> [] \<longrightarrow> cs_buf csv' \<noteq> None) \<and>
            (csv_abs csv', out, tail) = ploop (cs_delimiter csv) (cs_quote_char csv) fo s (csv_abs csv)))
         (csv_loop alloc fo s csv)"
  using assms
proof (induction s arbitrary: csv)
  case Nil
  then show ?case by simp
next
  case (Cons c s)
  have few: "int (cs_ending_spaces csv) < INT_MAX" using Cons.prems(2) by simp
  obtain csv1 out1 ret where step: "csv_step alloc fo c csv = Some (csv1, out1, ret)"
    "csv_inv csv1" "cs_delimiter csv1 = cs_delimiter csv" "cs_quote_char csv1 = cs_quote_char csv"
    "cs_ending_spaces csv1 + (if ret = Return_p then 1 else 0) \<le> cs_ending_spaces csv + 1"
    and cases: "ret = Return_NULL \<and> out1 = [] \<and> cs_error_status csv1 = CSV_ER_MEMORY_ERROR \<and> \<not> (\<forall>n. alloc n) \<or>
         cs_error_status csv1 = cs_error_status csv \<and> cs_buf csv1 \<noteq> None \<and>
         (csv_abs csv1, out1, ret) = pstep (cs_delimiter csv) (cs_quote_char csv) fo c (csv_abs csv)"
    using csv_step_refines[OF Cons.prems(1) few, of alloc fo c] by (elim succeedsE case_prodE) blast
  from cases show ?case
  proof (elim disjE conjE)
    assume "ret = Return_NULL" "cs_error_status csv1 = CSV_ER_MEMORY_ERROR" "\<not> (\<forall>n. alloc n)"
    then show ?thesis using step by (auto split: if_splits)
  next
    assume a: "cs_error_status csv1 = cs_error_status csv" "cs_buf csv1 \<noteq> None"
      "(csv_abs csv1, out1, ret) = pstep (cs_delimiter csv) (cs_quote_char csv) fo c (csv_abs csv)"
    show ?thesis
    proof (cases ret)
      case Next
      have "int (cs_ending_spaces csv1 + length s) \<le> INT_MAX" using step(5) Next Cons.prems(2) by simp
      note IH = Cons.IH[OF step(2) this]
      obtain csv2 out2 tail where l: "csv_loop alloc fo s csv1 = Some (csv2, out2, tail)"
        "csv_inv csv2" "cs_delimiter csv2 = cs_delimiter csv" "cs_quote_char csv2 = cs_quote_char csv"
        "cs_ending_spaces csv2 + unread tail \<le> cs_ending_spaces csv1 + length s"
        and d: "cs_error_status csv2 = CSV_ER_MEMORY_ERROR \<and> \<not> (\<forall>n. alloc n) \<or>
          cs_error_status csv2 = cs_error_status csv1 \<and> (s \<noteq> [] \<longrightarrow> cs_buf csv2 \<noteq> None) \<and>
          (csv_abs csv2, out2, tail) = ploop (cs_delimiter csv) (cs_quote_char csv) fo s (csv_abs csv1)"
        using IH[unfolded step(3,4)] by (elim succeedsE case_prodE) blast
      from d show ?thesis
      proof
        assume "cs_error_status csv2 = CSV_ER_MEMORY_ERROR \<and> \<not> (\<forall>n. alloc n)"
        then show ?thesis using step(1,5) l Next by simp
      next
        assume d: "cs_error_status csv2 = cs_error_status csv1 \<and> (s \<noteq> [] \<longrightarrow> cs_buf csv2 \<noteq> None) \<and>
          (csv_abs csv2, out2, tail) = ploop (cs_delimiter csv) (cs_quote_char csv) fo s (csv_abs csv1)"
        then have pl: "ploop (cs_delimiter csv) (cs_quote_char csv) fo s (csv_abs csv1) = (csv_abs csv2, out2, tail)"
          by simp
        have "cs_buf csv2 \<noteq> None"
          using d l(1) a(2) by (cases "s = []") auto
        then show ?thesis
          using step(1,5) l d a(1) Next by (simp add: a(3)[symmetric] pl)
      qed
    qed (use step a pstep_not_NULL[OF a(3)[symmetric]] in \<open>auto simp: a(3)[symmetric]\<close>)
  qed
qed

lemma csv_parse_impl_refines:
  assumes "csv_inv csv" "s \<noteq> []" "int (cs_ending_spaces csv + length s) \<le> INT_MAX"
  shows "succeeds (\<lambda>(csv', out, tail). csv_inv csv' \<and> cs_delimiter csv' = cs_delimiter csv \<and> cs_quote_char csv' = cs_quote_char csv \<and>
           cs_ending_spaces csv' + unread tail \<le> cs_ending_spaces csv + length s \<and>
           (cs_error_status csv' = CSV_ER_MEMORY_ERROR \<and> \<not> (\<forall>n. alloc n) \<or>
            cs_error_status csv' = cs_error_status csv \<and> cs_buf csv' \<noteq> None \<and>
            (csv_abs csv', out, tail) = ploop (cs_delimiter csv) (cs_quote_char csv) fo s (csv_abs csv)))
         (csv_parse_impl alloc csv s fo)"
  using csv_loop_refines[OF assms(1,3), of alloc fo] assms(2) by (auto simp: csv_parse_impl_def elim!: succeeds_mono)

section \<open>Memory safety\<close>

lemma csv_inv_with: "d \<noteq> SP \<Longrightarrow> q \<noteq> SP \<Longrightarrow> csv_inv (csv_with d q)"
  by (simp add: csv_with_def csv_create_def csv_inv_def pinv_def csv_abs_def abs_acc_def)

lemma csv_inv_bufp: "csv_inv csv \<Longrightarrow> cs_bufp csv \<noteq> None \<Longrightarrow> buf_wf csv"
  by (auto simp: csv_inv_def split: if_splits)

lemma csv_inv_offset:
  assumes "csv_inv csv" "cs_bufp csv = Some i" "cs_state csv \<noteq> CSV_END_OF_LAST_LINE"
  shows "cs_ending_spaces csv \<le> i"
  using assms csv_inv_bufp[OF assms(1)]
  by (auto simp: csv_inv_def pinv_def csv_abs_def abs_acc_def buf_wf_def min_def split: option.splits if_splits)

lemma csv_isvalid_eq:
  "csv_isvalid csv = (if cs_error_status csv = CSV_ER_OK \<and> cs_state csv = CSV_IN_QUOTES
                      then (False, csv\<lparr>cs_error_status := CSV_ER_INVALID\<rparr>) else (cs_error_status csv = CSV_ER_OK, csv))"
  by (simp add: csv_isvalid_def)

lemma csv_inv_error [simp]: "csv_inv (csv\<lparr>cs_error_status := e\<rparr>) = csv_inv csv"
  by (simp add: csv_inv_def)

text \<open>What is emitted at the end of the input, and how the iteration ends.\<close>

definition pfinal :: "pst \<Rightarrow> csv_out list \<times> csv_iteration_state" where
  "pfinal p = (if ps_state p = CSV_IN_QUOTES then ([], CSV_IT_ERROR)
               else if ps_acc p = None then ([], CSV_IT_EOF)
               else ([Field (pfield p), Row], CSV_IT_EOF))"

lemma csv_finish_parsing_refines:
  assumes "csv_inv csv" "cs_buf csv \<noteq> None" "cs_error_status csv = CSV_ER_OK"
    "cs_state csv \<noteq> CSV_END_OF_LAST_LINE"
  shows "\<exists>csv'. csv_finish_parsing csv = Some (csv', fst (pfinal (csv_abs csv))) \<and>
           (cs_error_status csv' = CSV_ER_OK \<longleftrightarrow> snd (pfinal (csv_abs csv)) = CSV_IT_EOF)"
proof (cases "cs_state csv \<noteq> CSV_IN_QUOTES \<and> cs_bufp csv \<noteq> None")
  case True
  then obtain i where i: "cs_bufp csv = Some i" by auto
  obtain csv' where "csv_trim csv = Some csv'" "csv_field csv' = Some (pfield (csv_abs csv))" "frame csv csv'"
    using csv_trim_refines[OF csv_inv_bufp[OF assms(1)] i csv_inv_offset[OF assms(1) i assms(4)]] i by auto
  then show ?thesis
    using True assms by (auto simp: csv_finish_parsing_def csv_isvalid_def pfinal_def abs_acc_def frame_def)
next
  case False
  then show ?thesis
    using assms by (auto simp: csv_finish_parsing_def csv_isvalid_def pfinal_def abs_acc_def csv_inv_def pinv_def)
qed

lemma csv_finish_parsing_safe:
  assumes "csv_inv csv" "cs_state csv \<noteq> CSV_END_OF_LAST_LINE"
  shows "csv_finish_parsing csv \<noteq> None"
proof (cases "cs_error_status csv = CSV_ER_OK \<and> cs_state csv \<noteq> CSV_IN_QUOTES \<and> cs_bufp csv \<noteq> None")
  case True
  then obtain i where i: "cs_bufp csv = Some i" by auto
  obtain csv' where "csv_trim csv = Some csv'" "csv_field csv' = Some (pfield (csv_abs csv))"
    using csv_trim_refines[OF csv_inv_bufp[OF assms(1)] i csv_inv_offset[OF assms(1) i assms(2)]] i by auto
  then show ?thesis
    using True by (simp add: csv_finish_parsing_def csv_isvalid_eq)
next
  case False
  then show ?thesis by (auto simp: csv_finish_parsing_def csv_isvalid_eq)
qed

lemma csv_inv_release: "csv_inv csv \<Longrightarrow> cs_state csv \<noteq> CSV_OUT_OF_QUOTES \<Longrightarrow> csv_inv (csv_release csv)"
  by (auto simp: csv_inv_def csv_release_def pinv_def csv_abs_def abs_acc_def)

lemma csv_release_spaces: "cs_ending_spaces (csv_release csv) = cs_ending_spaces csv"
  by (simp add: csv_release_def)

text \<open>\<open>csv_next\<close> on an empty buffer, case by case.\<close>

lemma csv_next_end_cases:
  assumes "csv_inv (ci_csv it)"
  obtains (eof) "cs_bufp (ci_csv it) = None" "csv_next_end it = Some (CSV_IT_EOF, it)"
  | (invalid) csv' where "cs_bufp (ci_csv it) \<noteq> None" "cs_error_status (ci_csv it) = CSV_ER_OK" "cs_state (ci_csv it) = CSV_IN_QUOTES"
      "csv_next_end it = Some (CSV_IT_ERROR, it\<lparr>ci_csv := csv'\<rparr>)" "csv_inv csv'" "cs_ending_spaces csv' = cs_ending_spaces (ci_csv it)"
  | (eol) "cs_state (ci_csv it) = CSV_END_OF_LAST_LINE"  "cs_bufp (ci_csv it) \<noteq> None"
      "csv_next_end it = Some (CSV_IT_EOL, it\<lparr>ci_csv := csv_release (ci_csv it)\<rparr>)"
  | (field) csv' where "cs_bufp (ci_csv it) \<noteq> None" "cs_state (ci_csv it) \<noteq> CSV_END_OF_LAST_LINE"
      "cs_error_status (ci_csv it) = CSV_ER_OK \<longrightarrow> cs_state (ci_csv it) \<noteq> CSV_IN_QUOTES"
      "csv_next_end it = Some (CSV_IT_OK, it\<lparr>ci_csv := csv', ci_field := Some (pfield (csv_abs (ci_csv it)))\<rparr>)"
      "csv_inv csv'" "cs_state csv' = CSV_END_OF_LAST_LINE" "cs_bufp csv' \<noteq> None"
      "cs_error_status csv' = cs_error_status (ci_csv it)" "cs_ending_spaces csv' = cs_ending_spaces (ci_csv it)"
proof -
  let ?csv = "ci_csv it"
  consider "cs_bufp ?csv = None"
    | "cs_bufp ?csv \<noteq> None" "cs_error_status ?csv = CSV_ER_OK" "cs_state ?csv = CSV_IN_QUOTES"
    | "cs_bufp ?csv \<noteq> None" "cs_state ?csv = CSV_END_OF_LAST_LINE"
    | "cs_bufp ?csv \<noteq> None" "cs_error_status ?csv = CSV_ER_OK \<longrightarrow> cs_state ?csv \<noteq> CSV_IN_QUOTES"
      "cs_state ?csv \<noteq> CSV_END_OF_LAST_LINE"
    by blast
  then show ?thesis
  proof cases
    case 1
    then show ?thesis using eof by (simp add: csv_next_end_def)
  next
    case 2
    then show ?thesis
      using invalid[of "csv_release (?csv\<lparr>cs_error_status := CSV_ER_INVALID\<rparr>)"] assms
      by (simp add: csv_next_end_def Let_def csv_isvalid_eq csv_inv_release csv_release_spaces)
  next
    case 3
    then show ?thesis using eol by (simp add: csv_next_end_def Let_def csv_isvalid_eq)
  next
    case 4
    then obtain i where i: "cs_bufp ?csv = Some i" by auto
    let ?fin = "?csv\<lparr>cs_state := CSV_END_OF_LAST_LINE\<rparr>"
    have "buf_wf ?fin" "cs_bufp ?fin = Some i" "cs_ending_spaces ?fin \<le> i"
      using csv_inv_bufp[OF assms] csv_inv_offset[OF assms i 4(3)] i by simp_all
    then obtain csv' where t: "csv_trim ?fin = Some csv'" "buf_wf csv'" "csv_field csv' = Some (pfield (csv_abs ?fin))"
      "csv_abs csv' = (csv_abs ?fin)\<lparr>ps_acc := Some (pfield (csv_abs ?fin))\<rparr>" "frame ?fin csv'"
      "cs_state csv' = CSV_END_OF_LAST_LINE"
      by (rule csv_trim_refines) simp
    have "csv_inv (csv_rewind csv')"
      using t assms by (intro csv_invI) (auto simp: pinv_def frame_def csv_inv_def)
    moreover have "cs_bufp (csv_rewind csv') \<noteq> None"
      using buf_wf_buf[OF t(2)] by auto
    moreover have "pfield (csv_abs ?fin) = pfield (csv_abs ?csv)"
      by (simp add: pfield_def)
    moreover have "cs_ending_spaces csv' = cs_ending_spaces ?csv"
      using arg_cong[OF t(4), of ps_spaces] by simp
    ultimately show ?thesis
      using field[of "csv_rewind csv'"] t 4
      by (simp add: csv_next_end_def Let_def csv_isvalid_eq frame_def)
  qed
qed

text \<open>The spaces counted and the input that is still to be read.\<close>

definition it_budget :: "csv_iterator \<Rightarrow> nat" where
  "it_budget it = cs_ending_spaces (ci_csv it) + unread (ci_buf it)"

lemma csv_next_safe:
  assumes "csv_inv (ci_csv it)" "int (it_budget it) \<le> INT_MAX"
  shows "succeeds (\<lambda>(st, it'). csv_inv (ci_csv it') \<and> (st \<noteq> CSV_IT_ERROR \<longrightarrow> it_budget it' \<le> it_budget it)) (csv_next alloc it)"
proof (cases "ci_buf it")
  case None
  then show ?thesis using assms by (simp add: csv_next_def it_budget_def)
next
  case (Some s)
  show ?thesis
  proof (cases "s = []")
    case True
    have "csv_inv (ci_csv (it\<lparr>ci_field := None\<rparr>))" using assms by simp
    then show ?thesis
      using Some True assms
      by (cases rule: csv_next_end_cases) (auto simp: csv_next_def it_budget_def csv_release_spaces intro: csv_inv_release)
  next
    case False
    have "int (cs_ending_spaces (ci_csv it) + length s) \<le> INT_MAX" using assms(2) Some by (simp add: it_budget_def)
    from csv_parse_impl_refines[OF assms(1) False this, of alloc True]
    obtain csv' out tail where p: "csv_parse_impl alloc (ci_csv it) s True = Some (csv', out, tail)" "csv_inv csv'"
        "cs_ending_spaces csv' + unread tail \<le> cs_ending_spaces (ci_csv it) + length s"
      by (elim succeedsE case_prodE) blast
    have "cs_bufp csv' \<noteq> None \<Longrightarrow> \<exists>field. csv_field csv' = Some field"
      using csv_inv_bufp[OF p(2)] by (auto simp: buf_wf_def csv_field_def split: option.splits)
    then show ?thesis
      using Some False p by (cases s) (auto simp: csv_next_def it_budget_def Let_def)
  qed
qed

text \<open>The two ways of using a parser: by callbacks, over a list of chunks and a final
  \<open>csv_finish_parsing\<close>, and by an iterator, with any sequence of feeds and calls of
  \<open>csv_next\<close> up to the first error.  The allocator answers every call anew.\<close>

fun csv_parse_chunks :: "((nat \<Rightarrow> bool) \<times> string) list \<Rightarrow> csv \<Rightarrow> (csv \<times> csv_out list) option" where
  "csv_parse_chunks [] csv = csv_finish_parsing csv"
| "csv_parse_chunks ((alloc, s) # ss) csv =
     do { (csv, out) \<leftarrow> csv_parse_chunk alloc s csv;
          (csv, out') \<leftarrow> csv_parse_chunks ss csv;
          Some (csv, out @ out') }"

datatype csv_call = Call_feed string | Call_next "nat \<Rightarrow> bool"

fun csv_calls :: "csv_call list \<Rightarrow> csv_iterator \<Rightarrow> csv_iterator option" where
  "csv_calls [] it = Some it"
| "csv_calls (Call_feed s # cs) it = csv_calls cs (csv_feed s it)"
| "csv_calls (Call_next alloc # cs) it =
     do { (st, it) \<leftarrow> csv_next alloc it; if st = CSV_IT_ERROR then Some it else csv_calls cs it }"

fun csv_fed :: "csv_call list \<Rightarrow> nat" where
  "csv_fed [] = 0"
| "csv_fed (Call_feed s # cs) = length s + csv_fed cs"
| "csv_fed (Call_next alloc # cs) = csv_fed cs"

lemma csv_calls_safe:
  "csv_inv (ci_csv it) \<Longrightarrow> int (it_budget it + csv_fed cs) \<le> INT_MAX \<Longrightarrow> csv_calls cs it \<noteq> None"
proof (induction cs it rule: csv_calls.induct)
  case (2 s cs it)
  then show ?case by (simp add: csv_feed_def it_budget_def)
next
  case (3 alloc cs it)
  obtain st it' where n: "csv_next alloc it = Some (st, it')" "csv_inv (ci_csv it')" "st \<noteq> CSV_IT_ERROR \<longrightarrow> it_budget it' \<le> it_budget it"
    using csv_next_safe[OF 3(2), of alloc] 3(3) by (auto elim!: succeedsE)
  then show ?case
    using 3 by (cases "st = CSV_IT_ERROR") auto
qed simp

lemma pstep_not_end: "pstep d q fo c p = (p', out, ret) \<Longrightarrow> ps_state p \<noteq> CSV_END_OF_LAST_LINE \<Longrightarrow> ps_state p' \<noteq> CSV_END_OF_LAST_LINE"
  by (cases "ps_state p") (auto simp: pstep_def pmain_def pout_def pin_def pput_def split: if_splits)

lemma ploop_not_end:
  "ploop d q fo s p = (p', out, tail) \<Longrightarrow> ps_state p \<noteq> CSV_END_OF_LAST_LINE \<Longrightarrow> ps_state p' \<noteq> CSV_END_OF_LAST_LINE"
proof (induction s arbitrary: p p' out tail)
  case (Cons c s)
  obtain p1 out1 ret where "pstep d q fo c p = (p1, out1, ret)" by (cases "pstep d q fo c p")
  then show ?case
    using Cons pstep_not_end[of d q fo c p p1 out1 ret] by (cases ret) (auto split: prod.splits)
qed simp


definition csv_emitting :: "csv \<Rightarrow> bool" where
  "csv_emitting csv = (csv_inv csv \<and> (cs_state csv \<noteq> CSV_END_OF_LAST_LINE \<or> cs_error_status csv = CSV_ER_MEMORY_ERROR))"

lemma csv_parse_chunk_safe:
  assumes "csv_emitting csv" "int (cs_ending_spaces csv + length s) \<le> INT_MAX"
  shows "succeeds (\<lambda>(csv', out). csv_emitting csv' \<and> cs_ending_spaces csv' \<le> cs_ending_spaces csv + length s)
    (csv_parse_chunk alloc s csv)"
proof (cases "s = []")
  case True
  then show ?thesis using assms by (simp add: csv_parse_chunk_def csv_parse_impl_def)
next
  case False
  have inv: "csv_inv csv" using assms by (simp add: csv_emitting_def)
  obtain csv' out tail where p: "csv_parse_impl alloc csv s False = Some (csv', out, tail)" "csv_inv csv'"
      "cs_ending_spaces csv' + unread tail \<le> cs_ending_spaces csv + length s"
    and d: "cs_error_status csv' = CSV_ER_MEMORY_ERROR \<and> \<not> (\<forall>n. alloc n) \<or>
            cs_error_status csv' = cs_error_status csv \<and> cs_buf csv' \<noteq> None \<and>
            (csv_abs csv', out, tail) = ploop (cs_delimiter csv) (cs_quote_char csv) False s (csv_abs csv)"
    using csv_parse_impl_refines[OF inv False assms(2), of alloc False] by (elim succeedsE case_prodE) blast
  have "cs_state csv' \<noteq> CSV_END_OF_LAST_LINE \<or> cs_error_status csv' = CSV_ER_MEMORY_ERROR"
    using d assms ploop_not_end[of "cs_delimiter csv" "cs_quote_char csv" False s "csv_abs csv" "csv_abs csv'" out tail]
    by (auto simp: csv_emitting_def)
  then show ?thesis
    using p by (simp add: csv_parse_chunk_def csv_emitting_def)
qed

lemma csv_parse_chunks_safe:
  assumes "csv_emitting csv" "int (cs_ending_spaces csv + sum_list (map (length \<circ> snd) ss)) \<le> INT_MAX"
  shows "csv_parse_chunks ss csv \<noteq> None"
  using assms
proof (induction ss arbitrary: csv)
  case Nil
  then show ?case
    using csv_finish_parsing_safe[of csv]
    by (cases "cs_error_status csv = CSV_ER_MEMORY_ERROR")
      (auto simp: csv_emitting_def csv_finish_parsing_def csv_isvalid_eq)
next
  case (Cons a ss)
  obtain alloc s where a: "a = (alloc, s)" by (cases a)
  have "int (cs_ending_spaces csv + length s) \<le> INT_MAX" using Cons.prems(2) a by simp
  from csv_parse_chunk_safe[OF Cons.prems(1) this, of alloc]
  obtain csv' out where p: "csv_parse_chunk alloc s csv = Some (csv', out)" "csv_emitting csv'"
      "cs_ending_spaces csv' \<le> cs_ending_spaces csv + length s"
    by (elim succeedsE case_prodE) blast
  then show ?case
    using Cons.IH[OF p(2)] Cons.prems(2) a by auto
qed

text \<open>
  C19.  The parser stays inside of its buffer.  With any delimiter and quote
  character other than the space, with any answers of the allocator, over any
  chunks of an input of at most \<^const>\<open>INT_MAX\<close> characters: parsing by callbacks up to
  the end of the input, and any sequence of feeds and \<open>csv_next\<close> calls on an iterator
  up to the first error, never write past the buffer, never move the write pointer in
  front of it, never dereference \<open>NULL\<close>, never overflow the count of trailing
  spaces and never fail the assertion of \<open>csv_parse_impl\<close>.
\<close>

theorem csv_parser_memory_safe:
  assumes "d \<noteq> SP" "q \<noteq> SP" "int (sum_list (map (length \<circ> snd) ss)) \<le> INT_MAX" "int (csv_fed cs) \<le> INT_MAX"
  shows "csv_parse_chunks ss (csv_with d q) \<noteq> None \<and> csv_calls cs (csv_iterator_create (csv_with d q)) \<noteq> None"
proof
  have "csv_emitting (csv_with d q)" "cs_ending_spaces (csv_with d q) = 0"
    using csv_inv_with[OF assms(1,2)] by (simp_all add: csv_emitting_def csv_with_def csv_create_def)
  then show "csv_parse_chunks ss (csv_with d q) \<noteq> None"
    using assms(3) by (intro csv_parse_chunks_safe) simp_all
  show "csv_calls cs (csv_iterator_create (csv_with d q)) \<noteq> None"
    using csv_inv_with[OF assms(1,2)] assms(4)
    by (intro csv_calls_safe) (simp_all add: csv_iterator_create_def it_budget_def csv_with_def csv_create_def)
qed

theorem csv_parser_memory_safe_witness:
  "csv_parse_chunks [(\<lambda>n. n < 512, ''a ''), (\<lambda>n. n < 100, ''b,c'')] (csv_with CHR '','' CHR 0x22) \<noteq> None \<and>
   csv_calls [Call_feed ''a,b'', Call_next (\<lambda>n. n < 512)] (csv_iterator_create (csv_with CHR '','' CHR 0x22)) \<noteq> None"
  using csv_parser_memory_safe[of "CHR '',''" "CHR 0x22" "[(\<lambda>n. n < 512, ''a ''), (\<lambda>n. n < 100, ''b,c'')]"
      "[Call_feed ''a,b'', Call_next (\<lambda>n. n < 512)]"]
  by (simp add: INT_MAX_def)

text \<open>A parser that has counted \<^const>\<open>INT_MAX\<close> trailing spaces overflows on one more.\<close>

lemma csv_count_spaces_overflow: "int (cs_ending_spaces csv) = INT_MAX \<Longrightarrow> csv_count_spaces SP csv = None"
  by (simp add: csv_count_spaces_def c_int_def)

text \<open>With the space as delimiter the write pointer does move in front of the
  buffer: the delimiter that ends a field is counted as a trailing space of the
  next one.\<close>

theorem csv_space_delimiter_underflow:
  "csv_parse_chunks [(\<lambda>_. True, [CHR ''a'', SP, LF])] (csv_with SP CHR 0x22) = None"
  by code_simp

section \<open>The iterator and the callbacks agree\<close>

lemma pstep_first:
  assumes "ps_state p \<noteq> CSV_NEWFIELD" "ps_state p \<noteq> CSV_END_OF_LAST_LINE"
  obtains (same) p' where "pstep d q True c p = (p', [], Next)" "pstep d q False c p = (p', [], Next)"
      "ps_state p' \<noteq> CSV_NEWFIELD" "ps_state p' \<noteq> CSV_END_OF_LAST_LINE"
  | (field) p' f where "pstep d q True c p = (p', [], Return_p)" "is_line_end c \<or> c = d"
      "p' = \<lparr>ps_state = CSV_NEWFIELD, ps_prev = c, ps_spaces = 0, ps_acc = Some f\<rparr>"
      "pstep d q False c p = (p'\<lparr>ps_acc := (if is_line_end c then None else Some []), ps_state := CSV_LEADING_SPACES\<rparr>,
                              Field f # (if is_line_end c then [Row] else []), Next)"
proof -
  have pout: thesis if "pstep d q True c p = pout d q True c p1" "pstep d q False c p = pout d q False c p1"
    "ps_state p1 = CSV_OUT_OF_QUOTES" "ps_prev p1 = c" for p1
  proof (cases "is_line_end c \<or> c = d")
    case True
    then show thesis using that by (intro field[of _ "pfield p1"]) (auto simp: pout_def)
  next
    case False
    then show thesis using that by (cases "c = q") (auto simp: pout_def pput_def intro!: same)
  qed
  have pin: thesis if "pstep d q True c p = pin q c p1" "pstep d q False c p = pin q c p1" "ps_state p1 = CSV_IN_QUOTES" for p1
    using that same by (auto simp: pin_def pput_def split: if_splits)
  show thesis
  proof (cases "is_line_end c \<and> ps_state p \<noteq> CSV_IN_QUOTES \<and> c \<noteq> ps_prev p \<and> is_line_end (ps_prev p)")
    case True
    then show thesis using same assms by (simp add: pstep_def)
  next
    case noskip: False
    show thesis
    proof (cases "ps_state p")
      case CSV_LEADING_SPACES
      then show thesis
        using noskip same pout[of "p\<lparr>ps_prev := c, ps_acc := Some [], ps_state := CSV_OUT_OF_QUOTES\<rparr>"]
        by (cases "c = SP") (auto simp: pstep_def pmain_def)
    next
      case CSV_OUT_OF_QUOTES
      then show thesis using noskip pout[of "p\<lparr>ps_prev := c\<rparr>"] by (auto simp: pstep_def pmain_def)
    next
      case CSV_IN_QUOTES
      then show thesis using noskip pin[of "p\<lparr>ps_prev := c\<rparr>"] by (auto simp: pstep_def pmain_def)
    next
      case CSV_QUOTE_OPENING
      then show thesis
        using noskip same pin[of "p\<lparr>ps_prev := c, ps_state := CSV_IN_QUOTES\<rparr>"]
        by (cases "c = q") (auto simp: pstep_def pmain_def pput_def)
    next
      case CSV_QUOTE_CLOSING
      then show thesis
        using noskip same pout[of "p\<lparr>ps_prev := c, ps_state := CSV_OUT_OF_QUOTES\<rparr>"]
        by (cases "c = q") (auto simp: pstep_def pmain_def pput_def)
    next
      case CSV_LINE_BREAKING
      then show thesis using noskip same by (auto simp: pstep_def pmain_def)
    qed (use assms in simp_all)
  qed
qed

lemma ploop_first:
  assumes "ps_state p \<noteq> CSV_NEWFIELD" "ps_state p \<noteq> CSV_END_OF_LAST_LINE"
  obtains (end_of_input) p' where "ploop d q True s p = (p', [], Some [])" "ploop d q False s p = (p', [], Some [])"
      "ps_state p' \<noteq> CSV_NEWFIELD" "ps_state p' \<noteq> CSV_END_OF_LAST_LINE"
  | (field) p' c s' f where "ploop d q True s p = (p', [], Some (c # s'))" "length s' < length s"
      "is_line_end c \<or> c = d" "p' = \<lparr>ps_state = CSV_NEWFIELD, ps_prev = c, ps_spaces = 0, ps_acc = Some f\<rparr>"
      "ploop d q False s p =
         (let (p1, out, tail) = ploop d q False s' (p'\<lparr>ps_acc := (if is_line_end c then None else Some []), ps_state := CSV_LEADING_SPACES\<rparr>)
          in (p1, Field f # (if is_line_end c then [Row] else []) @ out, tail))"
  using assms
proof (induction s arbitrary: p thesis)
  case Nil
  then show ?case by auto
next
  case (Cons c s)
  from Cons.prems(3,4) show ?case
  proof (cases rule: pstep_first[of p d q c])
    case (same p1)
    note c = same
    from c(3,4) show ?thesis
    proof (cases rule: Cons.IH[of p1])
      case (1 p')
      then show ?thesis using Cons.prems(1)[of p'] c by simp
    next
      case (2 p' c' s' f)
      then show ?thesis using Cons.prems(2)[of p' c' s' f] c by (simp add: Let_def split: prod.splits)
    qed
  next
    case (field p1 f)
    then show ?thesis
      using Cons.prems(2)[of p1 c s f] by (simp add: Let_def split: prod.splits)
  qed
qed


lemma csv_iterate_released:
  assumes "ci_buf it = Some []" "cs_bufp (ci_csv it) = None"
  shows "csv_iterate alloc it = Some ([], CSV_IT_EOF)"
  by (subst csv_iterate.simps) (simp add: csv_next_def csv_next_end_def assms)

lemma csv_iterate_unfed:
  assumes "ci_buf it = None" "cs_bufp (ci_csv it) = None"
  shows "csv_iterate alloc it = Some ([], CSV_IT_EOF)"
  using csv_iterate_released[of "csv_feed [] (it\<lparr>ci_field := None\<rparr>)" alloc] assms
  by (subst csv_iterate.simps) (simp add: csv_next_def csv_feed_def)

lemma csv_iterate_last_line:
  assumes "csv_inv (ci_csv it)" "ci_buf it = Some []" "cs_state (ci_csv it) = CSV_END_OF_LAST_LINE" "cs_bufp (ci_csv it) \<noteq> None"
  shows "csv_iterate alloc it = Some ([Row], CSV_IT_EOF)"
proof -
  let ?it = "it\<lparr>ci_field := None, ci_csv := csv_release (ci_csv it)\<rparr>"
  have "csv_next alloc it = Some (CSV_IT_EOL, ?it)"
    using assms by (auto simp: csv_next_def csv_next_end_def Let_def csv_isvalid_eq)
  then show ?thesis
    using csv_iterate_released[of ?it alloc] assms(2)
    by (subst csv_iterate.simps) (simp add: csv_release_def)
qed

lemma csv_iterate_end:
  assumes "csv_inv (ci_csv it)" "ci_buf it = Some []" "cs_buf (ci_csv it) \<noteq> None"
    "cs_error_status (ci_csv it) = CSV_ER_OK" "cs_state (ci_csv it) \<noteq> CSV_END_OF_LAST_LINE"
  shows "csv_iterate alloc it = Some (pfinal (csv_abs (ci_csv it)))"
proof -
  let ?it = "it\<lparr>ci_field := None\<rparr>"
  have n: "csv_next alloc it = csv_next_end ?it"
    using assms(2) by (simp add: csv_next_def)
  have acc: "ps_acc (csv_abs (ci_csv it)) = None \<longleftrightarrow> cs_bufp (ci_csv it) = None"
    using assms(3) by (auto simp: abs_acc_def)
  have "csv_inv (ci_csv ?it)" using assms by simp
  then show ?thesis
  proof (cases rule: csv_next_end_cases)
    case eof
    have "cs_state (ci_csv it) \<noteq> CSV_IN_QUOTES"
      using eof acc assms(1) by (auto simp: csv_inv_def pinv_def)
    then show ?thesis
      using eof n acc by (subst csv_iterate.simps) (simp add: pfinal_def)
  next
    case (invalid csv')
    then show ?thesis
      using n by (subst csv_iterate.simps) (simp add: pfinal_def)
  next
    case eol
    then show ?thesis using assms by simp
  next
    case (field csv')
    let ?it' = "it\<lparr>ci_csv := csv', ci_field := Some (pfield (csv_abs (ci_csv it)))\<rparr>"
    have "csv_iterate alloc ?it' = Some ([Row], CSV_IT_EOF)"
      using field assms by (intro csv_iterate_last_line) simp_all
    then show ?thesis
      using field n assms acc by (subst csv_iterate.simps) (simp add: pfinal_def)
  qed
qed

text \<open>One call of \<open>csv_next\<close> on input, when the allocator grants every request.\<close>

lemma csv_next_input:
  assumes "csv_inv (ci_csv it)" "ci_buf it = Some s" "s \<noteq> []" "\<And>n. alloc n" "cs_error_status (ci_csv it) = CSV_ER_OK"
    "int (it_budget it) \<le> INT_MAX"
    "ploop (cs_delimiter (ci_csv it)) (cs_quote_char (ci_csv it)) True s (csv_abs (ci_csv it)) = (p', out, tail)"
  obtains csv' where "csv_inv csv'" "csv_abs csv' = p'" "cs_error_status csv' = CSV_ER_OK" "cs_buf csv' \<noteq> None"
    "cs_delimiter csv' = cs_delimiter (ci_csv it)" "cs_quote_char csv' = cs_quote_char (ci_csv it)"
    "int (cs_ending_spaces csv' + unread tail) \<le> INT_MAX"
    "csv_next alloc it =
       (let it' = it\<lparr>ci_csv := csv', ci_buf := tail, ci_field := None\<rparr>
        in if tail = Some [] then Some (CSV_IT_NEEDMORE, it')
           else case ps_acc p' of None \<Rightarrow> Some (CSV_IT_EOL, it')
                | Some f \<Rightarrow> Some (CSV_IT_OK, it'\<lparr>ci_field := Some f\<rparr>))"
proof -
  have few: "int (cs_ending_spaces (ci_csv it) + length s) \<le> INT_MAX" using assms(2,6) by (simp add: it_budget_def)
  obtain csv' out' tail' where p: "csv_parse_impl alloc (ci_csv it) s True = Some (csv', out', tail')" "csv_inv csv'"
    "cs_delimiter csv' = cs_delimiter (ci_csv it)" "cs_quote_char csv' = cs_quote_char (ci_csv it)"
    "cs_error_status csv' = cs_error_status (ci_csv it)" "cs_buf csv' \<noteq> None"
    "(csv_abs csv', out', tail') = (p', out, tail)" "cs_ending_spaces csv' + unread tail' \<le> cs_ending_spaces (ci_csv it) + length s"
    using csv_parse_impl_refines[OF assms(1,3) few, of alloc True] assms(4,7) by (elim succeedsE case_prodE) auto
  obtain b where b: "cs_buf csv' = Some b" using p(6) by auto
  have acc: "ps_acc p' = map_option (\<lambda>i. take i b) (cs_bufp csv')" "csv_abs csv' = p'" "tail' = tail"
    using p(7) b by (auto simp: csv_abs_def abs_acc_def)
  have f: "csv_field csv' = ps_acc p'"
    using acc b by (simp add: csv_field_def split: option.splits)
  obtain c s' where s: "s = c # s'" using assms(3) by (cases s) auto
  show thesis
  proof (rule that[of csv'])
    show "csv_next alloc it =
       (let it' = it\<lparr>ci_csv := csv', ci_buf := tail, ci_field := None\<rparr>
        in if tail = Some [] then Some (CSV_IT_NEEDMORE, it')
           else case ps_acc p' of None \<Rightarrow> Some (CSV_IT_EOL, it')
                | Some f \<Rightarrow> Some (CSV_IT_OK, it'\<lparr>ci_field := Some f\<rparr>))"
      using p(1,5) assms(2,5) s f acc
      by (auto simp: csv_next_def Let_def csv_get_error_status_def split: option.split)
    show "int (cs_ending_spaces csv' + unread tail) \<le> INT_MAX"
      using p(8) few unfolding acc(3) by linarith
  qed (use p acc assms in simp_all)
qed

lemma csv_iterate_input:
  assumes "csv_inv (ci_csv it)" "ci_buf it = Some s0" "s0 \<noteq> []" "\<And>n. alloc n" "cs_error_status (ci_csv it) = CSV_ER_OK"
    "int (it_budget it) \<le> INT_MAX"
    "d = cs_delimiter (ci_csv it)" "q = cs_quote_char (ci_csv it)"
    "ploop d q True s0 (csv_abs (ci_csv it)) = ploop d q True s p"
    "ps_state p \<noteq> CSV_NEWFIELD" "ps_state p \<noteq> CSV_END_OF_LAST_LINE"
  shows "csv_iterate alloc it =
           Some (let (p', out, _) = ploop d q False s p; (fin, st) = pfinal p' in (out @ fin, st))"
  using assms
proof (induction "length s" arbitrary: s s0 p it rule: less_induct)
  case less
  note alloc = \<open>\<And>n. alloc n\<close>
  from less.prems(10,11) show ?case
  proof (cases rule: ploop_first[where d = d and q = q and s = s])
    case (end_of_input p')
    have pl: "ploop (cs_delimiter (ci_csv it)) (cs_quote_char (ci_csv it)) True s0 (csv_abs (ci_csv it)) = (p', [], Some [])"
      using less.prems(7-9) end_of_input by simp
    obtain csv' where c: "csv_inv csv'" "csv_abs csv' = p'" "cs_error_status csv' = CSV_ER_OK" "cs_buf csv' \<noteq> None"
      "csv_next alloc it = Some (CSV_IT_NEEDMORE, it\<lparr>ci_csv := csv', ci_buf := Some [], ci_field := None\<rparr>)"
      by (rule csv_next_input[OF less.prems(1-6) pl]) simp
    have "cs_state csv' \<noteq> CSV_END_OF_LAST_LINE"
      using c(2) end_of_input by auto
    then show ?thesis
      using c end_of_input csv_iterate_end[of "csv_feed [] (it\<lparr>ci_csv := csv', ci_buf := Some [], ci_field := None\<rparr>)" alloc]
      by (subst csv_iterate.simps) (simp add: csv_feed_def split: prod.split)
  next
    case (field p' c s' f)
    have pl: "ploop (cs_delimiter (ci_csv it)) (cs_quote_char (ci_csv it)) True s0 (csv_abs (ci_csv it)) = (p', [], Some (c # s'))"
      using less.prems(7-9) field by simp
    obtain csv' where c: "csv_inv csv'" "csv_abs csv' = p'" "cs_error_status csv' = CSV_ER_OK" "cs_buf csv' \<noteq> None"
      "cs_delimiter csv' = d" "cs_quote_char csv' = q" "int (cs_ending_spaces csv' + unread (Some (c # s'))) \<le> INT_MAX"
      "csv_next alloc it = Some (CSV_IT_OK, it\<lparr>ci_csv := csv', ci_buf := Some (c # s'), ci_field := Some f\<rparr>)"
      by (rule csv_next_input[OF less.prems(1-6) pl]) (use less.prems(7,8) field(4) in simp)
    let ?it = "it\<lparr>ci_csv := csv', ci_buf := Some (c # s'), ci_field := Some f\<rparr>"
    have first: "csv_iterate alloc it = map_option (\<lambda>(out, st). (Field f # out, st)) (csv_iterate alloc ?it)"
      using c by (subst csv_iterate.simps) (auto split: option.split bind_split)
    let ?p = "p'\<lparr>ps_acc := (if is_line_end c then None else Some []), ps_state := CSV_LEADING_SPACES\<rparr>"
    show ?thesis
    proof (cases "is_line_end c")
      case False
      have "ploop d q True (c # s') p' = ploop d q True s' ?p"
        using False field(4) by (simp add: pstep_def pmain_def)
      then have "csv_iterate alloc ?it = Some (let (p', out, _) = ploop d q False s' ?p; (fin, st) = pfinal p' in (out @ fin, st))"
        using c alloc by (intro less.hyps[OF field(2), of ?it "c # s'"]) (simp_all add: it_budget_def)
      then show ?thesis
        using first field(5) False by (simp add: Let_def split: prod.split)
    next
      case True
      have pl: "ploop (cs_delimiter (ci_csv ?it)) (cs_quote_char (ci_csv ?it)) True (c # s') (csv_abs (ci_csv ?it)) =
        (?p, [], if s' = [] then None else Some s')"
        using True field(4) c by (simp add: pstep_def pmain_def)
      have pre: "csv_inv (ci_csv ?it)" "ci_buf ?it = Some (c # s')" "c # s' \<noteq> []" "cs_error_status (ci_csv ?it) = CSV_ER_OK"
        "int (it_budget ?it) \<le> INT_MAX"
        using c by (simp_all add: it_budget_def)
      obtain csv'' where c2: "csv_inv csv''" "csv_abs csv'' = ?p" "cs_error_status csv'' = CSV_ER_OK"
        "cs_delimiter csv'' = d" "cs_quote_char csv'' = q" "int (cs_ending_spaces csv'' + unread (if s' = [] then None else Some s')) \<le> INT_MAX"
        "csv_next alloc ?it = Some (CSV_IT_EOL, ?it\<lparr>ci_csv := csv'', ci_buf := (if s' = [] then None else Some s'), ci_field := None\<rparr>)"
        by (rule csv_next_input[where alloc = alloc, OF pre(1-3) alloc pre(4,5) pl]) (use True c in simp)
      let ?it' = "?it\<lparr>ci_csv := csv'', ci_buf := (if s' = [] then None else Some s'), ci_field := None\<rparr>"
      have second: "csv_iterate alloc ?it = map_option (\<lambda>(out, st). (Row # out, st)) (csv_iterate alloc ?it')"
        by (subst csv_iterate.simps) (auto simp: c2(7) split: option.split bind_split)
      have "csv_iterate alloc ?it' = Some (let (p', out, _) = ploop d q False s' ?p; (fin, st) = pfinal p' in (out @ fin, st))"
      proof (cases "s' = []")
        case s': True
        have "abs_acc csv'' = None"
          using arg_cong[OF c2(2), of ps_acc] True by simp
        then have "cs_bufp csv'' = None"
          by (auto simp: abs_acc_def split: option.splits)
        then show ?thesis
          using s' True csv_iterate_unfed[of ?it' alloc] by (simp add: pfinal_def)
      next
        case False
        then show ?thesis
          using c2 alloc by (intro less.hyps[OF field(2), of ?it' s']) (simp_all add: it_budget_def)
      qed
      then show ?thesis
        using first second field(5) True by (simp add: Let_def split: prod.split)
    qed
  qed
qed

text \<open>
  C20.  The two interfaces of the parser agree.  When the allocator grants every
  request and neither special character is the space, iterating over an input
  of at most \<^const>\<open>INT_MAX\<close> characters with \<open>csv_next\<close> ends, and yields the fields and rows that parsing the same
  input by callbacks emits; it ends with an error exactly when
  \<open>csv_finish_parsing\<close> finds the input invalid.
\<close>

theorem csv_iterator_agrees:
  assumes "d \<noteq> SP" "q \<noteq> SP" "\<And>n. alloc n" "int (length s) \<le> INT_MAX"
  shows "\<exists>csv out. csv_parse_chunks [(alloc, s)] (csv_with d q) = Some (csv, out) \<and>
           csv_iterate alloc (csv_feed s (csv_iterator_create (csv_with d q))) =
             Some (out, if csv_get_error_status csv = CSV_ER_OK then CSV_IT_EOF else CSV_IT_ERROR)"
proof (cases "s = []")
  case True
  then show ?thesis
    using csv_iterate_released[of "csv_feed [] (csv_iterator_create (csv_with d q))" alloc]
    by (simp add: csv_parse_chunk_def csv_parse_impl_def csv_finish_parsing_def csv_isvalid_eq csv_feed_def
        csv_iterator_create_def csv_with_def csv_create_def csv_get_error_status_def)
next
  case False
  let ?csv = "csv_with d q"
  have i: "csv_inv ?csv" "cs_error_status ?csv = CSV_ER_OK" "cs_delimiter ?csv = d" "cs_quote_char ?csv = q"
    "cs_state ?csv = CSV_LEADING_SPACES" "int (cs_ending_spaces ?csv + length s) \<le> INT_MAX"
    using csv_inv_with[OF assms(1,2)] assms(4) by (simp_all add: csv_with_def csv_create_def)
  obtain p out tail where pl: "ploop d q False s (csv_abs ?csv) = (p, out, tail)" by (cases "ploop d q False s (csv_abs ?csv)")
  obtain csv where c: "csv_parse_impl alloc ?csv s False = Some (csv, out, tail)" "csv_inv csv" "csv_abs csv = p"
    "cs_error_status csv = CSV_ER_OK" "cs_buf csv \<noteq> None"
    using csv_parse_impl_refines[OF i(1) False i(6), of alloc False] assms(3) i pl by (elim succeedsE case_prodE) auto
  have "cs_state csv \<noteq> CSV_END_OF_LAST_LINE"
    using ploop_not_end[OF pl] i(5) c(3) by auto
  then obtain csv' where "csv_finish_parsing csv = Some (csv', fst (pfinal p))"
    "cs_error_status csv' = CSV_ER_OK \<longleftrightarrow> snd (pfinal p) = CSV_IT_EOF"
    using csv_finish_parsing_refines[of csv] c by auto
  moreover have "csv_iterate alloc (csv_feed s (csv_iterator_create ?csv)) = Some (out @ fst (pfinal p), snd (pfinal p))"
    using csv_iterate_input[of "csv_feed s (csv_iterator_create ?csv)" s alloc d q s "csv_abs ?csv"] i assms(3) False pl
    by (simp add: csv_feed_def csv_iterator_create_def it_budget_def split: prod.splits)
  moreover have "snd (pfinal p) \<noteq> CSV_IT_EOF \<longrightarrow> snd (pfinal p) = CSV_IT_ERROR"
    by (simp add: pfinal_def)
  ultimately show ?thesis
    using c(1) by (auto simp: csv_parse_chunk_def csv_get_error_status_def)
qed

theorem csv_iterator_agrees_witness:
  "\<exists>csv out. csv_parse_chunks [(\<lambda>_. True, ''a, b'' @ [LF])] (csv_with CHR '','' CHR 0x22) = Some (csv, out) \<and>
     csv_iterate (\<lambda>_. True) (csv_feed (''a, b'' @ [LF]) (csv_iterator_create (csv_with CHR '','' CHR 0x22))) =
       Some (out, if csv_get_error_status csv = CSV_ER_OK then CSV_IT_EOF else CSV_IT_ERROR)"
  by (rule csv_iterator_agrees) (simp_all add: INT_MAX_def)


section \<open>Printing and parsing\<close>

text \<open>What the printer writes, as a function of the field.\<close>

definition dbl :: "char \<Rightarrow> string \<Rightarrow> string" where
  "dbl q f = concat (map (\<lambda>c. if c = q then [q, q] else [c]) f)"

definition needs_quotes :: "char \<Rightarrow> string \<Rightarrow> bool" where
  "needs_quotes d f = (d \<in> set f \<or> LF \<in> set f \<or> CR \<in> set f)"

definition escaped :: "char \<Rightarrow> char \<Rightarrow> string \<Rightarrow> string" where
  "escaped d q f = (if needs_quotes d f then q # dbl q f @ [q] else dbl q f)"

lemma dbl_simps [simp]: "dbl q [] = []" "dbl q (c # f) = (if c = q then [q, q] else [c]) @ dbl q f"
  by (simp_all add: dbl_def)

lemma length_dbl: "length (dbl q f) = length f + count_list f q"
  by (induction f) auto

lemma esc_loop_eq:
  "NUL \<notin> set f \<Longrightarrow> length out + length (dbl q f) \<le> n \<Longrightarrow> esc_loop q n f out = Some (out @ dbl q f)"
  by (induction f arbitrary: out) (auto simp: esc_put_def split: if_splits)

lemma count_list_less: "c \<in> set f \<Longrightarrow> c \<noteq> q \<Longrightarrow> count_list f q < length f"
  using count_le_length[of f q] by (induction f) (auto simp: less_Suc_eq_le count_le_length)

text \<open>The buffer of \<open>dump\<close> is large enough for every field and its terminating NUL.\<close>

lemma csv_escape_field_eq:
  assumes "NUL \<notin> set f" "q \<noteq> cs_delimiter csv" "\<not> is_line_end q" "q = cs_quote_char csv" "(length f + 1) * 2 \<le> n"
  shows "csv_escape_field csv f n = Some (escaped (cs_delimiter csv) q f)"
proof (cases "needs_quotes (cs_delimiter csv) f")
  case True
  then obtain c where "c \<in> set f" "c \<noteq> q"
    using assms by (auto simp: needs_quotes_def is_line_end_def)
  then have "count_list f q < length f"
    by (rule count_list_less)
  then show ?thesis
    using True assms esc_loop_eq[of f "[q]" q n]
    by (simp add: csv_escape_field_def Let_def escaped_def needs_quotes_def esc_put_def length_dbl)
next
  case False
  then show ?thesis
    using assms esc_loop_eq[of f "[]" q n] count_le_length[of f q]
    by (simp add: csv_escape_field_def Let_def escaped_def needs_quotes_def esc_put_def length_dbl)
qed

fun line_text :: "char \<Rightarrow> char \<Rightarrow> string list \<Rightarrow> string" where
  "line_text d q [] = [LF]"
| "line_text d q (f # fs) = d # escaped d q f @ line_text d q fs"

definition text_of :: "char \<Rightarrow> char \<Rightarrow> string list list \<Rightarrow> string" where
  "text_of d q t = concat (map (\<lambda>fs. tl (line_text d q fs)) t)"

lemma dump_line_eq:
  assumes "\<forall>f\<in>set fs. NUL \<notin> set f" "q \<noteq> d" "\<not> is_line_end q" "cs_delimiter csv = d" "cs_quote_char csv = q"
  shows "\<exists>n'. dump_line csv first fs n = Some (if first \<and> fs \<noteq> [] then tl (line_text d q fs) else line_text d q fs, n')"
  using assms(1)
proof (induction fs arbitrary: first n)
  case (Cons f fs)
  define m where "m = (if (length f + 1) * 2 > n then (length f + 1) * 2 else n)"
  obtain n' where "dump_line csv False fs m = Some (line_text d q fs, n')"
    using Cons.IH[of False m] Cons.prems by auto
  moreover have "csv_escape_field csv f m = Some (escaped d q f)"
    using csv_escape_field_eq[of f q csv m, unfolded assms(4), OF _ assms(2,3) assms(5)[symmetric]] Cons.prems
    by (auto simp: m_def)
  ultimately have "dump_line csv first (f # fs) n = Some ((if first then [] else [d]) @ escaped d q f @ line_text d q fs, n')"
    unfolding dump_line.simps Let_def m_def[symmetric] using assms(4) by simp
  then show ?case
    by simp
qed simp

lemma dump_lines_eq:
  assumes "\<forall>fs\<in>set t. fs \<noteq> [] \<and> (\<forall>f\<in>set fs. NUL \<notin> set f)" "q \<noteq> d" "\<not> is_line_end q"
    "cs_delimiter csv = d" "cs_quote_char csv = q"
  shows "dump_lines csv t n = Some (text_of d q t)"
  using assms(1)
proof (induction t arbitrary: n)
  case (Cons fs t)
  then obtain n' where "dump_line csv True fs n = Some (tl (line_text d q fs), n')"
    using dump_line_eq[OF _ assms(2-5), of fs True n] by auto
  then show ?case
    using Cons by (simp add: text_of_def)
qed (simp add: text_of_def)

text \<open>A parser at the beginning of a field, and the characters the options allow.\<close>

definition at_field :: "char \<Rightarrow> pst \<Rightarrow> bool" where
  "at_field d p = (ps_state p = CSV_LEADING_SPACES \<and> ps_spaces p = 0 \<and> ps_prev p \<in> {NUL, d, LF})"

definition good_chars :: "char \<Rightarrow> char \<Rightarrow> bool" where
  "good_chars d q = (d \<notin> {SP, LF, CR} \<and> q \<notin> {SP, LF, CR} \<and> d \<noteq> q)"

text \<open>A field that the parser gives back: no NUL, and, unless the printer quotes it,
  no space at either end.\<close>

definition clean :: "char \<Rightarrow> string \<Rightarrow> bool" where
  "clean d f = (NUL \<notin> set f \<and> (needs_quotes d f \<or> f = [] \<or> hd f \<noteq> SP \<and> last f \<noteq> SP))"

lemma ploop_out:
  assumes "ps_state p = CSV_OUT_OF_QUOTES" "ps_acc p = Some a" "\<not> needs_quotes d f" "good_chars d q"
  shows "\<exists>n pr. ploop d q False (dbl q f @ rest) p =
           ploop d q False rest (p\<lparr>ps_acc := Some (a @ f), ps_spaces := n, ps_prev := pr\<rparr>) \<and>
           (f = [] \<longrightarrow> n = ps_spaces p \<and> pr = ps_prev p) \<and>
           (f \<noteq> [] \<longrightarrow> \<not> is_line_end pr) \<and> (f \<noteq> [] \<and> last f \<noteq> SP \<longrightarrow> n = 0)"
  using assms
proof (induction f arbitrary: p a)
  case Nil
  then show ?case by (intro exI[of _ "ps_spaces p"] exI[of _ "ps_prev p"]) (cases p, simp)
next
  case (Cons c f)
  let ?n = "if c = SP then ps_spaces p + 1 else 0"
  let ?p = "p\<lparr>ps_acc := Some (a @ [c]), ps_spaces := ?n, ps_prev := c\<rparr>"
  have nq: "\<not> needs_quotes d f" and c: "\<not> is_line_end c" "c \<noteq> d"
    using Cons.prems(3) by (auto simp: needs_quotes_def is_line_end_def)
  have step: "ploop d q False (dbl q (c # f) @ rest) p = ploop d q False (dbl q f @ rest) ?p"
    using Cons.prems(1,2,4) c
    by (cases p) (auto simp: pstep_def pmain_def pout_def pput_def good_chars_def split: prod.splits)
  obtain n pr where "ploop d q False (dbl q f @ rest) ?p =
      ploop d q False rest (?p\<lparr>ps_acc := Some ((a @ [c]) @ f), ps_spaces := n, ps_prev := pr\<rparr>)"
    "f = [] \<longrightarrow> n = ps_spaces ?p \<and> pr = ps_prev ?p" "f \<noteq> [] \<longrightarrow> \<not> is_line_end pr" "f \<noteq> [] \<and> last f \<noteq> SP \<longrightarrow> n = 0"
    using Cons.IH[of ?p "a @ [c]"] Cons.prems(1,4) nq by auto
  then show ?case
    using step c(1) by (intro exI[of _ n] exI[of _ pr]) (cases p, auto)
qed

lemma ploop_in:
  assumes "ps_state p = CSV_IN_QUOTES" "ps_acc p = Some a"
  shows "\<exists>pr. ploop d q False (dbl q f @ rest) p = ploop d q False rest (p\<lparr>ps_acc := Some (a @ f), ps_prev := pr\<rparr>)"
  using assms
proof (induction f arbitrary: p a)
  case Nil
  then show ?case by (intro exI[of _ "ps_prev p"]) (cases p, simp)
next
  case (Cons c f)
  let ?p = "p\<lparr>ps_acc := Some (a @ [c]), ps_prev := c\<rparr>"
  have "ploop d q False (dbl q (c # f) @ rest) p = ploop d q False (dbl q f @ rest) ?p"
    using Cons.prems by (cases p) (auto simp: pstep_def pmain_def pin_def pput_def split: prod.splits)
  moreover obtain pr where "ploop d q False (dbl q f @ rest) ?p =
      ploop d q False rest (?p\<lparr>ps_acc := Some ((a @ [c]) @ f), ps_prev := pr\<rparr>)"
    using Cons.IH[of ?p "a @ [c]"] Cons.prems by auto
  ultimately show ?case
    by (intro exI[of _ pr]) (cases p, simp)
qed

text \<open>The opening quote: the quotes a quoted field begins with are read outside of
  quotes, two by two; the first other character is read inside.\<close>

lemma ploop_opening:
  assumes "ps_state p = CSV_QUOTE_OPENING" "ps_acc p = Some a" "ps_spaces p = 0" "ps_prev p = q" "good_chars d q"
    "c \<in> set f" "c \<noteq> q"
  shows "\<exists>pr. ploop d q False (dbl q f @ rest) p =
           ploop d q False rest (p\<lparr>ps_state := CSV_IN_QUOTES, ps_acc := Some (a @ f), ps_prev := pr\<rparr>)"
  using assms
proof (induction f arbitrary: p a)
  case (Cons b f)
  show ?case
  proof (cases "b = q")
    case True
    let ?p = "p\<lparr>ps_acc := Some (a @ [q])\<rparr>"
    have "ploop d q False (dbl q (b # f) @ rest) p = ploop d q False (dbl q f @ rest) ?p"
      using Cons.prems True
      by (cases p) (auto simp: pstep_def pmain_def pin_def pout_def pput_def good_chars_def is_line_end_def split: prod.splits)
    moreover obtain pr where "ploop d q False (dbl q f @ rest) ?p =
        ploop d q False rest (?p\<lparr>ps_state := CSV_IN_QUOTES, ps_acc := Some ((a @ [q]) @ f), ps_prev := pr\<rparr>)"
      using Cons.IH[of ?p "a @ [q]"] Cons.prems True by auto
    ultimately show ?thesis
      using True by (intro exI[of _ pr]) (cases p, simp)
  next
    case False
    have "ploop d q False (dbl q (b # f) @ rest) p =
        ploop d q False (dbl q (b # f) @ rest) (p\<lparr>ps_state := CSV_IN_QUOTES\<rparr>)"
      using Cons.prems False
      by (cases p) (auto simp: pstep_def pmain_def good_chars_def is_line_end_def split: prod.splits)
    then show ?thesis
      using ploop_in[of "p\<lparr>ps_state := CSV_IN_QUOTES\<rparr>" a d q "b # f" rest] Cons.prems(2)
      by (cases p) auto
  qed
qed simp

lemma ploop_leading:
  assumes "at_field d p" "c \<noteq> SP"
  shows "ploop d q False (c # s) p = ploop d q False (c # s) (p\<lparr>ps_acc := Some [], ps_state := CSV_OUT_OF_QUOTES\<rparr>)
         \<or> is_line_end c \<and> c \<noteq> ps_prev p \<and> is_line_end (ps_prev p)"
  using assms by (cases p) (auto simp: at_field_def pstep_def pmain_def)

lemma ploop_end:
  assumes "ps_state p \<in> {CSV_OUT_OF_QUOTES, CSV_QUOTE_CLOSING}" "ps_acc p = Some f" "ps_spaces p = 0"
    "good_chars d q" "e \<in> {d, LF}" "\<not> is_line_end (ps_prev p) \<or> e = ps_prev p \<or> \<not> is_line_end e"
  shows "ploop d q False (e # rest) p =
           (let (p', out, tail) = ploop d q False rest
                  (p\<lparr>ps_state := CSV_LEADING_SPACES, ps_acc := (if e = LF then None else Some []), ps_prev := e\<rparr>)
            in (p', Field f # (if e = LF then [Row] else []) @ out, tail))"
proof -
  have "pstep d q False e p = (p\<lparr>ps_state := CSV_LEADING_SPACES, ps_acc := (if e = LF then None else Some []), ps_prev := e\<rparr>,
      Field f # (if e = LF then [Row] else []), Next)"
    using assms by (cases p) (auto simp: pstep_def pmain_def pout_def good_chars_def is_line_end_def pfield_def)
  then show ?thesis
    by (simp add: Let_def split: prod.split)
qed

lemma ploop_start:
  assumes p: "at_field d p" and g: "good_chars d q" and "c \<noteq> SP" "\<not> is_line_end c \<or> c = LF"
  shows "ploop d q False (c # s) p = ploop d q False (c # s) (p\<lparr>ps_acc := Some [], ps_state := CSV_OUT_OF_QUOTES\<rparr>)"
  using ploop_leading[OF p assms(3), of q s] assms(4) p g
  by (auto simp: at_field_def good_chars_def is_line_end_def)

lemma at_field_eq:
  "at_field d p \<Longrightarrow> p\<lparr>ps_spaces := 0, ps_state := CSV_LEADING_SPACES, ps_acc := a, ps_prev := pr\<rparr> = p\<lparr>ps_acc := a, ps_prev := pr\<rparr>"
  by (cases p) (simp add: at_field_def)

lemma ploop_quoted_field:
  assumes p: "at_field d p" and g: "good_chars d q" and "clean d f" "e \<in> {d, LF}" and True: "needs_quotes d f"
  shows "ploop d q False (escaped d q f @ e # rest) p =
           (let (p', out, tail) = ploop d q False rest
                  (p\<lparr>ps_acc := (if e = LF then None else Some []), ps_prev := e\<rparr>)
            in (p', Field f # (if e = LF then [Row] else []) @ out, tail))"
proof -
  note start = ploop_start[OF p g] and p_eq = at_field_eq[OF p]
  let ?result = "let (p', out, tail) = ploop d q False rest (p\<lparr>ps_acc := (if e = LF then None else Some []), ps_prev := e\<rparr>)
                 in (p', Field f # (if e = LF then [Row] else []) @ out, tail)"
  from True obtain c where c: "c \<in> set f" "c \<noteq> q"
    using g by (auto simp: needs_quotes_def good_chars_def)
  have q: "q \<noteq> SP" "\<not> is_line_end q" "q \<noteq> d"
    using g by (auto simp: good_chars_def is_line_end_def)
  let ?p = "\<lambda>st a pr. p\<lparr>ps_state := st, ps_spaces := 0, ps_acc := Some a, ps_prev := pr\<rparr>"
  have "ploop d q False (escaped d q f @ e # rest) p = ploop d q False (dbl q f @ q # e # rest) (?p CSV_QUOTE_OPENING [] q)"
    using start[of q "dbl q f @ q # e # rest"] q True
    by (cases p) (simp add: escaped_def pstep_def pmain_def pout_def)
  moreover obtain pr where "ploop d q False (dbl q f @ q # e # rest) (?p CSV_QUOTE_OPENING [] q) =
      ploop d q False (q # e # rest) (?p CSV_IN_QUOTES f pr)"
    using ploop_opening[OF _ _ _ _ g c, of "?p CSV_QUOTE_OPENING [] q" "[]" "q # e # rest"]
    by (cases p) (auto simp del: ploop.simps)
  moreover have "ploop d q False (q # e # rest) (?p CSV_IN_QUOTES f pr) = ploop d q False (e # rest) (?p CSV_QUOTE_CLOSING f q)"
    by (cases p) (simp add: pstep_def pmain_def pin_def)
  moreover have "ploop d q False (e # rest) (?p CSV_QUOTE_CLOSING f q) = ?result"
    using ploop_end[of "?p CSV_QUOTE_CLOSING f q" f d q e rest] assms q by (simp add: p_eq)
  ultimately show ?thesis
    by simp
qed

lemma ploop_plain_field:
  assumes p: "at_field d p" and g: "good_chars d q" and "clean d f" "e \<in> {d, LF}" and False: "\<not> needs_quotes d f"
  shows "ploop d q False (escaped d q f @ e # rest) p =
           (let (p', out, tail) = ploop d q False rest
                  (p\<lparr>ps_acc := (if e = LF then None else Some []), ps_prev := e\<rparr>)
            in (p', Field f # (if e = LF then [Row] else []) @ out, tail))"
proof -
  let ?out = "p\<lparr>ps_acc := Some [], ps_state := CSV_OUT_OF_QUOTES\<rparr>"
  note start = ploop_start[OF p g] and p_eq = at_field_eq[OF p]
  let ?result = "let (p', out, tail) = ploop d q False rest (p\<lparr>ps_acc := (if e = LF then None else Some []), ps_prev := e\<rparr>)
                 in (p', Field f # (if e = LF then [Row] else []) @ out, tail)"
  have e: "e \<noteq> SP" "\<not> is_line_end e \<or> e = LF" "e \<noteq> q"
    using g assms(4) by (auto simp: good_chars_def is_line_end_def)
  have "ploop d q False (dbl q f @ e # rest) p = ploop d q False (dbl q f @ e # rest) ?out"
  proof (cases f)
    case Nil
    then show ?thesis using start[OF e(1,2)] by simp
  next
    case (Cons c f')
    then show ?thesis
      using False assms(3) g start[of c] start[of q]
      by (auto simp: clean_def needs_quotes_def good_chars_def is_line_end_def simp del: ploop.simps)
  qed
  also obtain n pr where out: "ploop d q False (dbl q f @ e # rest) ?out =
      ploop d q False (e # rest) (?out\<lparr>ps_acc := Some f, ps_spaces := n, ps_prev := pr\<rparr>)"
    and n: "f = [] \<longrightarrow> n = 0 \<and> pr = ps_prev p" "f \<noteq> [] \<longrightarrow> \<not> is_line_end pr" "f \<noteq> [] \<and> last f \<noteq> SP \<longrightarrow> n = 0"
    using ploop_out[of ?out "[]" d f q "e # rest"] False g p by (auto simp: at_field_def)
  let ?p = "p\<lparr>ps_state := CSV_OUT_OF_QUOTES, ps_spaces := 0, ps_acc := Some f, ps_prev := pr\<rparr>"
  have "n = 0"
    using n(1,3) assms(3) False by (cases "f = []") (auto simp: clean_def)
  then have "?out\<lparr>ps_acc := Some f, ps_spaces := n, ps_prev := pr\<rparr> = ?p"
    by (cases p) simp
  note out[unfolded this]
  also have "\<not> is_line_end pr \<or> e = pr \<or> \<not> is_line_end e"
    using n(1,2) p e g by (cases "f = []") (auto simp: at_field_def good_chars_def is_line_end_def)
  then have "ploop d q False (e # rest) ?p = ?result"
    using ploop_end[of ?p f d q e rest] assms(4) g by (simp add: p_eq del: ploop.simps)
  finally show ?thesis
    using False by (simp add: escaped_def del: ploop.simps)
qed

lemma ploop_field:
  assumes p: "at_field d p" and g: "good_chars d q" and "clean d f" "e \<in> {d, LF}"
  shows "ploop d q False (escaped d q f @ e # rest) p =
           (let (p', out, tail) = ploop d q False rest
                  (p\<lparr>ps_acc := (if e = LF then None else Some []), ps_prev := e\<rparr>)
            in (p', Field f # (if e = LF then [Row] else []) @ out, tail))"
  using ploop_quoted_field[OF assms] ploop_plain_field[OF assms] by blast

text \<open>The outputs for a table, and the parser after its text.\<close>

definition table_out :: "string list list \<Rightarrow> csv_out list" where
  "table_out t = concat (map (\<lambda>fs. map Field fs @ [Row]) t)"

lemma ploop_line:
  assumes "at_field d p" "good_chars d q" "\<forall>f\<in>set fs. clean d f" "fs \<noteq> []"
  shows "ploop d q False (tl (line_text d q fs) @ rest) p =
           (let (p', out, tail) = ploop d q False rest (p\<lparr>ps_acc := None, ps_prev := LF\<rparr>)
            in (p', map Field fs @ [Row] @ out, tail))"
  using assms
proof (induction fs arbitrary: p)
  case (Cons f fs)
  show ?case
  proof (cases fs)
    case Nil
    then show ?thesis
      using ploop_field[OF Cons.prems(1,2), of f LF rest] Cons.prems(3) by simp
  next
    case (Cons f' fs')
    let ?p = "p\<lparr>ps_acc := Some [], ps_prev := d\<rparr>"
    have "at_field d ?p" "d \<noteq> LF"
      using \<open>at_field d p\<close> \<open>good_chars d q\<close> by (auto simp: at_field_def good_chars_def)
    moreover have "tl (line_text d q (f # fs)) @ rest = escaped d q f @ d # (tl (line_text d q fs) @ rest)"
      using Cons by simp
    ultimately show ?thesis
      using ploop_field[OF Cons.prems(1,2), of f d "tl (line_text d q fs) @ rest"] \<open>good_chars d q\<close> Cons.prems(3) Cons
        Cons.IH[of ?p]
      by (simp add: Let_def split: prod.split)
  qed
qed simp


lemma ploop_table:
  assumes "at_field d p" "good_chars d q" "\<forall>fs\<in>set t. fs \<noteq> [] \<and> (\<forall>f\<in>set fs. clean d f)" "ps_acc p = None \<or> t \<noteq> []"
  shows "\<exists>pr. ploop d q False (text_of d q t) p = (p\<lparr>ps_acc := None, ps_prev := pr\<rparr>, table_out t, Some [])"
  using assms
proof (induction t arbitrary: p)
  case Nil
  then show ?case by (intro exI[of _ "ps_prev p"]) (cases p, simp add: text_of_def table_out_def)
next
  case (Cons fs t)
  let ?p = "p\<lparr>ps_acc := None, ps_prev := LF\<rparr>"
  have "at_field d ?p" using Cons.prems(1) by (simp add: at_field_def)
  then obtain pr where "ploop d q False (text_of d q t) ?p = (?p\<lparr>ps_acc := None, ps_prev := pr\<rparr>, table_out t, Some [])"
    using Cons.IH[of ?p] Cons.prems(2,3) by auto
  then show ?case
    using ploop_line[OF Cons.prems(1,2), of fs "text_of d q t"] Cons.prems(3)
    by (intro exI[of _ pr]) (cases p, simp add: text_of_def table_out_def)
qed

lemma text_of_Nil_iff: "\<forall>fs\<in>set t. fs \<noteq> [] \<Longrightarrow> text_of d q t = [] \<longleftrightarrow> t = []"
proof -
  have "line_text d q fs \<noteq> []" for fs by (cases fs) simp_all
  then have "fs \<noteq> [] \<Longrightarrow> tl (line_text d q fs) \<noteq> []" for fs by (cases fs) simp_all
  then show "\<forall>fs\<in>set t. fs \<noteq> [] \<Longrightarrow> text_of d q t = [] \<longleftrightarrow> t = []"
    by (cases t) (auto simp: text_of_def)
qed

text \<open>
  C17.  Printing and parsing are inverse.  A table of rows, each with at least one
  field, is printed by \<open>dump\<close> without overrunning its buffer; parsing the text, when it
  has at most \<^const>\<open>INT_MAX\<close> characters, with the same delimiter and quote character
  emits exactly the fields and rows of the table, in order, and ends without an
  error, provided every allocation is granted.  The fields may contain delimiters,
  line breaks and quotes, but no NUL; a field that the printer does not put in
  quotes must not begin or end with a space, since the parser strips those; delimiter
  and quote character differ, and neither is a space or a line break.
\<close>

theorem csv_dump_parse_roundtrip:
  assumes "good_chars d q" "\<forall>fs\<in>set t. fs \<noteq> [] \<and> (\<forall>f\<in>set fs. clean d f)" "\<And>n. alloc n"
  shows "\<exists>s. csv_dump d q t = Some s \<and> (int (length s) \<le> INT_MAX \<longrightarrow>
           (\<exists>csv. csv_parse_chunks [(alloc, s)] (csv_with d q) = Some (csv, table_out t) \<and> csv_get_error_status csv = CSV_ER_OK))"
proof -
  let ?csv = "csv_with d q"
  have q: "q \<noteq> d" "\<not> is_line_end q" "d \<noteq> SP" "q \<noteq> SP"
    using assms(1) by (auto simp: good_chars_def is_line_end_def)
  have i: "csv_inv ?csv" "cs_error_status ?csv = CSV_ER_OK" "cs_delimiter ?csv = d" "cs_quote_char ?csv = q"
    "at_field d (csv_abs ?csv)"
    using csv_inv_with[OF q(3,4)] by (simp_all add: csv_with_def csv_create_def at_field_def)
  have dump: "csv_dump d q t = Some (text_of d q t)"
    using dump_lines_eq[OF _ q(1,2) i(3,4), of t 256] assms(2) by (simp add: csv_dump_def clean_def)
  have "\<exists>csv. csv_parse_chunks [(alloc, text_of d q t)] ?csv = Some (csv, table_out t) \<and> csv_get_error_status csv = CSV_ER_OK"
    if short: "int (length (text_of d q t)) \<le> INT_MAX"
  proof (cases "t = []")
    case True
    then show ?thesis
      by (auto simp: text_of_def table_out_def csv_parse_chunk_def csv_parse_impl_def csv_finish_parsing_def
          csv_isvalid_eq csv_with_def csv_create_def csv_get_error_status_def)
  next
    case False
    then have ne: "text_of d q t \<noteq> []"
      using text_of_Nil_iff assms(2) by blast
    have few: "int (cs_ending_spaces ?csv + length (text_of d q t)) \<le> INT_MAX"
      using short by (simp add: csv_with_def csv_create_def)
    obtain pr where pl: "ploop d q False (text_of d q t) (csv_abs ?csv) =
        ((csv_abs ?csv)\<lparr>ps_acc := None, ps_prev := pr\<rparr>, table_out t, Some [])"
      using ploop_table[OF i(5) assms(1,2)] False by auto
    obtain csv where c: "csv_parse_impl alloc ?csv (text_of d q t) False = Some (csv, table_out t, Some [])" "csv_inv csv"
      "csv_abs csv = (csv_abs ?csv)\<lparr>ps_acc := None, ps_prev := pr\<rparr>" "cs_error_status csv = CSV_ER_OK" "cs_buf csv \<noteq> None"
      using csv_parse_impl_refines[OF i(1) ne few, of alloc False] assms(3) i pl by (elim succeedsE case_prodE) auto
    have "ps_state (csv_abs csv) = CSV_LEADING_SPACES" and fin: "pfinal (csv_abs csv) = ([], CSV_IT_EOF)"
      unfolding c(3) using i(5) by (simp_all add: pfinal_def at_field_def)
    then have "cs_state csv = CSV_LEADING_SPACES" by (simp only: csv_abs_sel)
    then show ?thesis
      using csv_finish_parsing_refines[of csv] c(1,2,4,5) fin by (auto simp: csv_parse_chunk_def csv_get_error_status_def)
  qed
  then show ?thesis using dump by blast
qed

definition sample_table :: "string list list" where
  "sample_table = [[''a,b'', [CHR 0x22], []], [''x y'' @ [LF] @ '' '']]"

theorem csv_dump_parse_roundtrip_witness:
  "\<exists>s csv. csv_dump CHR '','' CHR 0x22 sample_table = Some s \<and>
     csv_parse_chunks [(\<lambda>_. True, s)] (csv_with CHR '','' CHR 0x22) = Some (csv, table_out sample_table) \<and>
     csv_get_error_status csv = CSV_ER_OK"
proof -
  have "map_option length (csv_dump CHR '','' CHR 0x22 sample_table) = Some 18" by code_simp
  moreover have "\<exists>s. csv_dump CHR '','' CHR 0x22 sample_table = Some s \<and> (int (length s) \<le> INT_MAX \<longrightarrow>
      (\<exists>csv. csv_parse_chunks [(\<lambda>_. True, s)] (csv_with CHR '','' CHR 0x22) = Some (csv, table_out sample_table) \<and>
        csv_get_error_status csv = CSV_ER_OK))"
    by (rule csv_dump_parse_roundtrip) (simp_all add: good_chars_def clean_def needs_quotes_def sample_table_def)
  ultimately show ?thesis by (auto simp: INT_MAX_def)
qed

text \<open>Without that condition the spaces are lost.\<close>

theorem csv_roundtrip_loses_spaces:
  "do { s \<leftarrow> csv_dump CHR '','' CHR 0x22 [['' a '']]; (csv, out) \<leftarrow> csv_parse_chunks [(\<lambda>_. True, s)] (csv_with CHR '','' CHR 0x22);
        Some out } = Some [Field ''a'', Row]"
  by code_simp

end
