(* ===== verification/Sequence.thy ===== *)
theory Sequence
  imports Prelude
begin

text \<open>
  Sequences: \<open>src/box/sequence.c\<close>, the check of their definitions (\<open>src/box/alter.cc\<close>) and the auto-increment field of
  a request (\<open>src/box/request.c\<close>).

  Numbers of type \<open>int64_t\<close> are integers; an addition or a subtraction whose result does not fit is undefined in C and
  \<^const>\<open>None\<close> here, as is a failed assertion.  The hash table with the values is a map from sequence ids.  \<open>memory\<close>
  tells whether an insertion finds memory.
\<close>

section \<open>Signed arithmetic\<close>

definition INT64_MAX :: int where
  "INT64_MAX = 9223372036854775807"

definition INT64_MIN :: int where
  "INT64_MIN = - 9223372036854775808"

definition is_i64 :: "int \<Rightarrow> bool" where
  "is_i64 v \<longleftrightarrow> INT64_MIN \<le> v \<and> v \<le> INT64_MAX"

definition i64_add :: "int \<Rightarrow> int \<Rightarrow> int option" where
  "i64_add a b = (if is_i64 (a + b) then Some (a + b) else None)"

definition i64_sub :: "int \<Rightarrow> int \<Rightarrow> int option" where
  "i64_sub a b = (if is_i64 (a - b) then Some (a - b) else None)"

section \<open>Sequences\<close>

record sequence_def =
  sd_id :: u32
  sd_step :: int
  sd_min :: int
  sd_max :: int
  sd_start :: int
  sd_cycle :: bool

datatype sequence_error = Step_Is_Zero | Max_Less_Than_Min | Start_Out_Of_Range | Sequence_Overflow | Sequence_Not_Started | Out_Of_Memory

type_synonym sequence_data_index = "u32 \<rightharpoonup> int"

text \<open>The end of \<^verbatim>\<open>sequence_def_new_from_tuple\<close>: the fields have been read as 64-bit integers.\<close>

definition sequence_def_check :: "sequence_def \<Rightarrow> sequence_error + sequence_def" where
  "sequence_def_check def =
     (if sd_step def = 0 then Inl Step_Is_Zero
      else if sd_min def > sd_max def then Inl Max_Less_Than_Min
      else if sd_start def < sd_min def \<or> sd_start def > sd_max def then Inl Start_Out_Of_Range
      else Inr def)"

definition sequence_reset :: "sequence_def \<Rightarrow> sequence_data_index \<Rightarrow> sequence_data_index" where
  "sequence_reset def index = index(sd_id def := None)"

definition sequence_set :: "bool \<Rightarrow> sequence_def \<Rightarrow> int \<Rightarrow> sequence_data_index \<Rightarrow> sequence_error option \<times> sequence_data_index" where
  "sequence_set memory def v index =
     (case index (sd_id def) of
        Some _ \<Rightarrow> (None, index(sd_id def \<mapsto> v))
      | None \<Rightarrow> if memory then (None, index(sd_id def \<mapsto> v)) else (Some Out_Of_Memory, index))"

definition sequence_update :: "bool \<Rightarrow> sequence_def \<Rightarrow> int \<Rightarrow> sequence_data_index \<Rightarrow> sequence_error option \<times> sequence_data_index" where
  "sequence_update memory def v index =
     (case index (sd_id def) of
        Some old \<Rightarrow>
          if sd_step def > 0 \<and> v > old \<or> sd_step def < 0 \<and> v < old then (None, index(sd_id def \<mapsto> v)) else (None, index)
      | None \<Rightarrow> if memory then (None, index(sd_id def \<mapsto> v)) else (Some Out_Of_Memory, index))"

text \<open>The value after the current one, \<open>None\<close> at the label \<open>overflow\<close>.\<close>

definition sequence_advance :: "sequence_def \<Rightarrow> int \<Rightarrow> int option option" where
  "sequence_advance def v =
     (if sd_step def > 0 then
        if v < sd_min def then Some (Some (sd_min def))
        else do {
          room \<leftarrow> (if v \<ge> 0 then do { d \<leftarrow> i64_sub INT64_MAX v; Some (sd_step def \<le> d) } else Some True);
          if \<not> room then Some None
          else do { v \<leftarrow> i64_add v (sd_step def); Some (if v > sd_max def then None else Some v) } }
      else do {
        _ \<leftarrow> c_assert (sd_step def < 0) ();
        if v > sd_max def then Some (Some (sd_max def))
        else do {
          room \<leftarrow> (if v < 0 then do { d \<leftarrow> i64_sub INT64_MIN v; Some (sd_step def \<ge> d) } else Some True);
          if \<not> room then Some None
          else do { v \<leftarrow> i64_add v (sd_step def); Some (if v < sd_min def then None else Some v) } } })"

definition sequence_next ::
    "bool \<Rightarrow> sequence_def \<Rightarrow> sequence_data_index \<Rightarrow> ((sequence_error + int) \<times> sequence_data_index) option" where
  "sequence_next memory def index =
     (case index (sd_id def) of
        None \<Rightarrow> Some (if memory then (Inr (sd_start def), index(sd_id def \<mapsto> sd_start def)) else (Inl Out_Of_Memory, index))
      | Some old \<Rightarrow>
          do { next \<leftarrow> sequence_advance def old;
               let next = (if next = None \<and> sd_cycle def then Some (if sd_step def > 0 then sd_min def else sd_max def) else next);
               (case next of
                  None \<Rightarrow> Some (Inl Sequence_Overflow, index)
                | Some v \<Rightarrow>
                    do { v \<leftarrow> c_assert (v \<ge> sd_min def \<and> v \<le> sd_max def) v; Some (Inr v, index(sd_id def \<mapsto> v)) }) })"

definition sequence_get_value :: "sequence_def \<Rightarrow> sequence_data_index \<Rightarrow> sequence_error + int" where
  "sequence_get_value def index = (case index (sd_id def) of None \<Rightarrow> Inl Sequence_Not_Started | Some v \<Rightarrow> Inr v)"

text \<open>
  The auto-increment field of a tuple: nil, a number that fits 64 bits, or something else.  The result is the field of
  the tuple that goes on.  \<open>region\<close> tells whether \<^verbatim>\<open>region_alloc\<close> has memory for the new tuple; when it has not, the
  request fails after the sequence has advanced.
\<close>

datatype key_field = Key_Nil | Key_Int int | Key_Other

definition request_handle_sequence ::
    "bool \<Rightarrow> bool \<Rightarrow> sequence_def \<Rightarrow> key_field \<Rightarrow> sequence_data_index \<Rightarrow> ((sequence_error + key_field) \<times> sequence_data_index) option" where
  "request_handle_sequence memory region def key index =
     (case key of
        Key_Nil \<Rightarrow> do {
          (r, index) \<leftarrow> sequence_next memory def index;
          case r of
            Inl e \<Rightarrow> Some (Inl e, index)
          | Inr v \<Rightarrow> Some (if region then (Inr (Key_Int v), index) else (Inl Out_Of_Memory, index))
        }
      | Key_Int v \<Rightarrow>
          (case sequence_update memory def v index of
             (None, index) \<Rightarrow> Some (Inr (Key_Int v), index)
           | (Some e, index) \<Rightarrow> Some (Inl e, index))
      | Key_Other \<Rightarrow> Some (Inr Key_Other, index))"

section \<open>Requests to a space with a sequence\<close>

text \<open>
  Sequences are used with any definition; \<open>seen\<close> are the values that requests with the sequence \<open>def\<close> have put into
  tuples since it was last reset or set.  Other sequences are changed at will.
\<close>

definition sequence_ok :: "sequence_def \<Rightarrow> bool" where
  "sequence_ok def \<longleftrightarrow> is_i64 (sd_step def) \<and> is_i64 (sd_min def) \<and> is_i64 (sd_max def) \<and> is_i64 (sd_start def) \<and>
     sequence_def_check def = Inr def"

inductive sequence_reach :: "sequence_def \<Rightarrow> sequence_data_index \<Rightarrow> int set \<Rightarrow> bool" for def where
  sequence_reach_start: "sequence_reach def Map.empty {}"
| sequence_reach_reset: "sequence_reach def index seen \<Longrightarrow> sequence_reach def (sequence_reset def index) {}"
| sequence_reach_set:
    "sequence_reach def index seen \<Longrightarrow> is_i64 v \<Longrightarrow> sequence_set memory def v index = (None, index') \<Longrightarrow> sequence_reach def index' {}"
| sequence_reach_request:
    "sequence_reach def index seen \<Longrightarrow> (\<forall>v. key = Key_Int v \<longrightarrow> is_i64 v) \<Longrightarrow>
     request_handle_sequence memory region def key index = Some (r, index') \<Longrightarrow>
     sequence_reach def index' (case r of Inr (Key_Int v) \<Rightarrow> insert v seen | _ \<Rightarrow> seen)"
| sequence_reach_other:
    "sequence_reach def index seen \<Longrightarrow> k \<noteq> sd_id def \<Longrightarrow> sequence_reach def (index(k := d)) seen"

definition ahead :: "sequence_def \<Rightarrow> int \<Rightarrow> int \<Rightarrow> bool" where
  "ahead def v w \<longleftrightarrow> (if sd_step def > 0 then v > w else v < w)"

text \<open>The value a sequence should have next, in integers without bounds.\<close>

definition spec_next :: "sequence_def \<Rightarrow> int \<Rightarrow> int option" where
  "spec_next def v =
     (let w = (if sd_step def > 0 \<and> v < sd_min def then sd_min def
               else if sd_step def < 0 \<and> v > sd_max def then sd_max def else v + sd_step def)
      in if sd_min def \<le> w \<and> w \<le> sd_max def then Some w
         else if sd_cycle def then Some (if sd_step def > 0 then sd_min def else sd_max def) else None)"

section \<open>Properties\<close>

lemma sequence_okD:
  assumes "sequence_ok def"
  shows "sd_step def \<noteq> 0" "sd_min def \<le> sd_max def" "sd_min def \<le> sd_start def" "sd_start def \<le> sd_max def"
    "INT64_MIN \<le> sd_min def" "sd_max def \<le> INT64_MAX" "is_i64 (sd_step def)"
  using assms by (auto simp: sequence_ok_def sequence_def_check_def is_i64_def split: if_splits)

lemma sequence_advance_spec:
  assumes ok: "sequence_ok def" and v: "is_i64 v"
  shows "succeeds (\<lambda>w. (if w = None \<and> sd_cycle def then Some (if sd_step def > 0 then sd_min def else sd_max def) else w) = spec_next def v)
    (sequence_advance def v)"
proof -
  note d = sequence_okD[OF ok]
  have b: "INT64_MIN \<le> v" "v \<le> INT64_MAX" "INT64_MIN \<le> sd_step def" "sd_step def \<le> INT64_MAX" "INT64_MIN < 0" "0 < INT64_MAX" "INT64_MIN = - INT64_MAX - 1"
    using v d(7) by (simp_all add: is_i64_def INT64_MIN_def INT64_MAX_def)
  show ?thesis
    using d(1,2,5,6) b by (auto simp: sequence_advance_def spec_next_def i64_add_def i64_sub_def is_i64_def Let_def)
qed

text \<open>The value never goes back, unless the sequence is cyclic.\<close>

lemma spec_next_ahead: "sd_step def \<noteq> 0 \<Longrightarrow> \<not> sd_cycle def \<Longrightarrow> spec_next def v = Some w \<Longrightarrow> ahead def w v"
  by (auto simp: spec_next_def ahead_def Let_def split: if_splits)

lemma spec_next_bounds: "sequence_ok def \<Longrightarrow> spec_next def v = Some w \<Longrightarrow> sd_min def \<le> w \<and> w \<le> sd_max def"
  using sequence_okD(2)[of def] by (auto simp: spec_next_def Let_def split: if_splits)

definition next_result :: "bool \<Rightarrow> sequence_def \<Rightarrow> sequence_data_index \<Rightarrow> (sequence_error + int) \<times> sequence_data_index" where
  "next_result memory def index =
     (case index (sd_id def) of
        None \<Rightarrow> if memory then (Inr (sd_start def), index(sd_id def \<mapsto> sd_start def)) else (Inl Out_Of_Memory, index)
      | Some old \<Rightarrow> (case spec_next def old of None \<Rightarrow> (Inl Sequence_Overflow, index) | Some v \<Rightarrow> (Inr v, index(sd_id def \<mapsto> v))))"

lemma sequence_next_eq:
  assumes ok: "sequence_ok def" and "\<And>v. index (sd_id def) = Some v \<Longrightarrow> is_i64 v"
  shows "sequence_next memory def index = Some (next_result memory def index)"
proof (cases "index (sd_id def)")
  case (Some old)
  obtain w where w: "sequence_advance def old = Some w"
      "(if w = None \<and> sd_cycle def then Some (if sd_step def > 0 then sd_min def else sd_max def) else w) = spec_next def old"
    using sequence_advance_spec[OF ok assms(2)[OF Some]] by (rule succeedsE)
  show ?thesis
    using Some w spec_next_bounds[OF ok, of old] by (simp add: sequence_next_def next_result_def Let_def split: option.split)
qed (simp add: sequence_next_def next_result_def)

text \<open>
  The current value of the sequence is a 64-bit integer; that of an acyclic one is none of the values seen, or the last
  of them.
\<close>

definition sequence_inv :: "sequence_def \<Rightarrow> sequence_data_index \<Rightarrow> int set \<Rightarrow> bool" where
  "sequence_inv def index seen \<longleftrightarrow>
     (\<forall>v. index (sd_id def) = Some v \<longrightarrow> is_i64 v) \<and>
     (\<not> sd_cycle def \<longrightarrow>
        (case index (sd_id def) of None \<Rightarrow> seen = {} | Some v \<Rightarrow> (\<forall>w\<in>seen. v = w \<or> ahead def v w)))"

lemma ahead_trans: "ahead def u v \<Longrightarrow> ahead def v w \<Longrightarrow> ahead def u w"
  by (auto simp: ahead_def split: if_splits)

lemma sequence_next_inv:
  assumes ok: "sequence_ok def" and inv: "sequence_inv def index seen" and r: "next_result memory def index = (Inr v, index')"
  shows "index' = index(sd_id def \<mapsto> v)" "sd_min def \<le> v" "v \<le> sd_max def" "is_i64 v" "\<not> sd_cycle def \<Longrightarrow> w \<in> seen \<Longrightarrow> ahead def v w"
proof -
  note d = sequence_okD[OF ok]
  show "index' = index(sd_id def \<mapsto> v)" using r by (auto simp: next_result_def split: option.splits if_splits)
  show v: "sd_min def \<le> v" "v \<le> sd_max def"
    using r d(3,4) spec_next_bounds[OF ok] by (auto simp: next_result_def split: option.splits if_splits)
  show "is_i64 v" using v d(5,6) by (simp add: is_i64_def)
  show "ahead def v w" if c: "\<not> sd_cycle def" and w: "w \<in> seen"
  proof -
    obtain u where u: "index (sd_id def) = Some u" "u = w \<or> ahead def u w"
      using inv c w by (auto simp: sequence_inv_def split: option.splits)
    then have "spec_next def u = Some v" using r by (auto simp: next_result_def split: option.splits)
    from spec_next_ahead[OF d(1) c this] show ?thesis using u(2) ahead_trans by blast
  qed
qed

lemma request_inv:
  assumes ok: "sequence_ok def" and inv: "sequence_inv def index seen" and key: "\<forall>v. key = Key_Int v \<longrightarrow> is_i64 v"
  shows "succeeds (\<lambda>(r, index'). sequence_inv def index' (case r of Inr (Key_Int v) \<Rightarrow> insert v seen | _ \<Rightarrow> seen))
    (request_handle_sequence memory region def key index)"
proof (cases key)
  case Key_Nil
  have eq: "sequence_next memory def index = Some (next_result memory def index)"
    using sequence_next_eq[OF ok] inv by (simp add: sequence_inv_def)
  show ?thesis
  proof (cases "next_result memory def index")
    case (Pair r index')
    show ?thesis
    proof (cases r)
      case (Inl e)
      then have "index' = index" using Pair by (auto simp: next_result_def split: option.splits if_splits)
      then show ?thesis using inv eq Key_Nil Pair Inl by (simp add: request_handle_sequence_def)
    next
      case (Inr v)
      note n = sequence_next_inv[OF ok inv Pair[unfolded Inr]]
      have "sequence_inv def index' (insert v seen)" "sequence_inv def index' seen" using n by (simp_all add: sequence_inv_def)
      then show ?thesis using eq Key_Nil Pair Inr by (simp add: request_handle_sequence_def)
    qed
  qed
next
  case (Key_Int v)
  then show ?thesis
    using inv key sequence_okD(1)[OF ok]
    by (auto simp: request_handle_sequence_def sequence_update_def sequence_inv_def ahead_def split: option.splits if_splits)
qed (use inv in \<open>simp add: request_handle_sequence_def\<close>)

lemma sequence_reach_inv:
  assumes "sequence_ok def" and "sequence_reach def index seen"
  shows "sequence_inv def index seen"
  using assms(2)
proof induction
  case (sequence_reach_set index seen v memory index')
  then show ?case by (auto simp: sequence_inv_def sequence_set_def split: option.splits if_splits)
next
  case (sequence_reach_request index seen key memory region r index')
  then show ?case using request_inv[OF assms(1), of index seen key memory region] by simp
qed (auto simp: sequence_inv_def sequence_reset_def)

text \<open>
  C21.  Sequences are well typed: for a definition that passes the checks, whatever requests, sets and resets came before,
  the next value is computed without signed overflow and without a failed assertion, as in unbounded arithmetic.  It is
  a 64-bit integer between the bounds of the sequence, and only it changes.  A sequence that is not cyclic returns a
  value beyond all that requests have used since it was last set or reset, so that auto-increment never produces one
  that is already in the space; an error leaves the sequence as it was.
\<close>

theorem sequence_next_well_typed:
  assumes "sequence_ok def" and "sequence_reach def index seen"
  shows "\<exists>r index'. sequence_next memory def index = Some (r, index') \<and> (r, index') = next_result memory def index \<and>
     (case r of
        Inl e \<Rightarrow> index' = index \<and> (memory \<longrightarrow> e = Sequence_Overflow \<and> \<not> sd_cycle def)
      | Inr v \<Rightarrow> index' = index(sd_id def \<mapsto> v) \<and> is_i64 v \<and> sd_min def \<le> v \<and> v \<le> sd_max def \<and>
          (\<not> sd_cycle def \<longrightarrow> (\<forall>w\<in>seen. ahead def v w)))"
proof -
  have inv: "sequence_inv def index seen" by (rule sequence_reach_inv[OF assms])
  then have eq: "sequence_next memory def index = Some (next_result memory def index)"
    using sequence_next_eq[OF assms(1)] by (simp add: sequence_inv_def)
  obtain r index' where r: "next_result memory def index = (r, index')" by force
  have "index' = index \<and> (memory \<longrightarrow> e = Sequence_Overflow \<and> \<not> sd_cycle def)" if "r = Inl e" for e
    using r that by (auto simp: next_result_def spec_next_def Let_def split: option.splits if_splits)
  then show ?thesis
    using eq r sequence_next_inv[OF assms(1) inv] by (auto split: sum.split)
qed

definition upwards :: sequence_def where
  "upwards = \<lparr>sd_id = 1, sd_step = 10, sd_min = 1, sd_max = INT64_MAX, sd_start = 1, sd_cycle = False\<rparr>"

theorem sequence_next_well_typed_witness:
  "sequence_ok upwards \<and> sequence_reach upwards [1 \<mapsto> 9223372036854775800] {9223372036854775800} \<and>
   sequence_next True upwards [1 \<mapsto> 9223372036854775800] = Some (Inl Sequence_Overflow, [1 \<mapsto> 9223372036854775800]) \<and>
   (\<exists>r index'. sequence_next True upwards [1 \<mapsto> 5] = Some (r, index') \<and> r = Inr 15 \<and> ahead upwards 15 5)"
proof -
  have ok: "sequence_ok upwards" by (simp add: sequence_ok_def sequence_def_check_def upwards_def is_i64_def INT64_MAX_def INT64_MIN_def)
  have reach: "sequence_reach upwards [1 \<mapsto> v] {v}" if "is_i64 v" for v
    using sequence_reach_request[OF sequence_reach_start, of "Key_Int v" True True upwards "Inr (Key_Int v)" "[1 \<mapsto> v]"] that
    by (simp add: request_handle_sequence_def sequence_update_def upwards_def)
  have v: "is_i64 9223372036854775800" "is_i64 5" by (simp_all add: is_i64_def INT64_MAX_def INT64_MIN_def)
  show ?thesis
    using ok reach[OF v(1)] sequence_next_well_typed[OF ok reach[OF v(1)], of True] sequence_next_well_typed[OF ok reach[OF v(2)], of True]
    by (auto simp: next_result_def spec_next_def upwards_def INT64_MAX_def Let_def)
qed


end
