(* ===== verification/Spec2Isabelle.thy ===== *)
theory Spec2Isabelle
  imports Bit_Ops Vclock Vclock_Text Raft Raft_Inv Raft_Node Raft_Cluster Ring Ring_Concurrent Executor Limbo Limbo_Master Heap Vy_Lsm Vy_Scheduler Vy_Dump Vy_Rounds Csv Sequence
begin

text \<open>
  Verification of parts of a storage library: Tarantool's C sources under \<^verbatim>\<open>src/\<close>, and the native side of a Dart
  binding under \<^verbatim>\<open>binding/native/\<close>.  Paths below are relative to the root of the repository.

  \<^bold>\<open>The program.\<close>  Dart isolates put messages into a lock-free ring (\<^verbatim>\<open>ck_ring.h\<close>); one fiber of the storage
  thread takes them out, executes them one by one or inside a transaction, and sends replies
  (\<^verbatim>\<open>binding_executor.c\<close>).  Transactions of synchronous spaces wait in the limbo (\<^verbatim>\<open>txn_limbo.c\<close>, with
  \<^verbatim>\<open>txn.c\<close>) until a quorum of replicas has them, which the limbo reads off vector clocks (\<^verbatim>\<open>lib/vclock\<close>, on
  top of \<^verbatim>\<open>lib/bit\<close>).  Who may write is decided by Raft elections (\<^verbatim>\<open>lib/raft\<close>).  The disk engine dumps its
  in-memory trees in rounds (\<^verbatim>\<open>vy_scheduler.c\<close>) that two binary heaps order (\<^verbatim>\<open>lib/salad/heap.h\<close>).  Sequences
  give auto-increment values (\<^verbatim>\<open>sequence.c\<close>), and CSV data goes in and out through \<^verbatim>\<open>lib/csv\<close>.

  \<^bold>\<open>Conventions\<close> (\<^verbatim>\<open>Prelude\<close>).  C integers are words of their width where they may wrap, integers or numbers where
  they do not, or where an overflow is made explicit.  A failed \<^verbatim>\<open>assert\<close>, an access outside of an array, a null
  dereference and a signed overflow are \<^const>\<open>None\<close>; theorems of the form \<open>... \<noteq> None\<close>, \<open>\<exists>y. f x = Some y\<close> or
  \<^const>\<open>succeeds\<close> say that they do not happen.  Operations that yield are cut at the yields, and properties are
  proved for every interleaving of the pieces.  Calls to the rest of the program are recorded as events or are
  parameters; the failures of allocators and of the disk are arguments.  Records have one prefix per struct.

  \<^bold>\<open>Theories and the code they model.\<close>

  \<^item> \<^verbatim>\<open>Bit_Ops\<close>: \<^verbatim>\<open>src/lib/bit/bit.h\<close>, \<^verbatim>\<open>bit.c\<close>.  Bit tests, counts, rotations, unaligned access, the bit index
    and the bit iterator.  The iterator visits exactly the set (or clear) bits, in order; the loops terminate.

  \<^item> \<^verbatim>\<open>Vclock\<close>, \<^verbatim>\<open>Vclock_Text\<close>: \<^verbatim>\<open>src/lib/vclock/vclock.h\<close>, \<^verbatim>\<open>vclock.c\<close>.  The array of 64-bit positions, the
    map of its components and the cached signature, every operation on them, both orders, and the text form.  The
    signature stays the sum of the components; comparison is a partial order (locale \<open>clock_order\<close>, interpreted for
    both comparisons) and its lexicographic refinement a total one; the text form is read back.

  \<^item> \<^verbatim>\<open>Raft\<close>, \<^verbatim>\<open>Raft_Inv\<close>, \<^verbatim>\<open>Raft_Node\<close>, \<^verbatim>\<open>Raft_Cluster\<close>: \<^verbatim>\<open>src/lib/raft/raft.c\<close>, \<^verbatim>\<open>raft.h\<close>.  The state machine with
    its timer, the worker that makes state persistent and broadcasts, recovery, configuration.  \<^verbatim>\<open>Raft_Inv\<close> has
    the invariant of a node and one lemma per operation, \<^verbatim>\<open>Raft_Node\<close> a node under any order of calls, worker
    steps and completed writes (no assertion fails; pending work settles; recovery restores what was persistent),
    \<^verbatim>\<open>Raft_Cluster\<close> a replica set with restarts and messages that may be lost, repeated and reordered: at most one
    leader is elected in a term.

  \<^item> \<^verbatim>\<open>Ring\<close>, \<^verbatim>\<open>Ring_Concurrent\<close>: \<^verbatim>\<open>binding/native/ck/include/ck_ring.h\<close>.  Sequential operations with counters that
    wrap (they refine a bounded queue, locale \<open>bounded_queue\<close>), and the interleaving of any number of producers with
    the consumer, one memory access per step: first in, first out, nothing lost or invented.

  \<^item> \<^verbatim>\<open>Executor\<close>: \<^verbatim>\<open>binding/native/src/binding_executor.c\<close>.  The message loop, its idle backoff, transaction
    ownership, stop and drain.  Functions that messages call are parameters.  Each message is answered once, a
    transaction is isolated from other isolates' messages, order is kept outside of transactions, draining ends.

  \<^item> \<^verbatim>\<open>Limbo\<close>, \<^verbatim>\<open>Limbo_Master\<close>: \<^verbatim>\<open>src/box/txn_limbo.c\<close>, the parts of \<^verbatim>\<open>txn.c\<close>, \<^verbatim>\<open>relay.cc\<close> and \<^verbatim>\<open>box.cc\<close> that use it.
    \<^verbatim>\<open>Limbo\<close> has the operations and the processing of requests from other instances, \<^verbatim>\<open>Limbo_Master\<close> the owner
    of the limbo with its committing fibers, its relays and its journal.  A synchronous transaction is confirmed only
    when a quorum has it, decisions agree with the journal, no assertion fails.

  \<^item> \<^verbatim>\<open>Heap\<close>: \<^verbatim>\<open>src/lib/salad/heap.h\<close>.  The array with 32-bit positions and back links.  Locale \<open>node_order\<close> has the
    correctness of the operations for a heap that is kept in a coarser order than the one nodes are compared with;
    \<open>exact_order\<close> is the case without the difference.  The heap is a priority queue.

  \<^item> \<^verbatim>\<open>Vy_Lsm\<close>, \<^verbatim>\<open>Vy_Scheduler\<close>, \<^verbatim>\<open>Vy_Dump\<close>, \<^verbatim>\<open>Vy_Rounds\<close>: the dump side of \<^verbatim>\<open>src/box/vy_scheduler.c\<close>, with what it needs of
    \<^verbatim>\<open>vy_lsm.c\<close>, \<^verbatim>\<open>vy_mem.c\<close> and \<^verbatim>\<open>vy_tx.c\<close>.  \<^verbatim>\<open>Vy_Lsm\<close> has the LSM trees and interprets the heap locales on
    the two comparison functions, \<^verbatim>\<open>Vy_Scheduler\<close> the operations and the scheduler fiber, \<^verbatim>\<open>Vy_Dump\<close> the
    invariant and its preservation by every step, \<^verbatim>\<open>Vy_Rounds\<close> the properties: memory is freed only when no LSM
    tree needs it, primary indexes are dumped last, no assertion fails.

  \<^item> \<^verbatim>\<open>Csv\<close>: \<^verbatim>\<open>src/lib/csv/csv.c\<close>, \<^verbatim>\<open>csv.h\<close>, the loops of \<^verbatim>\<open>src/lua/csv.lua\<close>.  Both interfaces of the parser with its
    buffer, and the printer.  What is printed is read back; the parser stays inside its buffer however the input is
    split; both interfaces agree.

  \<^item> \<^verbatim>\<open>Sequence\<close>: \<^verbatim>\<open>src/box/sequence.c\<close>, the checks of \<^verbatim>\<open>alter.cc\<close>, the auto-increment field of \<^verbatim>\<open>request.c\<close>.  Values
    stay 64-bit integers within their bounds and auto-increment values are new.

  \<^bold>\<open>Bounds and termination.\<close>  Recursive functions terminate, except loops that may run forever in the source, which
  are \<open>partial_function\<close> in the option monad; that they return is proved where the code promises it.  A heap has
  fewer than \<open>2 ^ 31\<close> values, since positions of children are 32-bit numbers.  Raft terms are 64-bit words that do
  not reach their maximum.  A ring has a power of two of slots, as its initialisation requires, and the theorem on
  concurrent use assumes that no producer sleeps while the 32-bit counters go around completely.

  \<^bold>\<open>What callers ensure\<close> is stated in one predicate per component: \<open>raft_call_ok\<close>, \<open>cluster_allows\<close>, \<open>vy_allowed\<close> and
  the like.  Where such a condition is not documented in the code, a lemma shows what happens without it.

  \<^bold>\<open>Not modelled.\<close>  SQL (\<^verbatim>\<open>src/box/sql\<close>: its parser is generated, its virtual machine needs a semantics of
  tuples, indexes and collations first), data dictionary changes (\<^verbatim>\<open>alter.cc\<close> beyond the checks of sequences), the
  memory engine and its transaction manager, the rest of the disk engine (runs, ranges, compaction, read iterators,
  the metadata log), tuples and their formats, the write-ahead log and recovery from it, replication over the network
  (\<^verbatim>\<open>applier.cc\<close>, \<^verbatim>\<open>relay.cc\<close> beyond acknowledgements), the binary protocol server, fibers, coroutines and the event
  loop, everything written in Lua beyond \<^verbatim>\<open>csv.lua\<close>, the Dart side, and third-party libraries (\<^verbatim>\<open>small\<close>,
  \<^verbatim>\<open>msgpuck\<close>, LuaJIT, libev).  They are input and output, generated code, or code whose effects on the modelled
  parts appear as parameters and events.  In the modelled parts, statistics, logging, error injection, tracing and
  the release of memory are left out.
\<close>

end
